(* ===== verification/Prelude.thy ===== *)
theory Prelude
  imports Main "HOL-Library.Word" "HOL-Library.Sublist" "HOL-Library.Multiset" "HOL-Library.Code_Target_Nat"
begin

text \<open>
  Shared vocabulary of the development.  It holds what every component uses and no component
  owns: Go's error values and the sequencing of fallible calls, the bytes of strings and of
  big-endian integers (package \<open>encoding/binary\<close>), 64-bit wrap-around, decimal rendering
  (package \<open>strconv\<close>), \<open>time.Time\<close>, and generic facts on lists and maps.  Strings are
  byte sequences, as in Go: a \<^typ>\<open>char\<close> is one byte.
\<close>

named_theorems codec_simps \<open>equations that evaluate encoders and decoders\<close>
named_theorems inv_intros \<open>preservation of component invariants\<close>
named_theorems time_simps \<open>equations of the time model\<close>


section \<open>Errors and fallible calls\<close>

text \<open>
  The error values the packages return.  \<open>NotFoundError\<close> is \<open>store.NotFoundError\<close>,
  \<open>ErrUnsealed\<close> is \<open>segment.ErrUnsealed\<close> (\<open>ErrIndexCRC\<close> wraps it), \<open>Canceled\<close> is
  \<open>context.Canceled\<close>; \<open>NilDereference\<close> and \<open>Panic\<close> are run-time panics; errors of the operating system and of third-party packages carry a
  text only.
\<close>

datatype go_error =
    NotFoundError string
  | ErrUnsealed
  | ErrIndexCRC
  | ErrClosedPipe
  | Canceled
  | BlockOutOfRange int
  | NilDereference
  | Panic string
  | OtherError string

text \<open>\<open>rbind x f\<close> is Go's "if err != nil return err" before the next statement \<open>f\<close>.\<close>

fun rbind :: "'e + 'a \<Rightarrow> ('a \<Rightarrow> 'e + 'b) \<Rightarrow> 'e + 'b" where
  "rbind (Inl e) f = Inl e"
| "rbind (Inr x) f = f x"

lemma rbind_Inr_iff [simp]: "rbind x f = Inr z \<longleftrightarrow> (\<exists>y. x = Inr y \<and> f y = Inr z)"
  by (cases x) auto

lemma rbind_Inl_iff: "rbind x f = Inl e \<longleftrightarrow> x = Inl e \<or> (\<exists>y. x = Inr y \<and> f y = Inl e)"
  by (cases x) auto

lemma rbind_cong [fundef_cong]:
  "x = x' \<Longrightarrow> (\<And>y. x' = Inr y \<Longrightarrow> f y = g y) \<Longrightarrow> rbind x f = rbind x' g"
  by (cases x') auto


section \<open>Machine integers\<close>

text \<open>
  \<open>int64\<close> values are integers; \<open>wrap64\<close> is the two's-complement reduction that an
  \<open>int64\<close> operation or a conversion from \<open>uint64\<close> applies.
\<close>

definition wrap64 :: "int \<Rightarrow> int" where
  "wrap64 x = (x + 2 ^ 63) mod 2 ^ 64 - 2 ^ 63"

definition in_int64 :: "int \<Rightarrow> bool" where
  "in_int64 x \<longleftrightarrow> - (2 ^ 63) \<le> x \<and> x < 2 ^ 63"

lemma wrap64_id [simp]: "in_int64 x \<Longrightarrow> wrap64 x = x"
  by (simp add: wrap64_def in_int64_def)

lemma in_int64_wrap64 [simp, intro]: "in_int64 (wrap64 x)"
proof -
  have "0 \<le> (x + 2 ^ 63) mod 2 ^ 64" and "(x + 2 ^ 63) mod 2 ^ 64 < (2 ^ 64 :: int)"
    by simp_all
  then show ?thesis unfolding wrap64_def in_int64_def by simp
qed

lemma wrap64_mod [simp]: "wrap64 (x mod 2 ^ 64) = wrap64 x"
  by (simp add: wrap64_def mod_simps)

lemma in_int64_nonneg: "0 \<le> x \<Longrightarrow> x < 2 ^ 63 \<Longrightarrow> in_int64 x"
  by (simp add: in_int64_def)


section \<open>Big-endian integers\<close>

text \<open>\<open>be_put k n\<close> is \<open>binary.BigEndian.PutUint\<close> of \<open>n\<close> into \<open>k\<close> bytes.\<close>

fun be_put :: "nat \<Rightarrow> nat \<Rightarrow> string" where
  "be_put 0 n = []"
| "be_put (Suc k) n = be_put k (n div 256) @ [char_of n]"

definition be_get :: "string \<Rightarrow> nat" where
  "be_get bs = foldl (\<lambda>a c. 256 * a + of_char c) 0 bs"

lemma be_get_Nil [simp]: "be_get [] = 0"
  by (simp add: be_get_def)

lemma be_get_snoc [simp]: "be_get (bs @ [c]) = 256 * be_get bs + of_char c"
  by (simp add: be_get_def)

lemma length_be_put [simp]: "length (be_put k n) = k"
  by (induction k arbitrary: n) auto

lemma be_get_put: "be_get (be_put k n) = n mod 256 ^ k"
proof (induction k arbitrary: n)
  case (Suc k)
  have "be_get (be_put (Suc k) n) = 256 * (n div 256 mod 256 ^ k) + n mod 256"
    by (simp add: Suc.IH)
  also have "\<dots> = n mod 256 ^ Suc k"
    by (simp add: mod_mult2_eq)
  finally show ?case .
qed simp

lemma be_get_put_id [codec_simps]: "n < 256 ^ k \<Longrightarrow> be_get (be_put k n) = n"
  by (simp add: be_get_put)

text \<open>\<open>uint64(x)\<close> of an \<open>int64\<close>, as stored, and \<open>int64(u)\<close> of what is read back.\<close>

definition put_int64 :: "int \<Rightarrow> string" where
  "put_int64 x = be_put 8 (nat (x mod 2 ^ 64))"

definition get_int64 :: "string \<Rightarrow> int" where
  "get_int64 bs = wrap64 (int (be_get bs))"

lemma length_put_int64 [simp]: "length (put_int64 x) = 8"
  by (simp add: put_int64_def)

lemma get_put_int64 [codec_simps]: "get_int64 (put_int64 x) = wrap64 x"
proof -
  have "nat (x mod 2 ^ 64) < 256 ^ 8" by (simp add: nat_less_iff)
  then have "int (be_get (be_put 8 (nat (x mod 2 ^ 64)))) = x mod 2 ^ 64"
    by (simp add: be_get_put_id)
  then show ?thesis
    unfolding get_int64_def put_int64_def by (simp only: wrap64_mod)
qed


section \<open>Decimal rendering\<close>

text \<open>\<open>strconv.FormatUint(n, 10)\<close> and \<open>strconv.FormatInt(x, 10)\<close>.\<close>

definition digit_char :: "nat \<Rightarrow> char" where
  "digit_char d = char_of (48 + d)"

fun format_uint :: "nat \<Rightarrow> string" where
  "format_uint n = (if n < 10 then [digit_char n] else format_uint (n div 10) @ [digit_char (n mod 10)])"

declare format_uint.simps [simp del]

definition format_int :: "int \<Rightarrow> string" where
  "format_int x = (if x < 0 then CHR ''-'' # format_uint (nat (- x)) else format_uint (nat x))"

definition is_digit_char :: "char \<Rightarrow> bool" where
  "is_digit_char c \<longleftrightarrow> 48 \<le> (of_char c :: nat) \<and> (of_char c :: nat) \<le> 57"

definition dec_value :: "string \<Rightarrow> nat" where
  "dec_value s = foldl (\<lambda>a c. 10 * a + (of_char c - 48)) 0 s"

lemma dec_value_snoc [simp]: "dec_value (s @ [c]) = 10 * dec_value s + (of_char c - 48)"
  by (simp add: dec_value_def)

lemma of_digit_char: "d < 10 \<Longrightarrow> of_char (digit_char d) = 48 + d"
  by (simp add: digit_char_def)

lemma dec_value_format_uint: "dec_value (format_uint n) = n"
proof (induction n rule: format_uint.induct)
  case (1 n)
  show ?case
  proof (cases "n < 10")
    case True
    then show ?thesis
      by (simp add: format_uint.simps [of n] dec_value_def of_digit_char)
  next
    case False
    with "1.IH" show ?thesis
      by (simp add: format_uint.simps [of n] of_digit_char)
  qed
qed

lemma format_uint_inj: "format_uint m = format_uint n \<longleftrightarrow> m = n"
  by (metis dec_value_format_uint)

lemma format_uint_digits: "c \<in> set (format_uint n) \<Longrightarrow> is_digit_char c"
proof (induction n rule: format_uint.induct)
  case (1 n)
  then show ?case
    by (cases "n < 10")
      (auto simp: format_uint.simps [of n] is_digit_char_def of_digit_char)
qed

lemma format_uint_no_minus: "CHR ''-'' \<notin> set (format_uint n)"
  using format_uint_digits [of "CHR ''-''" n] by (auto simp: is_digit_char_def)

lemma format_uint_not_Nil [simp]: "format_uint n \<noteq> []"
  by (subst format_uint.simps) simp

lemma format_int_inj: "format_int x = format_int y \<longleftrightarrow> x = y"
proof
  assume eq: "format_int x = format_int y"
  have no: "format_uint n \<noteq> CHR ''-'' # t" for n t
    using format_uint_no_minus [of n] by auto
  from eq show "x = y"
    using no no [symmetric]
    by (auto simp: format_int_def format_uint_inj eq_nat_nat_iff split: if_splits)
qed simp

lemma format_int_chars: "c \<in> set (format_int x) \<Longrightarrow> is_digit_char c \<or> c = CHR ''-''"
  by (auto simp: format_int_def dest: format_uint_digits split: if_splits)


section \<open>Time\<close>

text \<open>
  A \<open>time.Time\<close> is an instant: the nanoseconds since the Unix epoch, unbounded (Go keeps
  64-bit seconds apart from the nanoseconds).  The zero value is midnight of January 1, year 1,
  and \<open>IsZero\<close> tests for it.  \<open>UnixNano\<close> is an \<open>int64\<close>.
\<close>

type_synonym time = int

definition zero_time :: time where
  "zero_time = - 62135596800000000000"

definition is_zero :: "time \<Rightarrow> bool" where
  "is_zero t \<longleftrightarrow> t = zero_time"

definition unix_nano :: "time \<Rightarrow> int" where
  "unix_nano t = wrap64 t"

text \<open>\<open>time.Unix(0, n)\<close>.\<close>

definition unix_time :: "int \<Rightarrow> time" where
  "unix_time n = n"

lemma unix_time_nano [time_simps]: "in_int64 t \<Longrightarrow> unix_time (unix_nano t) = t"
  by (simp add: unix_time_def unix_nano_def)

lemma is_zero_zero_time [simp]: "is_zero zero_time"
  by (simp add: is_zero_def)


section \<open>Lists and maps\<close>

lemma sorted_wrt_filter: "sorted_wrt R xs \<Longrightarrow> sorted_wrt R (filter P xs)"
  by (induction xs) auto

lemma sorted_wrt_take: "sorted_wrt R xs \<Longrightarrow> sorted_wrt R (take n xs)"
  by (metis append_take_drop_id sorted_wrt_append)

text \<open>A missing key of a Go \<open>map[string]int64\<close> reads as 0.\<close>

definition get0 :: "('k \<rightharpoonup> int) \<Rightarrow> 'k \<Rightarrow> int" where
  "get0 m k = (case m k of None \<Rightarrow> 0 | Some v \<Rightarrow> v)"

lemma get0_empty [simp]: "get0 Map.empty k = 0"
  by (simp add: get0_def)

lemma get0_upd [simp]: "get0 (m(k \<mapsto> v)) j = (if j = k then v else get0 m j)"
  by (simp add: get0_def)

text \<open>The idiom \<open>if v > m[k] \{ m[k] = v \}\<close>: a per-key maximum.\<close>

definition raise_max :: "'k \<Rightarrow> int \<Rightarrow> ('k \<rightharpoonup> int) \<Rightarrow> ('k \<rightharpoonup> int)" where
  "raise_max k v m = (if v > get0 m k then m(k \<mapsto> v) else m)"

lemma get0_raise_max: "get0 (raise_max k v m) j = (if j = k then max v (get0 m k) else get0 m j)"
  by (simp add: raise_max_def max_def)

lemma raise_max_mono: "get0 m j \<le> get0 (raise_max k v m) j"
  by (simp add: get0_raise_max)

end
