(* ===== verification/GoStrings.thy ===== *)
theory GoStrings
  imports Prelude
begin

text \<open>
  What the sources use of Go's standard string packages (\<open>strings\<close>, \<open>unicode\<close>,
  \<open>unicode/utf8\<close>), of IEEE-754 comparison, and the record \<open>runtime\<close> that holds the
  library functions the development does not define: the Unicode tables above U+00FF,
  \<open>strconv\<close>'s floating-point conversions, \<open>regexp\<close> and the \<open>encoding/json\<close>
  decoder of raw values.
\<close>


section \<open>Runes\<close>

definition rune_error :: nat where
  "rune_error = 0xFFFD"

definition is_cont :: "char \<Rightarrow> bool" where
  "is_cont c \<longleftrightarrow> 0x80 \<le> (of_char c :: nat) \<and> (of_char c :: nat) \<le> 0xBF"

text \<open>
  The accepted range of the second byte, by the first byte (the \<open>acceptRanges\<close> of
  \<open>unicode/utf8\<close>): overlong forms, surrogates and values above U+10FFFF are excluded.
\<close>

definition second_ok :: "nat \<Rightarrow> char \<Rightarrow> bool" where
  "second_ok b c =
     (let x = (of_char c :: nat);
          lo = (if b = 0xE0 then 0xA0 else if b = 0xF0 then 0x90 else 0x80);
          hi = (if b = 0xED then 0x9F else if b = 0xF4 then 0x8F else 0xBF)
      in lo \<le> x \<and> x \<le> hi)"

text \<open>\<open>utf8.DecodeRuneInString\<close>: the rune and its width in bytes.\<close>

fun decode_rune :: "string \<Rightarrow> nat \<times> nat" where
  "decode_rune [] = (rune_error, 0)"
| "decode_rune (c # cs) =
     (let b = (of_char c :: nat) in
      if b < 0x80 then (b, 1)
      else if b < 0xC2 \<or> 0xF4 < b then (rune_error, 1)
      else if b < 0xE0 then
        (case cs of
           c1 # _ \<Rightarrow> if second_ok b c1 then ((b mod 32) * 64 + of_char c1 mod 64, 2)
                      else (rune_error, 1)
         | _ \<Rightarrow> (rune_error, 1))
      else if b < 0xF0 then
        (case cs of
           c1 # c2 # _ \<Rightarrow>
             if second_ok b c1 \<and> is_cont c2
             then ((b mod 16) * 4096 + (of_char c1 mod 64) * 64 + of_char c2 mod 64, 3)
             else (rune_error, 1)
         | _ \<Rightarrow> (rune_error, 1))
      else
        (case cs of
           c1 # c2 # c3 # _ \<Rightarrow>
             if second_ok b c1 \<and> is_cont c2 \<and> is_cont c3
             then ((b mod 8) * 262144 + (of_char c1 mod 64) * 4096
                    + (of_char c2 mod 64) * 64 + of_char c3 mod 64, 4)
             else (rune_error, 1)
         | _ \<Rightarrow> (rune_error, 1)))"

lemma decode_rune_size_pos: "s \<noteq> [] \<Longrightarrow> 0 < snd (decode_rune s)"
  by (cases s) (auto simp: Let_def split: list.splits)

lemma decode_rune_size_le: "snd (decode_rune s) \<le> length s"
  by (cases s) (auto simp: Let_def split: list.splits)

lemma decode_rune_ascii: "(of_char c :: nat) < 0x80 \<Longrightarrow> decode_rune (c # cs) = (of_char c, 1)"
  by simp

declare decode_rune.simps(2) [simp del]

text \<open>\<open>utf8.RuneStart\<close> and \<open>utf8.DecodeLastRuneInString\<close>.\<close>

definition rune_start :: "char \<Rightarrow> bool" where
  "rune_start c \<longleftrightarrow> \<not> is_cont c"

definition decode_last_rune :: "string \<Rightarrow> nat \<times> nat" where
  "decode_last_rune s =
     (let n = length s in
      if n = 0 then (rune_error, 0)
      else if (of_char (last s) :: nat) < 0x80 then (of_char (last s), 1)
      else
        (case filter (\<lambda>i. rune_start (s ! i)) (rev [n - 4 ..< n - 1]) of
           [] \<Rightarrow> (rune_error, 1)
         | i # _ \<Rightarrow>
             (let (r, sz) = decode_rune (drop i s)
              in if i + sz \<noteq> n then (rune_error, 1) else (r, sz))))"

lemma decode_last_rune_size: "s \<noteq> [] \<Longrightarrow> 0 < snd (decode_last_rune s)"
proof -
  assume s: "s \<noteq> []"
  have "0 < snd (decode_rune (drop i s))"
    if "filter (\<lambda>i. rune_start (s ! i)) (rev [length s - 4 ..< length s - 1]) = i # is" for i "is"
  proof -
    from that have "i \<in> set (rev [length s - 4 ..< length s - 1])"
      by (metis filter_is_subset list.set_intros(1) subsetD)
    then show ?thesis by (auto intro!: decode_rune_size_pos)
  qed
  with s show ?thesis
    by (fastforce simp: decode_last_rune_def Let_def split: list.splits prod.splits)
qed


section \<open>Character classes and trimming\<close>

text \<open>\<open>unicode.IsSpace\<close>.\<close>

definition is_space :: "nat \<Rightarrow> bool" where
  "is_space r \<longleftrightarrow>
     (9 \<le> r \<and> r \<le> 13) \<or> r = 0x20 \<or> r = 0x85 \<or> r = 0xA0 \<or> r = 0x1680
     \<or> (0x2000 \<le> r \<and> r \<le> 0x200A) \<or> r = 0x2028 \<or> r = 0x2029 \<or> r = 0x202F
     \<or> r = 0x205F \<or> r = 0x3000"

lemma not_is_space_rune_error [simp]: "\<not> is_space rune_error"
  by (simp add: is_space_def rune_error_def)

text \<open>\<open>strings.TrimLeftFunc(s, unicode.IsSpace)\<close>.\<close>

function trim_left :: "string \<Rightarrow> string" where
  "trim_left s =
     (if s \<noteq> [] \<and> is_space (fst (decode_rune s)) then trim_left (drop (snd (decode_rune s)) s)
      else s)"
  by pat_completeness auto
termination
  by (relation "measure length") (auto simp: decode_rune_size_pos)

declare trim_left.simps [simp del]

function trim_right :: "string \<Rightarrow> string" where
  "trim_right s =
     (if s \<noteq> [] \<and> is_space (fst (decode_last_rune s))
      then trim_right (take (length s - snd (decode_last_rune s)) s)
      else s)"
  by pat_completeness auto
termination
  by (relation "measure length") (auto simp: decode_last_rune_size)

declare trim_right.simps [simp del]

text \<open>\<open>strings.TrimSpace\<close>.\<close>

definition trim_space :: "string \<Rightarrow> string" where
  "trim_space s = trim_right (trim_left s)"

lemma trim_left_Nil [simp]: "trim_left [] = []"
  by (subst trim_left.simps) simp

lemma trim_right_Nil [simp]: "trim_right [] = []"
  by (subst trim_right.simps) simp

lemma length_trim_left: "length (trim_left s) \<le> length s"
proof (induction s rule: trim_left.induct)
  case (1 s)
  then show ?case by (subst trim_left.simps) (auto intro: le_trans)
qed

lemma suffix_trim_left: "suffix (trim_left s) s"
proof (induction s rule: trim_left.induct)
  case (1 s)
  then show ?case
    by (subst trim_left.simps)
      (auto intro: suffix_order.trans suffix_drop)
qed

lemma trim_left_nonspace:
  "(of_char c :: nat) < 0x80 \<Longrightarrow> \<not> is_space (of_char c) \<Longrightarrow> trim_left (c # s) = c # s"
  by (subst trim_left.simps) (simp add: decode_rune_ascii)

lemma trim_left_blank [simp]: "trim_left (CHR '' '' # s) = trim_left s"
  by (subst trim_left.simps) (simp add: decode_rune_ascii is_space_def)

lemma trim_left_head: "trim_left s \<noteq> [] \<Longrightarrow> \<not> is_space (fst (decode_rune (trim_left s)))"
proof (induction s rule: trim_left.induct)
  case (1 s)
  show ?case
  proof (cases "s \<noteq> [] \<and> is_space (fst (decode_rune s))")
    case True
    with 1 show ?thesis by (simp add: trim_left.simps [of s])
  next
    case False
    with 1 show ?thesis by (simp add: trim_left.simps [of s])
  qed
qed


section \<open>Splitting, joining, searching\<close>

text \<open>\<open>strings.Split(s, sep)\<close> for a one-byte separator.\<close>

fun split_on :: "char \<Rightarrow> string \<Rightarrow> string list" where
  "split_on c [] = [[]]"
| "split_on c (x # xs) =
     (if x = c then [] # split_on c xs
      else (case split_on c xs of [] \<Rightarrow> [[x]] | p # ps \<Rightarrow> (x # p) # ps))"

text \<open>\<open>strings.SplitN(s, sep, n)\<close> for \<open>n > 0\<close>: at most \<open>n\<close> parts, the last unsplit.\<close>

fun split_n :: "char \<Rightarrow> nat \<Rightarrow> string \<Rightarrow> string list" where
  "split_n c 0 s = []"
| "split_n c (Suc 0) s = [s]"
| "split_n c (Suc (Suc n)) s =
     (if c \<in> set s
      then takeWhile (\<lambda>x. x \<noteq> c) s # split_n c (Suc n) (tl (dropWhile (\<lambda>x. x \<noteq> c) s))
      else [s])"

text \<open>\<open>strings.Join\<close>.\<close>

fun join :: "string \<Rightarrow> string list \<Rightarrow> string" where
  "join sep [] = []"
| "join sep [p] = p"
| "join sep (p # q # ps) = p @ sep @ join sep (q # ps)"

text \<open>\<open>strings.Contains\<close>, \<open>HasPrefix\<close>, \<open>HasSuffix\<close>, \<open>TrimSuffix\<close>.\<close>

definition contains_str :: "string \<Rightarrow> string \<Rightarrow> bool" where
  "contains_str s sub \<longleftrightarrow> (\<exists>i \<in> set [0 ..< Suc (length s)]. take (length sub) (drop i s) = sub)"

definition has_prefix :: "string \<Rightarrow> string \<Rightarrow> bool" where
  "has_prefix s p \<longleftrightarrow> length p \<le> length s \<and> take (length p) s = p"

definition has_suffix :: "string \<Rightarrow> string \<Rightarrow> bool" where
  "has_suffix s p \<longleftrightarrow> length p \<le> length s \<and> drop (length s - length p) s = p"

definition trim_suffix :: "string \<Rightarrow> string \<Rightarrow> string" where
  "trim_suffix s p = (if has_suffix s p then take (length s - length p) s else s)"

lemma contains_str_sublist: "contains_str s sub \<longleftrightarrow> sublist sub s"
proof
  assume "contains_str s sub"
  then obtain i where "take (length sub) (drop i s) = sub" by (auto simp: contains_str_def)
  then show "sublist sub s"
    by (metis append_take_drop_id sublist_def)
next
  assume "sublist sub s"
  then obtain ps ss where s: "s = ps @ sub @ ss" by (auto simp: sublist_def)
  then have "take (length sub) (drop (length ps) s) = sub" by simp
  moreover have "length ps \<in> set [0 ..< Suc (length s)]" using s by simp
  ultimately show "contains_str s sub" unfolding contains_str_def by blast
qed

lemma has_prefix_append [simp]: "has_prefix (p @ s) p"
  by (simp add: has_prefix_def)

lemma has_suffix_append [simp]: "has_suffix (s @ p) p"
  by (simp add: has_suffix_def)

lemma trim_suffix_append [simp]: "trim_suffix (s @ p) p = s"
  by (simp add: trim_suffix_def)

lemma split_on_no_sep: "c \<notin> set s \<Longrightarrow> split_on c s = [s]"
  by (induction s) auto

lemma split_on_append: "c \<notin> set s \<Longrightarrow> split_on c (s @ c # t) = s # split_on c t"
  by (induction s) auto

lemma split_n_append: "c \<notin> set s \<Longrightarrow> split_n c (Suc (Suc n)) (s @ c # t) = s # split_n c (Suc n) t"
proof -
  assume c: "c \<notin> set s"
  then have all: "\<And>x. x \<in> set s \<Longrightarrow> x \<noteq> c" by auto
  have "takeWhile (\<lambda>x. x \<noteq> c) (s @ c # t) = s"
    using all by (simp add: takeWhile_append)
  moreover have "dropWhile (\<lambda>x. x \<noteq> c) (s @ c # t) = c # t"
    using all by (simp add: dropWhile_append)
  ultimately show ?thesis by simp
qed

lemma split_n_no_sep: "c \<notin> set s \<Longrightarrow> split_n c (Suc n) s = [s]"
  by (cases n) auto

lemma length_split_n: "length (split_n c n s) \<le> n"
  by (induction c n s rule: split_n.induct) auto


section \<open>Floating-point comparison\<close>

text \<open>A \<open>float64\<close> is its IEEE-754 bit pattern; comparisons are defined on it.\<close>

type_synonym f64 = "64 word"

definition f64_mag :: "f64 \<Rightarrow> int" where
  "f64_mag w = uint w mod 2 ^ 63"

definition f64_is_nan :: "f64 \<Rightarrow> bool" where
  "f64_is_nan w \<longleftrightarrow> 0x7FF0000000000000 < f64_mag w"

definition f64_ord :: "f64 \<Rightarrow> int" where
  "f64_ord w = (if uint w < 2 ^ 63 then f64_mag w else - f64_mag w)"

definition f64_eq :: "f64 \<Rightarrow> f64 \<Rightarrow> bool" where
  "f64_eq a b \<longleftrightarrow> \<not> f64_is_nan a \<and> \<not> f64_is_nan b \<and> f64_ord a = f64_ord b"

definition f64_lt :: "f64 \<Rightarrow> f64 \<Rightarrow> bool" where
  "f64_lt a b \<longleftrightarrow> \<not> f64_is_nan a \<and> \<not> f64_is_nan b \<and> f64_ord a < f64_ord b"

definition f64_le :: "f64 \<Rightarrow> f64 \<Rightarrow> bool" where
  "f64_le a b \<longleftrightarrow> \<not> f64_is_nan a \<and> \<not> f64_is_nan b \<and> f64_ord a \<le> f64_ord b"

lemma f64_le_iff: "f64_le a b \<longleftrightarrow> f64_lt a b \<or> f64_eq a b"
  by (auto simp: f64_le_def f64_lt_def f64_eq_def)


section \<open>The order on strings\<close>

text \<open>Go compares strings bytewise.\<close>

fun string_less :: "string \<Rightarrow> string \<Rightarrow> bool" where
  "string_less [] [] = False"
| "string_less [] (_ # _) = True"
| "string_less (_ # _) [] = False"
| "string_less (a # as) (b # bs) =
     ((of_char a :: nat) < of_char b \<or> (a = b \<and> string_less as bs))"

definition string_leq :: "string \<Rightarrow> string \<Rightarrow> bool" where
  "string_leq a b \<longleftrightarrow> a = b \<or> string_less a b"

fun insort_string :: "string \<Rightarrow> string list \<Rightarrow> string list" where
  "insort_string k [] = [k]"
| "insort_string k (x # xs) = (if string_less k x then k # x # xs else x # insort_string k xs)"

text \<open>\<open>sort.Strings\<close>.\<close>

definition sort_strings :: "string list \<Rightarrow> string list" where
  "sort_strings xs = foldr insort_string xs []"

text \<open>Go's byte order on strings is a strict linear order.\<close>

lemma string_less_irrefl: "\<not> string_less a a"
  by (induction a) auto

lemma string_less_trans: "string_less a b \<Longrightarrow> string_less b c \<Longrightarrow> string_less a c"
proof (induction a b arbitrary: c rule: string_less.induct)
  case (2 b bs)
  then show ?case by (cases c) auto
next
  case (4 a as b bs)
  then show ?case by (cases c) auto
qed auto

lemma string_less_linear: "string_less a b \<or> a = b \<or> string_less b a"
  by (induction a b rule: string_less.induct) (auto simp: nat_neq_iff dest: of_char_eq_iff [THEN iffD1])

lemma mset_sort_strings: "mset (sort_strings xs) = mset xs"
proof -
  have ins: "mset (insort_string k ys) = add_mset k (mset ys)" for k ys by (induction ys) auto
  have "mset (foldr insort_string xs ys) = mset xs + mset ys" for ys by (induction xs) (auto simp: ins)
  then show ?thesis by (simp add: sort_strings_def)
qed

lemma set_sort_strings [simp]: "set (sort_strings xs) = set xs"
  by (metis mset_sort_strings set_mset_mset)


section \<open>The runtime\<close>

text \<open>
  Library functions taken as parameters.  \<open>uni_letter\<close> and \<open>uni_digit\<close> are
  \<open>unicode.IsLetter\<close> and \<open>unicode.IsDigit\<close> above U+00FF.  A compiled regular
  expression is an element of \<open>regexp\<close>, here its pattern.  The \<open>json_\<close> functions are
  \<open>json.Unmarshal\<close> into a \<open>map[string]json.RawMessage\<close>, a \<open>string\<close>, a
  \<open>bool\<close> and a \<open>float64\<close>; \<open>json_quote\<close> is \<open>json.Marshal\<close> of a string;
  \<open>parse_rfc3339\<close> is \<open>time.Parse(time.RFC3339Nano, s)\<close>.
\<close>

type_synonym regexp = string

record runtime =
  uni_letter :: "nat \<Rightarrow> bool"
  uni_digit :: "nat \<Rightarrow> bool"
  parse_float :: "string \<Rightarrow> f64 option"
  format_float :: "f64 \<Rightarrow> string"
  float_of_int64 :: "int \<Rightarrow> f64"
  regexp_compile :: "string \<Rightarrow> regexp option"
  regexp_match :: "regexp \<Rightarrow> string \<Rightarrow> bool"
  json_object :: "string \<Rightarrow> (string \<times> string) list option"
  json_string :: "string \<Rightarrow> string option"
  json_bool :: "string \<Rightarrow> bool option"
  json_number :: "string \<Rightarrow> f64 option"
  json_quote :: "string \<Rightarrow> string"
  parse_rfc3339 :: "string \<Rightarrow> time option"

text \<open>\<open>unicode.IsLetter\<close> and \<open>unicode.IsDigit\<close>, with the Latin-1 table written out.\<close>

definition is_letter :: "runtime \<Rightarrow> nat \<Rightarrow> bool" where
  "is_letter rt r \<longleftrightarrow>
     (if r \<le> 0xFF then
        (65 \<le> r \<and> r \<le> 90) \<or> (97 \<le> r \<and> r \<le> 122) \<or> r = 0xAA \<or> r = 0xB5 \<or> r = 0xBA
        \<or> (0xC0 \<le> r \<and> r \<noteq> 0xD7 \<and> r \<noteq> 0xF7)
      else uni_letter rt r)"

definition is_digit :: "runtime \<Rightarrow> nat \<Rightarrow> bool" where
  "is_digit rt r \<longleftrightarrow> (if r \<le> 0xFF then 48 \<le> r \<and> r \<le> 57 else uni_digit rt r)"

text \<open>
  A runtime in which every partial library function fails, no text matches a regular
  expression, and only ASCII and Latin-1 runes are letters: the examples evaluate in it.
\<close>

definition bare_runtime :: runtime where
  "bare_runtime = \<lparr>uni_letter = (\<lambda>_. False), uni_digit = (\<lambda>_. False), parse_float = (\<lambda>_. None),
     format_float = (\<lambda>_. []), float_of_int64 = (\<lambda>_. 0), regexp_compile = (\<lambda>_. None),
     regexp_match = (\<lambda>_ _. False), json_object = (\<lambda>_. None), json_string = (\<lambda>_. None),
     json_bool = (\<lambda>_. None), json_number = (\<lambda>_. None), json_quote = (\<lambda>s. s),
     parse_rfc3339 = (\<lambda>_. None)\<rparr>"

end
