(* ===== verification/LogModel.thy ===== *)
theory LogModel
  imports GoStrings
begin

text \<open>
  The data of \<open>internal/model/model.go\<close>: log sources and records, segment and block
  metadata, and the two operations defined on them, \<open>Source.Key\<close> and \<open>Overlaps\<close>.
  Go maps that the code ranges over (labels, annotations, body) are association lists with
  distinct keys; a nil map is the empty list.
\<close>


section \<open>Sources and records\<close>

definition StreamStdout :: string where
  "StreamStdout = ''stdout''"

definition StreamStderr :: string where
  "StreamStderr = ''stderr''"

record source =
  src_Node :: string
  src_Path :: string
  src_Device :: "64 word"
  src_Inode :: "64 word"
  src_CreatedUnixNano :: int

definition NUL :: char where
  "NUL = CHR 0x00"

definition Key :: "source \<Rightarrow> string" where
  "Key s = src_Node s @ [NUL] @ src_Path s @ [NUL]
     @ format_uint (unat (src_Device s)) @ [NUL]
     @ format_uint (unat (src_Inode s)) @ [NUL]
     @ format_int (src_CreatedUnixNano s)"

record log_record =
  rec_Source :: source
  rec_Offset :: int
  rec_Timestamp :: time
  rec_Namespace :: string
  rec_Pod :: string
  rec_Container :: string
  rec_Node :: string
  rec_Image :: string
  rec_Stream :: string
  rec_Labels :: "(string \<times> string) list"
  rec_Annotations :: "(string \<times> string) list"
  rec_Message :: string
  rec_Body :: "(string \<times> string) list"

text \<open>
  Callbacks \<open>func(*model.Record) error\<close> carry a state of their own; \<open>collect\<close> appends the records it
  is given to a slice.
\<close>

type_synonym 'e emitter = "log_record \<Rightarrow> 'e \<Rightarrow> go_error option \<times> 'e"

definition collect :: "log_record list emitter" where
  "collect r acc = (None, acc @ [r])"

text \<open>The zero value \<open>model.Record\{\}\<close>.\<close>

definition empty_record :: log_record where
  "empty_record = \<lparr>rec_Source = \<lparr>src_Node = [], src_Path = [], src_Device = 0, src_Inode = 0,
       src_CreatedUnixNano = 0\<rparr>,
     rec_Offset = 0, rec_Timestamp = zero_time, rec_Namespace = [], rec_Pod = [], rec_Container = [],
     rec_Node = [], rec_Image = [], rec_Stream = [], rec_Labels = [], rec_Annotations = [],
     rec_Message = [], rec_Body = []\<rparr>"

text \<open>Names of a node and of a file contain no NUL byte.\<close>

definition clean_source :: "source \<Rightarrow> bool" where
  "clean_source s \<longleftrightarrow> NUL \<notin> set (src_Node s) \<and> NUL \<notin> set (src_Path s)"

abbreviation rec_key :: "log_record \<Rightarrow> string" where
  "rec_key r \<equiv> Key (rec_Source r)"


section \<open>Segments\<close>

record block_meta =
  bm_FileOffset :: int
  bm_CompLen :: int
  bm_UncompLen :: int
  bm_MinTS :: time
  bm_MaxTS :: time
  bm_RecordCount :: int

record segment_meta =
  sm_ID :: string
  sm_S3Key :: string
  sm_MinTS :: time
  sm_MaxTS :: time
  sm_Namespaces :: "string list"
  sm_Pods :: "string list"
  sm_Nodes :: "string list"
  sm_Containers :: "string list"
  sm_LabelKeys :: "string list"
  sm_FieldKeys :: "string list"
  sm_Blocks :: "block_meta list"
  sm_SizeBytes :: int
  sm_RecordCount :: int
  sm_HasLate :: bool
  sm_SourceOffsets :: "string \<rightharpoonup> int"
  sm_LocalPath :: string

text \<open>The zero value \<open>model.SegmentMeta\{\}\<close>.\<close>

definition empty_meta :: segment_meta where
  "empty_meta = \<lparr>sm_ID = [], sm_S3Key = [], sm_MinTS = zero_time, sm_MaxTS = zero_time,
     sm_Namespaces = [], sm_Pods = [], sm_Nodes = [], sm_Containers = [], sm_LabelKeys = [],
     sm_FieldKeys = [], sm_Blocks = [], sm_SizeBytes = 0, sm_RecordCount = 0, sm_HasLate = False,
     sm_SourceOffsets = Map.empty, sm_LocalPath = []\<rparr>"

definition block_overlaps :: "block_meta \<Rightarrow> time \<Rightarrow> time \<Rightarrow> bool" where
  "block_overlaps b start stop =
     (if \<not> is_zero start \<and> bm_MaxTS b < start then False
      else if \<not> is_zero stop \<and> bm_MinTS b > stop then False
      else True)"

definition segment_overlaps :: "segment_meta \<Rightarrow> time \<Rightarrow> time \<Rightarrow> bool" where
  "segment_overlaps m start stop =
     (if \<not> is_zero start \<and> sm_MaxTS m < start then False
      else if \<not> is_zero stop \<and> sm_MinTS m > stop then False
      else True)"

text \<open>The time window of a query: a zero bound is open.\<close>

definition in_window :: "time \<Rightarrow> time \<Rightarrow> time \<Rightarrow> bool" where
  "in_window start stop t \<longleftrightarrow> (is_zero start \<or> start \<le> t) \<and> (is_zero stop \<or> t \<le> stop)"

lemma block_overlaps_window [time_simps]:
  "bm_MinTS b \<le> t \<Longrightarrow> t \<le> bm_MaxTS b \<Longrightarrow> in_window start stop t \<Longrightarrow> block_overlaps b start stop"
  by (auto simp: block_overlaps_def in_window_def)

lemma segment_overlaps_window [time_simps]:
  "sm_MinTS m \<le> t \<Longrightarrow> t \<le> sm_MaxTS m \<Longrightarrow> in_window start stop t \<Longrightarrow> segment_overlaps m start stop"
  by (auto simp: segment_overlaps_def in_window_def)


section \<open>The key of a source\<close>

text \<open>Two texts cut at the first separator agree part by part.\<close>

lemma sep_append_eq:
  assumes "c \<notin> set a" and "c \<notin> set a'" and "a @ c # b = a' @ c # b'"
  shows "a = a' \<and> b = b'"
proof -
  have "takeWhile (\<lambda>x. x \<noteq> c) (a @ c # b) = a" and "takeWhile (\<lambda>x. x \<noteq> c) (a' @ c # b') = a'"
    using assms(1,2) by (auto simp: takeWhile_append takeWhile_eq_all_conv)
  with assms(3) have "a = a'" by simp
  with assms(3) show ?thesis by simp
qed

lemma NUL_not_in_format_uint: "NUL \<notin> set (format_uint n)"
  using format_uint_digits [of NUL n] by (auto simp: is_digit_char_def NUL_def)

lemma Key_eq_iff:
  assumes "clean_source s" and "clean_source t"
  shows "Key s = Key t \<longleftrightarrow> s = t"
proof
  assume eq: "Key s = Key t"
  have 1: "src_Node s = src_Node t \<and>
      src_Path s @ NUL # format_uint (unat (src_Device s)) @ NUL #
        format_uint (unat (src_Inode s)) @ NUL # format_int (src_CreatedUnixNano s)
      = src_Path t @ NUL # format_uint (unat (src_Device t)) @ NUL #
        format_uint (unat (src_Inode t)) @ NUL # format_int (src_CreatedUnixNano t)"
    using assms eq by (intro sep_append_eq) (auto simp: clean_source_def Key_def)
  then have 2: "src_Path s = src_Path t \<and>
      format_uint (unat (src_Device s)) @ NUL # format_uint (unat (src_Inode s)) @ NUL #
        format_int (src_CreatedUnixNano s)
      = format_uint (unat (src_Device t)) @ NUL # format_uint (unat (src_Inode t)) @ NUL #
        format_int (src_CreatedUnixNano t)"
    using assms by (intro sep_append_eq) (auto simp: clean_source_def)
  then have 3: "format_uint (unat (src_Device s)) = format_uint (unat (src_Device t)) \<and>
      format_uint (unat (src_Inode s)) @ NUL # format_int (src_CreatedUnixNano s)
      = format_uint (unat (src_Inode t)) @ NUL # format_int (src_CreatedUnixNano t)"
    by (intro sep_append_eq) (auto simp: NUL_not_in_format_uint)
  then have 4: "format_uint (unat (src_Inode s)) = format_uint (unat (src_Inode t)) \<and>
      format_int (src_CreatedUnixNano s) = format_int (src_CreatedUnixNano t)"
    by (intro sep_append_eq) (auto simp: NUL_not_in_format_uint)
  from 1 2 3 4 show "s = t"
    by (cases s, cases t) (simp add: format_uint_inj format_int_inj word_unat_eq_iff)
qed simp

section \<open>Properties\<close>

text \<open>
  C20: the key of a source determines the source.  Two file generations whose names hold no NUL
  byte have the same \<open>Key\<close> only when they agree in node, path, device, inode and creation time,
  so no generation is deduplicated against the watermark of another.
\<close>

theorem Key_identifies_source:
  assumes "clean_source s" and "clean_source t" and "Key s = Key t"
  shows "s = t"
  using assms by (simp add: Key_eq_iff)

theorem Key_identifies_source_witness:
  "\<lparr>src_Node = ''n1'', src_Path = ''/a.log'', src_Device = 1, src_Inode = 12, src_CreatedUnixNano = 5\<rparr>
   = \<lparr>src_Node = ''n1'', src_Path = ''/a.log'', src_Device = 1, src_Inode = 12, src_CreatedUnixNano = 5\<rparr>"
  by (rule Key_identifies_source) (simp_all add: clean_source_def NUL_def)

end
