(* ===== verification/QueryLexer.thy ===== *)
theory QueryLexer
  imports LogModel
begin

text \<open>
  The lexer of the query language, \<open>internal/query/lexer.go\<close>, with the operators and
  errors it shares with the parser.  A lexer is the source text and a byte position; \<open>next_tok\<close>
  is the method \<open>next\<close>.  The loops of \<open>lexString\<close>, \<open>lexRegex\<close>, \<open>lexNumber\<close> and
  \<open>lexIdent\<close> are functions of the text that is left, returning the token's text and the
  number of bytes consumed.
\<close>


section \<open>Tokens\<close>

text \<open>\<open>Op\<close> of \<open>ast.go\<close>.\<close>

datatype Op = OpEq | OpNe | OpRe | OpNre | OpLt | OpLe | OpGt | OpGe | OpContains

datatype tokKind =
    tEOF | tIdent | tString | tNumber | tBool | tRegex | tAnd | tOr | tNot
  | tLParen | tRParen | tDot | tLBrack | tRBrack | tOp

record token =
  tk_kind :: tokKind
  tk_text :: string
  tk_op :: Op
  tk_pos :: nat

record lexer =
  lx_src :: string
  lx_pos :: nat

text \<open>
  The errors of the package, each with the position it reports.  \<open>ErrFuel\<close> is not an error of
  the code: the parser model returns it when its recursion bound is exhausted, which the
  termination theorem excludes.
\<close>

datatype query_error =
    UnexpectedBang nat
  | UnexpectedChar char nat
  | UnterminatedString nat
  | UnterminatedRegex nat
  | UnexpectedToken nat
  | ExpectedRParen nat
  | ExpectedField nat
  | ExpectedIdentAfterDot nat
  | ExpectedStringKey nat
  | ExpectedRBrack nat
  | ReRequiresRegex nat
  | BadRegex nat
  | BadNumber string nat
  | RegexOnlyWithRe nat
  | ExpectedValue nat
  | ErrFuel


section \<open>The scanning loops\<close>

definition BSLASH :: char where
  "BSLASH = CHR 0x5C"

definition SQUOTE :: char where
  "SQUOTE = CHR 0x27"

definition DQUOTE :: char where
  "DQUOTE = CHR 0x22"

definition unescape :: "char \<Rightarrow> char" where
  "unescape c = (if c = CHR ''n'' then CHR 0x0A else if c = CHR ''t'' then CHR 0x09 else c)"

fun lex_string :: "char \<Rightarrow> string \<Rightarrow> (string \<times> nat) option" where
  "lex_string q [] = None"
| "lex_string q (c # cs) =
     (if c = BSLASH \<and> cs \<noteq> [] then
        map_option (\<lambda>(t, n). (unescape (hd cs) # t, n + 2)) (lex_string q (tl cs))
      else if c = q then Some ([], 1)
      else map_option (\<lambda>(t, n). (c # t, n + 1)) (lex_string q cs))"

fun lex_regex :: "string \<Rightarrow> (string \<times> nat) option" where
  "lex_regex [] = None"
| "lex_regex (c # cs) =
     (if c = BSLASH \<and> cs \<noteq> [] then
        map_option (\<lambda>(t, n). (c # hd cs # t, n + 2)) (lex_regex (tl cs))
      else if c = CHR ''/'' then Some ([], 1)
      else map_option (\<lambda>(t, n). (c # t, n + 1)) (lex_regex cs))"

definition num_char :: "char \<Rightarrow> bool" where
  "num_char c \<longleftrightarrow> is_digit_char c \<or> c \<in> set ''.eE-+''"

text \<open>The bytes of a number: an optional sign, then the loop.\<close>

definition number_len :: "string \<Rightarrow> nat" where
  "number_len s =
     (let n = (case s of c # _ \<Rightarrow> if c = CHR ''-'' \<or> c = CHR ''+'' then 1 else 0 | [] \<Rightarrow> 0)
      in n + length (takeWhile num_char (drop n s)))"

definition isIdentStart :: "runtime \<Rightarrow> nat \<Rightarrow> bool" where
  "isIdentStart rt r \<longleftrightarrow> r = 95 \<or> is_letter rt r"

definition isIdentPart :: "runtime \<Rightarrow> nat \<Rightarrow> bool" where
  "isIdentPart rt r \<longleftrightarrow> r = 95 \<or> is_letter rt r \<or> is_digit rt r"

function ident_len :: "runtime \<Rightarrow> string \<Rightarrow> nat" where
  "ident_len rt s =
     (if s \<noteq> [] \<and> isIdentPart rt (fst (decode_rune s))
      then snd (decode_rune s) + ident_len rt (drop (snd (decode_rune s)) s)
      else 0)"
  by pat_completeness auto
termination
  by (relation "measure (\<lambda>(rt, s). length s)") (auto simp: decode_rune_size_pos)

declare ident_len.simps [simp del]

text \<open>
  \<open>strings.ToLower\<close> as the keyword test needs it: no rune outside ASCII is lowered to a
  letter of a keyword.
\<close>

definition lower_char :: "char \<Rightarrow> char" where
  "lower_char c =
     (let n = (of_char c :: nat) in if 65 \<le> n \<and> n \<le> 90 then char_of (n + 32) else c)"

definition to_lower :: "string \<Rightarrow> string" where
  "to_lower s = map lower_char s"

definition ident_token :: "string \<Rightarrow> nat \<Rightarrow> token" where
  "ident_token text start =
     (let low = to_lower text in
      if low = ''and'' then \<lparr>tk_kind = tAnd, tk_text = [], tk_op = OpEq, tk_pos = start\<rparr>
      else if low = ''or'' then \<lparr>tk_kind = tOr, tk_text = [], tk_op = OpEq, tk_pos = start\<rparr>
      else if low = ''not'' then \<lparr>tk_kind = tNot, tk_text = [], tk_op = OpEq, tk_pos = start\<rparr>
      else if low = ''true'' then \<lparr>tk_kind = tBool, tk_text = ''true'', tk_op = OpEq, tk_pos = start\<rparr>
      else if low = ''false'' then \<lparr>tk_kind = tBool, tk_text = ''false'', tk_op = OpEq, tk_pos = start\<rparr>
      else \<lparr>tk_kind = tIdent, tk_text = text, tk_op = OpEq, tk_pos = start\<rparr>)"


section \<open>The method next\<close>

text \<open>\<open>peekAt(1)\<close>, a NUL byte past the end.\<close>

definition peekAt1 :: "string \<Rightarrow> char" where
  "peekAt1 cs = (case cs of [] \<Rightarrow> NUL | d # _ \<Rightarrow> d)"

abbreviation plain_tok :: "tokKind \<Rightarrow> nat \<Rightarrow> token" where
  "plain_tok k start \<equiv> \<lparr>tk_kind = k, tk_text = [], tk_op = OpEq, tk_pos = start\<rparr>"

abbreviation op_tok :: "Op \<Rightarrow> nat \<Rightarrow> token" where
  "op_tok p start \<equiv> \<lparr>tk_kind = tOp, tk_text = [], tk_op = p, tk_pos = start\<rparr>"

text \<open>
  The switch of \<open>next\<close> on the first byte \<open>c\<close>, with \<open>cs\<close> the bytes after it: the token and
  the number of bytes it takes.  \<open>fin\<close> is the end of the source, where the position of an
  unterminated literal is reported.
\<close>

definition scan :: "runtime \<Rightarrow> nat \<Rightarrow> nat \<Rightarrow> char \<Rightarrow> string \<Rightarrow> query_error + token \<times> nat" where
  "scan rt start fin c cs =
     (if c = CHR ''('' then Inr (plain_tok tLParen start, 1)
      else if c = CHR '')'' then Inr (plain_tok tRParen start, 1)
      else if c = CHR ''.'' then Inr (plain_tok tDot start, 1)
      else if c = CHR ''['' then Inr (plain_tok tLBrack start, 1)
      else if c = CHR '']'' then Inr (plain_tok tRBrack start, 1)
      else if c = DQUOTE \<or> c = SQUOTE then
        (case lex_string c cs of
           None \<Rightarrow> Inl (UnterminatedString fin)
         | Some (t, n) \<Rightarrow>
             Inr (\<lparr>tk_kind = tString, tk_text = t, tk_op = OpEq, tk_pos = start\<rparr>, n + 1))
      else if c = CHR ''/'' then
        (case lex_regex cs of
           None \<Rightarrow> Inl (UnterminatedRegex fin)
         | Some (t, n) \<Rightarrow>
             Inr (\<lparr>tk_kind = tRegex, tk_text = t, tk_op = OpEq, tk_pos = start\<rparr>, n + 1))
      else if c = CHR ''='' then
        (if peekAt1 cs = CHR ''~'' then Inr (op_tok OpRe start, 2) else Inr (op_tok OpEq start, 1))
      else if c = CHR ''!'' then
        (if peekAt1 cs = CHR ''='' then Inr (op_tok OpNe start, 2)
         else if peekAt1 cs = CHR ''~'' then Inr (op_tok OpNre start, 2)
         else Inl (UnexpectedBang start))
      else if c = CHR ''<'' then
        (if peekAt1 cs = CHR ''='' then Inr (op_tok OpLe start, 2) else Inr (op_tok OpLt start, 1))
      else if c = CHR ''>'' then
        (if peekAt1 cs = CHR ''='' then Inr (op_tok OpGe start, 2) else Inr (op_tok OpGt start, 1))
      else if c = CHR '':'' then Inr (op_tok OpContains start, 1)
      else if c = CHR ''-'' \<or> c = CHR ''+'' \<or> is_digit_char c then
        (let n = number_len (c # cs)
         in Inr (\<lparr>tk_kind = tNumber, tk_text = take n (c # cs), tk_op = OpEq, tk_pos = start\<rparr>, n))
      else if isIdentStart rt (of_char c) then
        (let n = ident_len rt (c # cs) in Inr (ident_token (take n (c # cs)) start, n))
      else Inl (UnexpectedChar c start))"

text \<open>\<open>skipSpace\<close> leaves the lexer at the first byte that is not white space.\<close>

definition skipSpace :: "lexer \<Rightarrow> lexer" where
  "skipSpace l =
     l\<lparr>lx_pos := length (lx_src l) - length (trim_left (drop (lx_pos l) (lx_src l)))\<rparr>"

definition next_tok :: "runtime \<Rightarrow> lexer \<Rightarrow> query_error + token \<times> lexer" where
  "next_tok rt l =
     (let l1 = skipSpace l; start = lx_pos l1 in
      case drop start (lx_src l1) of
        [] \<Rightarrow> Inr (plain_tok tEOF start, l1)
      | c # cs \<Rightarrow>
          rbind (scan rt start (length (lx_src l1)) c cs)
            (\<lambda>(t, n). Inr (t, l1\<lparr>lx_pos := start + n\<rparr>)))"


section \<open>Progress\<close>

definition lexer_ok :: "lexer \<Rightarrow> bool" where
  "lexer_ok l \<longleftrightarrow> lx_pos l \<le> length (lx_src l)"

definition lx_rest :: "lexer \<Rightarrow> string" where
  "lx_rest l = drop (lx_pos l) (lx_src l)"

lemma lex_string_len: "lex_string q cs = Some (t, n) \<Longrightarrow> 0 < n \<and> n \<le> length cs"
proof (induction q cs arbitrary: t n rule: lex_string.induct)
  case (2 q c cs)
  show ?case
  proof (cases "c = BSLASH \<and> cs \<noteq> []")
    case True
    with "2.prems" obtain t' n' where "lex_string q (tl cs) = Some (t', n')" and "n = n' + 2"
      by auto
    with "2.IH"(1) True show ?thesis by (cases cs) auto
  next
    case False
    with "2.prems" "2.IH"(2) show ?thesis by (fastforce split: if_splits)
  qed
qed simp

lemma lex_regex_len: "lex_regex cs = Some (t, n) \<Longrightarrow> 0 < n \<and> n \<le> length cs"
proof (induction cs arbitrary: t n rule: lex_regex.induct)
  case (2 c cs)
  show ?case
  proof (cases "c = BSLASH \<and> cs \<noteq> []")
    case True
    with "2.prems" obtain t' n' where "lex_regex (tl cs) = Some (t', n')" and "n = n' + 2"
      by auto
    with "2.IH"(1) True show ?thesis by (cases cs) auto
  next
    case False
    with "2.prems" "2.IH"(2) show ?thesis by (fastforce split: if_splits)
  qed
qed simp

lemma number_len_le: "number_len s \<le> length s"
proof -
  have "length (takeWhile num_char (drop k s)) \<le> length s - k" for k
    by (metis length_drop length_takeWhile_le)
  from this [of 0] this [of 1] show ?thesis
    by (cases s) (auto simp: number_len_def)
qed

lemma number_len_pos:
  "c = CHR ''-'' \<or> c = CHR ''+'' \<or> is_digit_char c \<Longrightarrow> 0 < number_len (c # cs)"
  by (auto simp: number_len_def num_char_def)

lemma ident_len_le: "ident_len rt s \<le> length s"
proof (induction rt s rule: ident_len.induct)
  case (1 rt s)
  show ?case
  proof (cases "s \<noteq> [] \<and> isIdentPart rt (fst (decode_rune s))")
    case True
    with "1.IH" have "ident_len rt (drop (snd (decode_rune s)) s) \<le> length s - snd (decode_rune s)"
      by simp
    with True show ?thesis
      using decode_rune_size_le [of s] by (simp add: ident_len.simps [of rt s])
  next
    case False
    then have "ident_len rt s = 0" by (subst ident_len.simps) (simp only: if_False)
    then show ?thesis by simp
  qed
qed

lemma ident_token_kind: "tk_kind (ident_token s start) \<in> {tIdent, tAnd, tOr, tNot, tBool}"
  by (simp add: ident_token_def Let_def)

lemma ident_token_nonempty: "tk_kind (ident_token s start) \<noteq> tIdent \<Longrightarrow> s \<noteq> []"
  by (auto simp: ident_token_def to_lower_def Let_def)

text \<open>What a successful scan has read: one of six shapes of token.\<close>

inductive scanned :: "runtime \<Rightarrow> nat \<Rightarrow> char \<Rightarrow> string \<Rightarrow> token \<Rightarrow> nat \<Rightarrow> bool"
  for rt start c cs where
  one: "tk_kind t \<in> {tLParen, tRParen, tDot, tLBrack, tRBrack, tOp} \<Longrightarrow> scanned rt start c cs t 1"
| two: "tk_kind t = tOp \<Longrightarrow> cs \<noteq> [] \<Longrightarrow> scanned rt start c cs t 2"
| str: "lex_string c cs = Some (x, n) \<Longrightarrow> tk_kind t = tString \<Longrightarrow> scanned rt start c cs t (n + 1)"
| re: "lex_regex cs = Some (x, n) \<Longrightarrow> tk_kind t = tRegex \<Longrightarrow> scanned rt start c cs t (n + 1)"
| num: "n = number_len (c # cs) \<Longrightarrow> 0 < n \<Longrightarrow> tk_kind t = tNumber \<Longrightarrow> scanned rt start c cs t n"
| idt: "n = ident_len rt (c # cs) \<Longrightarrow> t = ident_token (take n (c # cs)) start \<Longrightarrow>
    scanned rt start c cs t n"

lemma scanned_two:
  "peekAt1 cs = d \<Longrightarrow> d \<noteq> NUL \<Longrightarrow> scanned rt start c cs (op_tok p start) 2"
  by (rule scanned.two) (auto simp: peekAt1_def)

lemma scanned_num:
  "c = CHR ''-'' \<or> c = CHR ''+'' \<or> is_digit_char c \<Longrightarrow> tk_kind t = tNumber \<Longrightarrow>
    scanned rt start c cs t (number_len (c # cs))"
  by (rule scanned.num) (auto intro: number_len_pos)

lemmas scanned_rules =
  scanned.one scanned_two [of _ "CHR ''~''"] scanned_two [of _ "CHR ''=''"] scanned_num
  scanned.str scanned.re scanned.idt [OF refl refl]

lemma scan_scanned_pair: "scan rt start fin c cs = Inr z \<Longrightarrow> scanned rt start c cs (fst z) (snd z)"
  unfolding scan_def Let_def
  by (simp only: split: if_split_asm option.split_asm prod.split_asm; (simp only: sum.simps)?;
     hypsubst?; (simp only: fst_conv snd_conv)?; (rule scanned_rules; (simp add: NUL_def; fail)))

lemma scan_scanned: "scan rt start fin c cs = Inr (t, n) \<Longrightarrow> scanned rt start c cs t n"
  by (drule scan_scanned_pair) simp

lemma scanned_len:
  assumes "scanned rt start c cs t n"
  shows "n \<le> length (c # cs)"
  using assms
proof cases
  case num
  then show ?thesis using number_len_le [of "c # cs"] by simp
next
  case idt
  then show ?thesis using ident_len_le [of rt "c # cs"] by simp
qed (auto simp: Suc_le_eq dest: lex_string_len lex_regex_len)

lemma scanned_not_EOF: "scanned rt start c cs t n \<Longrightarrow> tk_kind t \<noteq> tEOF"
  using ident_token_kind [of "take n (c # cs)" start] by (auto elim!: scanned.cases)

lemma scanned_progress: "scanned rt start c cs t n \<Longrightarrow> tk_kind t \<noteq> tIdent \<Longrightarrow> 0 < n"
  using ident_token_nonempty [of "take n (c # cs)" start] by (auto elim!: scanned.cases)

text \<open>
  The method \<open>next\<close>: it keeps the source and the bound on the position, never moves back,
  returns an end-of-input token only at the end, and moves forward on every token but an
  identifier (an identifier can be empty: see \<open>empty_identifier\<close> below).
\<close>

lemma lexer_ok_skipSpace: "lexer_ok l \<Longrightarrow> lexer_ok (skipSpace l)"
  by (simp add: lexer_ok_def skipSpace_def)

lemma skipSpace_src [simp]: "lx_src (skipSpace l) = lx_src l"
  by (simp add: skipSpace_def)

lemma skipSpace_rest: "lx_rest (skipSpace l) = trim_left (lx_rest l)"
proof -
  obtain p where p: "drop (lx_pos l) (lx_src l) = p @ trim_left (drop (lx_pos l) (lx_src l))"
    using suffix_trim_left by (metis suffix_def)
  then have "lx_src l = (take (lx_pos l) (lx_src l) @ p) @ trim_left (drop (lx_pos l) (lx_src l))"
    by (metis append.assoc append_take_drop_id)
  then have "drop (length (lx_src l) - length (trim_left (drop (lx_pos l) (lx_src l)))) (lx_src l)
      = trim_left (drop (lx_pos l) (lx_src l))"
    by (metis append_eq_conv_conj length_append add_diff_cancel_right')
  then show ?thesis by (simp add: lx_rest_def skipSpace_def)
qed

lemma next_tok_rest:
  "next_tok rt l = (case trim_left (lx_rest l) of
      [] \<Rightarrow> Inr (plain_tok tEOF (lx_pos (skipSpace l)), skipSpace l)
    | c # cs \<Rightarrow> rbind (scan rt (lx_pos (skipSpace l)) (length (lx_src l)) c cs)
        (\<lambda>(t, n). Inr (t, (skipSpace l)\<lparr>lx_pos := lx_pos (skipSpace l) + n\<rparr>)))"
  using skipSpace_rest [of l]
  by (simp add: next_tok_def Let_def lx_rest_def cong: list.case_cong)

lemma next_tok_cases:
  assumes "next_tok rt l = Inr (t, l')"
  obtains (eof) "trim_left (lx_rest l) = []" "tk_kind t = tEOF" "lx_rest l' = []"
    "lx_src l' = lx_src l"
  | (tok) c cs n where "trim_left (lx_rest l) = c # cs"
    "scanned rt (lx_pos (skipSpace l)) c cs t n" "lx_rest l' = drop n (c # cs)"
    "lx_src l' = lx_src l"
proof (cases "trim_left (lx_rest l)")
  case Nil
  with assms skipSpace_rest [of l] show ?thesis by (auto simp: next_tok_rest intro!: eof)
next
  case (Cons c cs)
  with assms obtain n where sc: "scan rt (lx_pos (skipSpace l)) (length (lx_src l)) c cs = Inr (t, n)"
    and l': "l' = (skipSpace l)\<lparr>lx_pos := lx_pos (skipSpace l) + n\<rparr>"
    by (auto simp: next_tok_rest)
  have "lx_rest l' = drop n (c # cs)"
    using Cons skipSpace_rest [of l] l' by (simp add: lx_rest_def add.commute flip: drop_drop)
  with sc l' Cons show ?thesis by (intro tok) (auto intro: scan_scanned)
qed

lemma next_tok_len:
  assumes "next_tok rt l = Inr (t, l')"
  shows "length (lx_rest l') \<le> length (lx_rest l)"
    and "tk_kind t \<notin> {tEOF, tIdent} \<Longrightarrow> length (lx_rest l') < length (lx_rest l)"
proof -
  note le = length_trim_left [of "lx_rest l"]
  from assms have "length (lx_rest l') \<le> length (lx_rest l) \<and>
      (tk_kind t \<notin> {tEOF, tIdent} \<longrightarrow> length (lx_rest l') < length (lx_rest l))"
  proof (cases rule: next_tok_cases)
    case (tok c cs n)
    with le scanned_progress [OF tok(2)] show ?thesis by auto
  qed simp
  then show "length (lx_rest l') \<le> length (lx_rest l)"
    and "tk_kind t \<notin> {tEOF, tIdent} \<Longrightarrow> length (lx_rest l') < length (lx_rest l)"
    by auto
qed

section \<open>Properties\<close>

text \<open>
  The method \<open>next\<close> tests a single byte for being the start of an identifier but reads runes, so the
  byte \<open>0xAA\<close>, a letter as a rune of Latin-1 and an encoding error as UTF-8, gives an identifier
  token of no characters, and the lexer does not move.
\<close>

theorem empty_identifier:
  assumes "\<not> uni_letter rt rune_error" and "\<not> uni_digit rt rune_error"
  shows "next_tok rt \<lparr>lx_src = CHR 0xAA # cs, lx_pos = 0\<rparr>
    = Inr (ident_token [] 0, \<lparr>lx_src = CHR 0xAA # cs, lx_pos = 0\<rparr>)"
proof -
  have d: "decode_rune (CHR 0xAA # cs) = (rune_error, 1)" by (cases cs) (simp_all add: decode_rune.simps)
  have "ident_len rt (CHR 0xAA # cs) = 0"
    using assms d by (subst ident_len.simps) (simp add: isIdentPart_def is_letter_def is_digit_def rune_error_def)
  moreover have "trim_left (CHR 0xAA # cs) = CHR 0xAA # cs"
    by (subst trim_left.simps) (simp add: d)
  ultimately show ?thesis
    by (simp add: next_tok_def skipSpace_def scan_def isIdentStart_def is_letter_def is_digit_def
        num_char_def is_digit_char_def DQUOTE_def SQUOTE_def)
qed

theorem empty_identifier_witness:
  "next_tok bare_runtime \<lparr>lx_src = [CHR 0xAA], lx_pos = 0\<rparr>
    = Inr (ident_token [] 0, \<lparr>lx_src = [CHR 0xAA], lx_pos = 0\<rparr>)"
  by (rule empty_identifier) (simp_all add: bare_runtime_def)

end
