(* ===== verification/QueryEval.thy ===== *)
theory QueryEval
  imports QueryLexer
begin

text \<open>
  Values, field references and the evaluation of query expressions: \<open>internal/query/value.go\<close>
  and \<open>internal/query/ast.go\<close>.  \<open>Match\<close> is the method of that name of the node types; its result
  is \<^term>\<open>None\<close> where the code would dereference a nil regular expression, which no parsed
  expression does (\<open>wf_node\<close>).
\<close>


section \<open>Values\<close>

datatype valueKind = kindNull | kindString | kindNumber | kindBool

record go_value =
  v_Kind :: valueKind
  v_S :: string
  v_N :: f64
  v_B :: bool

definition null_value :: "go_value" where
  "null_value = \<lparr>v_Kind = kindNull, v_S = [], v_N = 0, v_B = False\<rparr>"

definition string_value :: "string \<Rightarrow> go_value" where
  "string_value s = \<lparr>v_Kind = kindString, v_S = s, v_N = 0, v_B = False\<rparr>"

definition number_value :: "f64 \<Rightarrow> go_value" where
  "number_value n = \<lparr>v_Kind = kindNumber, v_S = [], v_N = n, v_B = False\<rparr>"

definition bool_value :: "bool \<Rightarrow> go_value" where
  "bool_value b = \<lparr>v_Kind = kindBool, v_S = [], v_N = 0, v_B = b\<rparr>"

lemmas value_defs = null_value_def string_value_def number_value_def bool_value_def

definition format_bool :: "bool \<Rightarrow> string" where
  "format_bool b = (if b then ''true'' else ''false'')"

definition str :: "runtime \<Rightarrow> go_value \<Rightarrow> string" where
  "str rt v =
     (case v_Kind v of
        kindString \<Rightarrow> v_S v
      | kindNumber \<Rightarrow> format_float rt (v_N v)
      | kindBool \<Rightarrow> format_bool (v_B v)
      | kindNull \<Rightarrow> [])"

definition numeric :: "runtime \<Rightarrow> go_value \<Rightarrow> f64 option" where
  "numeric rt v =
     (case v_Kind v of
        kindNumber \<Rightarrow> Some (v_N v)
      | kindString \<Rightarrow> parse_float rt (trim_space (v_S v))
      | _ \<Rightarrow> None)"


section \<open>Field references\<close>

datatype fieldKind = fEnvelope | fLabel | fAnnotation | fBody

record fieldRef =
  f_Kind :: fieldKind
  f_Name :: string
  f_Path :: "string list"

text \<open>A field value is present (\<open>Some v\<close>) or missing (\<^term>\<open>None\<close>, Go's \<open>ok == false\<close>).\<close>

definition nonempty :: "string \<Rightarrow> go_value option" where
  "nonempty s = (if s \<noteq> [] then Some (string_value s) else None)"

definition resolveEnvelope :: "runtime \<Rightarrow> log_record \<Rightarrow> string \<Rightarrow> go_value option" where
  "resolveEnvelope rt r name =
     (if name = ''_namespace'' then nonempty (rec_Namespace r)
      else if name = ''_pod'' then nonempty (rec_Pod r)
      else if name = ''_container'' then nonempty (rec_Container r)
      else if name = ''_node'' then nonempty (rec_Node r)
      else if name = ''_image'' then nonempty (rec_Image r)
      else if name = ''_stream'' then nonempty (rec_Stream r)
      else if name = ''_message'' then Some (string_value (rec_Message r))
      else if name = ''_ts'' then
        (if is_zero (rec_Timestamp r) then None
         else Some (number_value (float_of_int64 rt (unix_nano (rec_Timestamp r)))))
      else None)"

definition decodeJSON :: "runtime \<Rightarrow> string \<Rightarrow> go_value option" where
  "decodeJSON rt raw =
     (let trimmed = trim_space raw in
      if trimmed = [] \<or> trimmed = ''null'' then Some null_value
      else if hd trimmed = DQUOTE then map_option string_value (json_string rt raw)
      else if hd trimmed = CHR ''t'' \<or> hd trimmed = CHR ''f'' then
        (case json_bool rt raw of
           Some b \<Rightarrow> Some (bool_value b)
         | None \<Rightarrow> Some (string_value trimmed))
      else if hd trimmed = CHR ''{'' \<or> hd trimmed = CHR ''['' then Some (string_value trimmed)
      else
        (case json_number rt raw of
           Some n \<Rightarrow> Some (number_value n)
         | None \<Rightarrow> Some (string_value trimmed)))"

text \<open>The loop over the keys below the first: decode an object, look the key up.\<close>

fun walk_path :: "runtime \<Rightarrow> string \<Rightarrow> string list \<Rightarrow> string option" where
  "walk_path rt raw [] = Some raw"
| "walk_path rt raw (key # keys) =
     (case json_object rt raw of
        None \<Rightarrow> None
      | Some obj \<Rightarrow>
          (case map_of obj key of
             None \<Rightarrow> None
           | Some raw' \<Rightarrow> walk_path rt raw' keys))"

definition resolveBody :: "runtime \<Rightarrow> log_record \<Rightarrow> string list \<Rightarrow> go_value option" where
  "resolveBody rt r path =
     (case path of
        [] \<Rightarrow> None
      | p # ps \<Rightarrow>
          (case map_of (rec_Body r) p of
             None \<Rightarrow> None
           | Some raw \<Rightarrow>
               (case walk_path rt raw ps of
                  None \<Rightarrow> None
                | Some raw' \<Rightarrow> decodeJSON rt raw')))"

definition resolve :: "runtime \<Rightarrow> fieldRef \<Rightarrow> log_record \<Rightarrow> go_value option" where
  "resolve rt f r =
     (case f_Kind f of
        fEnvelope \<Rightarrow> resolveEnvelope rt r (f_Name f)
      | fLabel \<Rightarrow> map_option string_value (map_of (rec_Labels r) (f_Name f))
      | fAnnotation \<Rightarrow> map_option string_value (map_of (rec_Annotations r) (f_Name f))
      | fBody \<Rightarrow> resolveBody rt r (f_Path f))"


section \<open>Comparison\<close>

definition cmpEq :: "runtime \<Rightarrow> go_value \<Rightarrow> go_value \<Rightarrow> bool" where
  "cmpEq rt v lit =
     (case v_Kind lit of
        kindNumber \<Rightarrow> (case numeric rt v of Some fv \<Rightarrow> f64_eq fv (v_N lit) | None \<Rightarrow> False)
      | kindBool \<Rightarrow>
          (case v_Kind v of
             kindBool \<Rightarrow> v_B v = v_B lit
           | kindString \<Rightarrow> v_S v = format_bool (v_B lit)
           | _ \<Rightarrow> False)
      | _ \<Rightarrow> str rt v = v_S lit)"

definition orderFloat :: "f64 \<Rightarrow> f64 \<Rightarrow> Op \<Rightarrow> bool" where
  "orderFloat a b p =
     (case p of
        OpLt \<Rightarrow> f64_lt a b | OpLe \<Rightarrow> f64_le a b | OpGt \<Rightarrow> f64_lt b a | OpGe \<Rightarrow> f64_le b a
      | _ \<Rightarrow> False)"

definition orderString :: "string \<Rightarrow> string \<Rightarrow> Op \<Rightarrow> bool" where
  "orderString a b p =
     (case p of
        OpLt \<Rightarrow> string_less a b | OpLe \<Rightarrow> string_leq a b
      | OpGt \<Rightarrow> string_less b a | OpGe \<Rightarrow> string_leq b a
      | _ \<Rightarrow> False)"

definition cmpOrder :: "runtime \<Rightarrow> go_value \<Rightarrow> go_value \<Rightarrow> Op \<Rightarrow> bool" where
  "cmpOrder rt v lit p =
     (if v_Kind lit = kindNumber then
        (case numeric rt v of Some fv \<Rightarrow> orderFloat fv (v_N lit) p | None \<Rightarrow> False)
      else orderString (str rt v) (v_S lit) p)"


section \<open>Expressions\<close>

datatype node =
    AndNode node node
  | OrNode node node
  | NotNode node
  | ExistsNode fieldRef
  | CmpNode fieldRef Op go_value "regexp option"
  | matchAll

definition exists_match :: "runtime \<Rightarrow> fieldRef \<Rightarrow> log_record \<Rightarrow> bool" where
  "exists_match rt f r =
     (case resolve rt f r of
        None \<Rightarrow> False
      | Some v \<Rightarrow>
          (case v_Kind v of
             kindString \<Rightarrow> v_S v \<noteq> []
           | kindNull \<Rightarrow> False
           | _ \<Rightarrow> True))"

text \<open>A missing field: true for \<open>!=\<close> and \<open>!~\<close>, false for every other operator.\<close>

definition cmp_match ::
  "runtime \<Rightarrow> fieldRef \<Rightarrow> Op \<Rightarrow> go_value \<Rightarrow> regexp option \<Rightarrow> log_record \<Rightarrow> bool option" where
  "cmp_match rt f p lit re r =
     (case resolve rt f r of
        None \<Rightarrow> Some (p = OpNe \<or> p = OpNre)
      | Some v \<Rightarrow>
          (case p of
             OpEq \<Rightarrow> Some (cmpEq rt v lit)
           | OpNe \<Rightarrow> Some (\<not> cmpEq rt v lit)
           | OpRe \<Rightarrow> map_option (\<lambda>e. regexp_match rt e (str rt v)) re
           | OpNre \<Rightarrow> map_option (\<lambda>e. \<not> regexp_match rt e (str rt v)) re
           | OpContains \<Rightarrow> Some (contains_str (str rt v) (v_S lit))
           | _ \<Rightarrow> Some (cmpOrder rt v lit p)))"

fun Match :: "runtime \<Rightarrow> node \<Rightarrow> log_record \<Rightarrow> bool option" where
  "Match rt (AndNode a b) r =
     (case Match rt a r of None \<Rightarrow> None | Some False \<Rightarrow> Some False | Some True \<Rightarrow> Match rt b r)"
| "Match rt (OrNode a b) r =
     (case Match rt a r of None \<Rightarrow> None | Some True \<Rightarrow> Some True | Some False \<Rightarrow> Match rt b r)"
| "Match rt (NotNode x) r = map_option Not (Match rt x r)"
| "Match rt (ExistsNode f) r = Some (exists_match rt f r)"
| "Match rt (CmpNode f p lit re) r = cmp_match rt f p lit re r"
| "Match rt matchAll r = Some True"

text \<open>The records an expression selects.\<close>

definition selects :: "runtime \<Rightarrow> node \<Rightarrow> log_record \<Rightarrow> bool" where
  "selects rt n r \<longleftrightarrow> Match rt n r = Some True"

text \<open>Well-formed expressions: a comparison by regular expression carries one.\<close>

fun wf_node :: "node \<Rightarrow> bool" where
  "wf_node (AndNode a b) \<longleftrightarrow> wf_node a \<and> wf_node b"
| "wf_node (OrNode a b) \<longleftrightarrow> wf_node a \<and> wf_node b"
| "wf_node (NotNode x) \<longleftrightarrow> wf_node x"
| "wf_node (ExistsNode f) \<longleftrightarrow> True"
| "wf_node (CmpNode f p lit re) \<longleftrightarrow> (p = OpRe \<or> p = OpNre \<longrightarrow> re \<noteq> None)"
| "wf_node matchAll \<longleftrightarrow> True"

lemma cmp_match_total:
  "(p = OpRe \<or> p = OpNre \<longrightarrow> re \<noteq> None) \<Longrightarrow> \<exists>b. cmp_match rt f p lit re r = Some b"
  by (cases p) (auto simp: cmp_match_def split: option.splits)

text \<open>Evaluation of a well-formed expression never fails: the nil dereference is unreachable.\<close>

lemma Match_defined: "wf_node n \<Longrightarrow> \<exists>b. Match rt n r = Some b"
proof (induction n)
  case (AndNode a b)
  then obtain x where "Match rt a r = Some x" by auto
  with AndNode show ?case by (cases x) auto
next
  case (OrNode a b)
  then obtain x where "Match rt a r = Some x" by auto
  with OrNode show ?case by (cases x) auto
next
  case (CmpNode f p lit re)
  then show ?case by (simp add: cmp_match_total)
qed auto

lemma Match_total: "wf_node n \<Longrightarrow> Match rt n r = Some (selects rt n r)"
  using Match_defined [of n rt r] by (auto simp: selects_def)

lemma selects_And [simp]: "selects rt (AndNode a b) r \<longleftrightarrow> selects rt a r \<and> selects rt b r"
  by (auto simp: selects_def split: option.splits bool.splits)

lemma selects_Or: "wf_node a \<Longrightarrow> selects rt (OrNode a b) r \<longleftrightarrow> selects rt a r \<or> selects rt b r"
  using Match_defined [of a rt r] by (auto simp: selects_def split: bool.splits)

lemma selects_Not: "wf_node x \<Longrightarrow> selects rt (NotNode x) r \<longleftrightarrow> \<not> selects rt x r"
  using Match_defined [of x rt r] by (auto simp: selects_def)

lemma selects_matchAll [simp]: "selects rt matchAll r"
  by (simp add: selects_def)


section \<open>Properties\<close>

text \<open>
  \<open>!=\<close> is the complement of \<open>=\<close> and \<open>!~\<close> that of \<open>=~\<close>, on every record: also where the field
  is missing, where the positive comparison is false and the negative one true.
\<close>

theorem negated_operators_complement:
  "Match rt (CmpNode f OpNe lit None) r = map_option Not (Match rt (CmpNode f OpEq lit None) r) \<and>
   Match rt (CmpNode f OpNre lit (Some e)) r = map_option Not (Match rt (CmpNode f OpRe lit (Some e)) r)"
  by (simp add: cmp_match_def split: option.split)

text \<open>
  An ordering against a boolean literal compares with the literal's empty string, not with
  its value: \<open>x >= true\<close> holds exactly where \<open>x\<close> is present, and \<open>x < true\<close> nowhere.
\<close>

theorem order_against_bool_literal:
  "Match rt (CmpNode f OpGe (bool_value b) None) r = Some (resolve rt f r \<noteq> None) \<and>
   Match rt (CmpNode f OpLt (bool_value b) None) r = Some False"
proof -
  have "\<not> string_less s []" and "string_less [] s \<or> [] = s" for s by (cases s; simp)+
  then show ?thesis
    by (auto simp: cmp_match_def cmpOrder_def bool_value_def orderString_def string_leq_def
        split: option.split)
qed

end
