(* ===== verification/SegmentFile.thy ===== *)
theory SegmentFile
  imports QueryEval
begin

text \<open>
  The segment file: \<open>internal/segment/format.go\<close>, \<open>writer.go\<close> and \<open>reader.go\<close>.  A segment is a
  header, compressed blocks of newline-separated JSON records, a block index, a compressed source
  summary and a footer; the reader starts from the footer.  The model is byte-exact, with the
  zstd compressor and the JSON codecs of records and summaries as parameters (\<open>codec\<close>).
\<close>


section \<open>Format\<close>

definition magicHead :: string where
  "magicHead = ''SLOGSEG1''"

definition magicFoot :: string where
  "magicFoot = ''SLOGEND1''"

definition formatVersion :: nat where
  "formatVersion = 1"

definition headerSize :: nat where
  "headerSize = 32"

definition footerSize :: nat where
  "footerSize = 64"

definition blockIndexEntrySize :: nat where
  "blockIndexEntrySize = 44"

definition flagZstd :: nat where
  "flagZstd = 1"

definition defaultBlockTargetBytes :: int where
  "defaultBlockTargetBytes = 2097152"

lemmas format_sizes = headerSize_def footerSize_def blockIndexEntrySize_def

text \<open>CRC-32 with the Castagnoli polynomial (package \<open>hash/crc32\<close>), bit by bit.\<close>

definition crc_shift :: "32 word \<Rightarrow> 32 word" where
  "crc_shift x = (if bit x 0 then xor (drop_bit 1 x) 0x82F63B78 else drop_bit 1 x)"

definition crc_byte :: "32 word \<Rightarrow> char \<Rightarrow> 32 word" where
  "crc_byte x c = (crc_shift ^^ 8) (xor x (of_char c))"

definition crc32c :: "string \<Rightarrow> 32 word" where
  "crc32c bs = not (foldl crc_byte (not 0) bs)"

text \<open>The JSON shape of the source summary.\<close>

record summary =
  su_Namespaces :: "string list"
  su_Pods :: "string list"
  su_Nodes :: "string list"
  su_Containers :: "string list"
  su_LabelKeys :: "string list"
  su_FieldKeys :: "string list"

text \<open>
  \<open>json.Marshal\<close> and \<open>json.Unmarshal\<close> of records and of summaries, \<open>EncodeAll\<close> and \<open>DecodeAll\<close>
  of zstd.
\<close>

record codec =
  enc_record :: "log_record \<Rightarrow> go_error + string"
  dec_record :: "string \<Rightarrow> go_error + log_record"
  enc_summary :: "summary \<Rightarrow> go_error + string"
  dec_summary :: "string \<Rightarrow> go_error + summary"
  zstd_enc :: "string \<Rightarrow> string"
  zstd_dec :: "string \<Rightarrow> go_error + string"


section \<open>The writer\<close>

text \<open>
  An \<open>io.Writer\<close>: from the bytes already written and a new slice, the number of bytes it takes
  and its error.
\<close>

type_synonym io_writer = "string \<Rightarrow> string \<Rightarrow> nat \<times> go_error option"

record Writer =
  sw_out :: string
  sw_blockTarget :: int
  sw_pos :: int
  sw_curLines :: string
  sw_curCount :: int
  sw_curMin :: time
  sw_curMax :: time
  sw_blocks :: "block_meta list"
  sw_namespaces :: "string list"
  sw_pods :: "string list"
  sw_nodes :: "string list"
  sw_containers :: "string list"
  sw_labelKeys :: "string list"
  sw_fieldKeys :: "string list"
  sw_segMin :: time
  sw_segMax :: time
  sw_total :: int
  sw_hasLate :: bool
  sw_lastTS :: time
  sw_finished :: bool
  sw_srcOffset :: "string \<rightharpoonup> int"

definition emit :: "io_writer \<Rightarrow> string \<Rightarrow> Writer \<Rightarrow> go_error option \<times> Writer" where
  "emit wr b sw =
     (case wr (sw_out sw) b of
        (n, err) \<Rightarrow> (err, sw\<lparr>sw_out := sw_out sw @ take n b, sw_pos := sw_pos sw + int n\<rparr>))"

definition header_bytes :: "int \<Rightarrow> string" where
  "header_bytes created =
     magicHead @ be_put 2 formatVersion @ be_put 2 flagZstd @ put_int64 created @ replicate 12 NUL"

definition writeHeader :: "io_writer \<Rightarrow> int \<Rightarrow> Writer \<Rightarrow> go_error option \<times> Writer" where
  "writeHeader wr created sw = emit wr (header_bytes created) sw"

definition fresh_writer :: Writer where
  "fresh_writer = \<lparr>sw_out = [], sw_blockTarget = defaultBlockTargetBytes, sw_pos = 0, sw_curLines = [],
     sw_curCount = 0, sw_curMin = zero_time, sw_curMax = zero_time, sw_blocks = [],
     sw_namespaces = [], sw_pods = [], sw_nodes = [], sw_containers = [], sw_labelKeys = [],
     sw_fieldKeys = [], sw_segMin = zero_time, sw_segMax = zero_time, sw_total = 0,
     sw_hasLate = False, sw_lastTS = zero_time, sw_finished = False, sw_srcOffset = Map.empty\<rparr>"

definition NewWriter :: "io_writer \<Rightarrow> int \<Rightarrow> go_error + Writer" where
  "NewWriter wr created =
     (case writeHeader wr created fresh_writer of
        (Some e, sw) \<Rightarrow> Inl e
      | (None, sw) \<Rightarrow> Inr sw)"

definition flushBlock :: "codec \<Rightarrow> io_writer \<Rightarrow> Writer \<Rightarrow> go_error option \<times> Writer" where
  "flushBlock C wr sw =
     (if sw_curCount sw = 0 then (None, sw)
      else
        (let body = zstd_enc C (sw_curLines sw);
             bm = \<lparr>bm_FileOffset = sw_pos sw, bm_CompLen = int (length body),
                   bm_UncompLen = int (length (sw_curLines sw)), bm_MinTS = sw_curMin sw,
                   bm_MaxTS = sw_curMax sw, bm_RecordCount = sw_curCount sw\<rparr> in
         case emit wr body sw of
           (Some e, sw1) \<Rightarrow> (Some e, sw1)
         | (None, sw1) \<Rightarrow>
             (None, sw1\<lparr>sw_blocks := sw_blocks sw1 @ [bm], sw_curLines := [], sw_curCount := 0,
                        sw_lastTS := zero_time\<rparr>)))"

text \<open>A Go set of names is a list without repetitions; \<open>sortedKeys\<close> sorts it.\<close>

definition addKey :: "string \<Rightarrow> string list \<Rightarrow> string list" where
  "addKey k m = (if k \<noteq> [] then List.insert k m else m)"

definition sortedKeys :: "string list \<Rightarrow> string list" where
  "sortedKeys m = sort_strings m"

text \<open>The bookkeeping of \<open>Append\<close> once the line is in the block buffer.\<close>

definition NL :: char where
  "NL = CHR 0x0A"

definition append_line :: "string \<Rightarrow> log_record \<Rightarrow> Writer \<Rightarrow> Writer" where
  "append_line line r sw =
     (let ts = rec_Timestamp r; cnt = sw_curCount sw + 1 in
      sw\<lparr>sw_curLines := sw_curLines sw @ line @ [NL],
         sw_curCount := cnt,
         sw_curMin := (if cnt = 1 \<or> ts < sw_curMin sw then ts else sw_curMin sw),
         sw_curMax := (if cnt = 1 \<or> ts > sw_curMax sw then ts else sw_curMax sw),
         sw_hasLate := (if \<not> is_zero (sw_lastTS sw) \<and> ts < sw_lastTS sw then True else sw_hasLate sw),
         sw_lastTS := ts,
         sw_segMin := (if sw_total sw = 0 \<or> ts < sw_segMin sw then ts else sw_segMin sw),
         sw_segMax := (if sw_total sw = 0 \<or> ts > sw_segMax sw then ts else sw_segMax sw),
         sw_total := sw_total sw + 1,
         sw_namespaces := addKey (rec_Namespace r) (sw_namespaces sw),
         sw_pods := addKey (rec_Pod r) (sw_pods sw),
         sw_nodes := addKey (rec_Node r) (sw_nodes sw),
         sw_containers := addKey (rec_Container r) (sw_containers sw),
         sw_labelKeys := fold addKey (map fst (rec_Labels r)) (sw_labelKeys sw),
         sw_fieldKeys := fold addKey (map fst (rec_Body r)) (sw_fieldKeys sw),
         sw_srcOffset := raise_max (rec_key r) (rec_Offset r) (sw_srcOffset sw)\<rparr>)"

definition Append :: "codec \<Rightarrow> io_writer \<Rightarrow> log_record \<Rightarrow> Writer \<Rightarrow> go_error option \<times> Writer" where
  "Append C wr r sw =
     (case enc_record C r of
        Inl e \<Rightarrow> (Some e, sw)
      | Inr line \<Rightarrow>
          (if sw_curLines sw \<noteq> [] \<and>
              int (length (sw_curLines sw)) + int (length line) + 1 > sw_blockTarget sw
           then
             (case flushBlock C wr sw of
                (Some e, sw1) \<Rightarrow> (Some e, sw1)
              | (None, sw1) \<Rightarrow> (None, append_line line r sw1))
           else (None, append_line line r sw)))"

text \<open>The writing loop of \<open>Spool.Seal\<close>: the records of a batch, up to the first error.\<close>

fun append_all :: "codec \<Rightarrow> io_writer \<Rightarrow> log_record list \<Rightarrow> Writer \<Rightarrow> go_error option \<times> Writer" where
  "append_all C wr [] sw = (None, sw)"
| "append_all C wr (r # rs) sw =
     (case Append C wr r sw of
        (Some e, sw1) \<Rightarrow> (Some e, sw1)
      | (None, sw1) \<Rightarrow> append_all C wr rs sw1)"

definition index_entry :: "block_meta \<Rightarrow> string" where
  "index_entry b =
     put_int64 (bm_FileOffset b) @ put_int64 (bm_CompLen b) @ put_int64 (bm_UncompLen b) @
     put_int64 (unix_nano (bm_MinTS b)) @ put_int64 (unix_nano (bm_MaxTS b)) @
     be_put 4 (nat (bm_RecordCount b mod 2 ^ 32))"

definition footer_bytes :: "int \<Rightarrow> nat \<Rightarrow> int \<Rightarrow> nat \<Rightarrow> 32 word \<Rightarrow> Writer \<Rightarrow> string" where
  "footer_bytes indexOffset blockCount summaryOffset summaryLen crc sw =
     put_int64 indexOffset @ be_put 4 blockCount @ put_int64 summaryOffset @ be_put 4 summaryLen @
     put_int64 (unix_nano (sw_segMin sw)) @ put_int64 (unix_nano (sw_segMax sw)) @
     be_put 4 (unat crc) @ replicate 12 NUL @ magicFoot"

definition writeFooter ::
  "io_writer \<Rightarrow> int \<Rightarrow> nat \<Rightarrow> int \<Rightarrow> nat \<Rightarrow> 32 word \<Rightarrow> Writer \<Rightarrow> go_error option \<times> Writer" where
  "writeFooter wr indexOffset blockCount summaryOffset summaryLen crc sw =
     emit wr (footer_bytes indexOffset blockCount summaryOffset summaryLen crc sw) sw"

text \<open>The metadata \<open>Finish\<close> assembles (\<open>SizeBytes\<close> is filled in at its end).\<close>

definition writer_meta :: "Writer \<Rightarrow> segment_meta" where
  "writer_meta sw = empty_meta\<lparr>sm_MinTS := sw_segMin sw, sm_MaxTS := sw_segMax sw,
     sm_Namespaces := sortedKeys (sw_namespaces sw), sm_Pods := sortedKeys (sw_pods sw),
     sm_Nodes := sortedKeys (sw_nodes sw), sm_Containers := sortedKeys (sw_containers sw),
     sm_LabelKeys := sortedKeys (sw_labelKeys sw), sm_FieldKeys := sortedKeys (sw_fieldKeys sw),
     sm_Blocks := sw_blocks sw, sm_RecordCount := sw_total sw, sm_HasLate := sw_hasLate sw,
     sm_SourceOffsets := sw_srcOffset sw\<rparr>"

definition meta_summary :: "segment_meta \<Rightarrow> summary" where
  "meta_summary m = \<lparr>su_Namespaces = sm_Namespaces m, su_Pods = sm_Pods m, su_Nodes = sm_Nodes m,
     su_Containers = sm_Containers m, su_LabelKeys = sm_LabelKeys m, su_FieldKeys = sm_FieldKeys m\<rparr>"

definition Finish :: "codec \<Rightarrow> io_writer \<Rightarrow> Writer \<Rightarrow> (go_error + segment_meta) \<times> Writer" where
  "Finish C wr sw0 =
     (if sw_finished sw0 then (Inl ErrClosedPipe, sw0)
      else
        case flushBlock C wr (sw0\<lparr>sw_finished := True\<rparr>) of
          (Some e, sw1) \<Rightarrow> (Inl e, sw1)
        | (None, sw1) \<Rightarrow>
            (let indexOffset = sw_pos sw1; idx = concat (map index_entry (sw_blocks sw1)) in
             case emit wr idx sw1 of
               (Some e, sw2) \<Rightarrow> (Inl e, sw2)
             | (None, sw2) \<Rightarrow>
                 (let summaryOffset = sw_pos sw2; meta = writer_meta sw2 in
                  case enc_summary C (meta_summary meta) of
                    Inl e \<Rightarrow> (Inl e, sw2)
                  | Inr summaryJSON \<Rightarrow>
                      (let summaryComp = zstd_enc C summaryJSON in
                       case emit wr summaryComp sw2 of
                         (Some e, sw3) \<Rightarrow> (Inl e, sw3)
                       | (None, sw3) \<Rightarrow>
                           (case writeFooter wr indexOffset (length (sw_blocks sw3)) summaryOffset
                                  (length summaryComp) (crc32c (idx @ summaryComp)) sw3 of
                              (Some e, sw4) \<Rightarrow> (Inl e, sw4)
                            | (None, sw4) \<Rightarrow> (Inr (meta\<lparr>sm_SizeBytes := sw_pos sw4\<rparr>), sw4))))))"


section \<open>The reader\<close>

text \<open>\<open>os.File.ReadAt\<close> into a buffer of \<open>len\<close> bytes, all of them or an error.\<close>

definition read_at :: "string \<Rightarrow> int \<Rightarrow> int \<Rightarrow> go_error + string" where
  "read_at file off len =
     (if len < 0 then Inl (Panic ''makeslice: len out of range'')
      else if off < 0 then Inl (OtherError ''negative offset'')
      else if len = 0 then Inr []
      else if off + len \<le> int (length file) then Inr (take (nat len) (drop (nat off) file))
      else Inl (OtherError ''EOF''))"

record Reader =
  rr_file :: string
  rr_size :: int
  rr_blocks :: "block_meta list"
  rr_summary :: summary
  rr_segMin :: time
  rr_segMax :: time

text \<open>The bytes \<open>bs[i : i+n]\<close>.\<close>

definition slice :: "nat \<Rightarrow> nat \<Rightarrow> string \<Rightarrow> string" where
  "slice i n bs = take n (drop i bs)"

definition int32_of :: "nat \<Rightarrow> int" where
  "int32_of n = (int n + 2 ^ 31) mod 2 ^ 32 - 2 ^ 31"

definition read_entry :: "string \<Rightarrow> block_meta" where
  "read_entry e = \<lparr>bm_FileOffset = get_int64 (slice 0 8 e), bm_CompLen = get_int64 (slice 8 8 e),
     bm_UncompLen = get_int64 (slice 16 8 e), bm_MinTS = unix_time (get_int64 (slice 24 8 e)),
     bm_MaxTS = unix_time (get_int64 (slice 32 8 e)), bm_RecordCount = int32_of (be_get (slice 40 4 e))\<rparr>"

definition Open :: "codec \<Rightarrow> string \<Rightarrow> int \<Rightarrow> go_error + Reader" where
  "Open C file sz =
     (if sz < int (headerSize + footerSize) then Inl ErrUnsealed
      else
        rbind (read_at file (sz - int footerSize) (int footerSize)) (\<lambda>foot.
        if drop (footerSize - 8) foot \<noteq> magicFoot then Inl ErrUnsealed
        else
          (let indexOffset = get_int64 (slice 0 8 foot);
               blockCount = be_get (slice 8 4 foot);
               summaryOffset = get_int64 (slice 12 8 foot);
               summaryLen = int (be_get (slice 20 4 foot));
               segMin = unix_time (get_int64 (slice 24 8 foot));
               segMax = unix_time (get_int64 (slice 32 8 foot));
               wantCRC = be_get (slice 40 4 foot);
               idxLen = int (blockCount * blockIndexEntrySize) in
           if indexOffset < int headerSize \<or> wrap64 (indexOffset + idxLen) > sz \<or>
              summaryOffset < wrap64 (indexOffset + idxLen) \<or>
              wrap64 (summaryOffset + summaryLen) > sz - int footerSize
           then Inl ErrUnsealed
           else
             rbind (read_at file indexOffset idxLen) (\<lambda>idx.
             rbind (read_at file summaryOffset summaryLen) (\<lambda>summaryComp.
             if unat (crc32c (idx @ summaryComp)) \<noteq> wantCRC then Inl ErrIndexCRC
             else
               (let blocks = map (\<lambda>i. read_entry (slice (i * blockIndexEntrySize) blockIndexEntrySize idx))
                      [0 ..< blockCount] in
                rbind (zstd_dec C summaryComp) (\<lambda>summaryJSON.
                rbind (dec_summary C summaryJSON) (\<lambda>sm.
                Inr \<lparr>rr_file = file, rr_size = sz, rr_blocks = blocks, rr_summary = sm,
                     rr_segMin = segMin, rr_segMax = segMax\<rparr>))))))))"

definition Blocks :: "Reader \<Rightarrow> block_meta list" where
  "Blocks rd = rr_blocks rd"

definition Meta :: "Reader \<Rightarrow> segment_meta" where
  "Meta rd = empty_meta\<lparr>sm_MinTS := rr_segMin rd, sm_MaxTS := rr_segMax rd,
     sm_Namespaces := su_Namespaces (rr_summary rd), sm_Pods := su_Pods (rr_summary rd),
     sm_Nodes := su_Nodes (rr_summary rd), sm_Containers := su_Containers (rr_summary rd),
     sm_LabelKeys := su_LabelKeys (rr_summary rd), sm_FieldKeys := su_FieldKeys (rr_summary rd),
     sm_Blocks := rr_blocks rd, sm_SizeBytes := rr_size rd,
     sm_RecordCount := sum_list (map bm_RecordCount (rr_blocks rd))\<rparr>"

text \<open>
  \<open>bufio.Scanner\<close> with \<open>ScanLines\<close> and a 16 MiB buffer: the lines of a block, a final one without
  newline included unless empty, each without a trailing carriage return.
\<close>

definition max_line :: nat where
  "max_line = 16777216"

definition scan_lines :: "string \<Rightarrow> string list" where
  "scan_lines raw = (let ls = split_on NL raw in if last ls = [] then butlast ls else ls)"

definition drop_cr :: "string \<Rightarrow> string" where
  "drop_cr l = (if l \<noteq> [] \<and> last l = CHR 0x0D then butlast l else l)"

fun read_lines :: "codec \<Rightarrow> 'e emitter \<Rightarrow> string list \<Rightarrow> 'e \<Rightarrow> go_error option \<times> 'e" where
  "read_lines C fn [] est = (None, est)"
| "read_lines C fn (l # ls) est =
     (if length l \<ge> max_line then (Some (OtherError ''bufio.Scanner: token too long''), est)
      else
        case dec_record C (drop_cr l) of
          Inl e \<Rightarrow> (Some e, est)
        | Inr r \<Rightarrow>
            (case fn r est of
               (Some e, est1) \<Rightarrow> (Some e, est1)
             | (None, est1) \<Rightarrow> read_lines C fn ls est1))"

definition ReadBlock :: "codec \<Rightarrow> Reader \<Rightarrow> int \<Rightarrow> 'e emitter \<Rightarrow> 'e \<Rightarrow> go_error option \<times> 'e" where
  "ReadBlock C rd i fn est =
     (if i < 0 \<or> i \<ge> int (length (rr_blocks rd)) then (Some (BlockOutOfRange i), est)
      else
        (let b = rr_blocks rd ! nat i in
         case read_at (rr_file rd) (bm_FileOffset b) (bm_CompLen b) of
           Inl e \<Rightarrow> (Some e, est)
         | Inr body \<Rightarrow>
             (case zstd_dec C body of
                Inl e \<Rightarrow> (Some e, est)
              | Inr raw \<Rightarrow> read_lines C fn (scan_lines raw) est)))"

end
