(* ===== verification/CriParse.thy ===== *)
theory CriParse
  imports SegmentFile
begin

text \<open>
  \<open>internal/tailer/parse.go\<close>: the identity of a pod in the path of its log file, the lines of the
  CRI log format, and the record a line becomes.
\<close>


section \<open>Paths\<close>

record PodInfo =
  pi_Namespace :: string
  pi_Pod :: string
  pi_UID :: string
  pi_Container :: string

text \<open>The loop of \<open>parsePath\<close> over the parts of the path; the first part \<open>pods\<close> decides.\<close>

fun parse_parts :: "string list \<Rightarrow> PodInfo option" where
  "parse_parts (p # podDir # cont # rest) =
     (if p \<noteq> ''pods'' then parse_parts (podDir # cont # rest)
      else
        (case split_n (CHR ''_'') 3 podDir of
           [ns, pod, uid] \<Rightarrow> Some \<lparr>pi_Namespace = ns, pi_Pod = pod, pi_UID = uid, pi_Container = cont\<rparr>
         | _ \<Rightarrow> None))"
| "parse_parts _ = None"

definition parsePath :: "string \<Rightarrow> PodInfo option" where
  "parsePath path = parse_parts (split_on (CHR ''/'') path)"


section \<open>Lines\<close>

record criLine =
  cri_ts :: time
  cri_stream :: string
  cri_partial :: bool
  cri_message :: string

definition parseCRILine :: "runtime \<Rightarrow> string \<Rightarrow> criLine option" where
  "parseCRILine rt line =
     (let parts = split_n (CHR '' '') 4 line;
          parts' = (if length parts = 3 then parts @ [[]] else parts) in
      case parts' of
        [t, stream, tag, msg] \<Rightarrow>
          (case parse_rfc3339 rt t of
             None \<Rightarrow> None
           | Some ts \<Rightarrow> Some \<lparr>cri_ts = ts, cri_stream = stream, cri_partial = (tag = ''P''), cri_message = msg\<rparr>)
      | _ \<Rightarrow> None)"


section \<open>Records\<close>

definition bodyFor :: "runtime \<Rightarrow> criLine \<Rightarrow> (string \<times> string) list" where
  "bodyFor rt cl =
     (let trimmed = trim_space (cri_message cl);
          obj = (if has_prefix trimmed ''{'' then json_object rt trimmed else None) in
      case obj of
        Some o' \<Rightarrow> o'
      | None \<Rightarrow>
          (let stream = (if cri_stream cl \<noteq> StreamStdout \<and> cri_stream cl \<noteq> StreamStderr
                         then StreamStdout else cri_stream cl) in
           [(stream, json_quote rt (cri_message cl))]))"

definition buildRecord :: "runtime \<Rightarrow> source \<Rightarrow> PodInfo \<Rightarrow> criLine \<Rightarrow> int \<Rightarrow> log_record" where
  "buildRecord rt src pod cl offset =
     empty_record\<lparr>rec_Source := src, rec_Offset := offset, rec_Timestamp := cri_ts cl,
       rec_Namespace := pi_Namespace pod, rec_Pod := pi_Pod pod, rec_Container := pi_Container pod,
       rec_Node := src_Node src, rec_Stream := cri_stream cl, rec_Message := cri_message cl,
       rec_Body := bodyFor rt cl\<rparr>"

lemma buildRecord_sel [simp]:
  "rec_Source (buildRecord rt src pod cl off) = src" "rec_Offset (buildRecord rt src pod cl off) = off"
  "rec_Message (buildRecord rt src pod cl off) = cri_message cl" "rec_Stream (buildRecord rt src pod cl off) = cri_stream cl"
  "rec_Timestamp (buildRecord rt src pod cl off) = cri_ts cl"
  by (simp_all add: buildRecord_def)


section \<open>Properties\<close>

lemma parse_parts_skip:
  "''pods'' \<notin> set pre \<Longrightarrow> parse_parts (pre @ p # q # r # rest) = parse_parts (p # q # r # rest)"
proof (induction pre)
  case (Cons x pre)
  then have "parse_parts ((x # pre) @ p # q # r # rest) = parse_parts (pre @ p # q # r # rest)"
    by (cases pre; cases "tl pre") auto
  with Cons show ?case by simp
qed simp

lemma split_on_join:
  "ps \<noteq> [] \<Longrightarrow> \<forall>p \<in> set ps. c \<notin> set p \<Longrightarrow> split_on c (join [c] ps) = ps"
  by (induction "[c]" ps rule: join.induct) (simp_all add: split_on_no_sep split_on_append)

text \<open>
  C39: the layout of the log directory is read back.  For a root directory without a part named
  pods above the one that ends it, a namespace and a pod name without underscores, and names
  without slashes, \<open>parsePath\<close> of the file of a container gives the names it was made of; the UID may
  contain underscores.
\<close>

theorem parsePath_round_trip:
  assumes "''pods'' \<notin> set root" and "\<forall>p \<in> set root. CHR ''/'' \<notin> set p"
    and "CHR ''_'' \<notin> set ns" and "CHR ''_'' \<notin> set pod" and "CHR ''/'' \<notin> set (ns @ pod @ uid)"
    and "CHR ''/'' \<notin> set cont" and "CHR ''/'' \<notin> set f"
  shows "parsePath (join ''/'' (root @ [''pods'', ns @ ''_'' @ pod @ ''_'' @ uid, cont, f]))
    = Some \<lparr>pi_Namespace = ns, pi_Pod = pod, pi_UID = uid, pi_Container = cont\<rparr>"
proof -
  let ?ps = "root @ [''pods'', ns @ ''_'' @ pod @ ''_'' @ uid, cont, f]"
  have "split_on (CHR ''/'') (join ''/'' ?ps) = ?ps"
    using assms by (intro split_on_join) auto
  moreover have "split_n (CHR ''_'') 3 (ns @ ''_'' @ pod @ ''_'' @ uid) = [ns, pod, uid]"
    using split_n_append [OF assms(3), of 1] split_n_append [OF assms(4), of 0] by (simp add: eval_nat_numeral)
  ultimately show ?thesis
    using parse_parts_skip [OF assms(1)] by (simp add: parsePath_def)
qed

theorem parsePath_round_trip_witness:
  "parsePath ''/var/log/pods/default_web-0_1b2_3/nginx/0.log''
    = Some \<lparr>pi_Namespace = ''default'', pi_Pod = ''web-0'', pi_UID = ''1b2_3'', pi_Container = ''nginx''\<rparr>"
  using parsePath_round_trip [of "['''', ''var'', ''log'']" "''default''" "''web-0''" "''1b2_3''" "''nginx''" "''0.log''"]
  by simp

text \<open>
  The lines of the CRI format.  A line that a runtime writes, timestamp, stream, tag and message
  separated by single blanks, is parsed into these parts, whatever blanks the message contains, and
  also when the message is empty and its blank is missing; a line whose first field is no
  timestamp is not a record.
\<close>

theorem parseCRILine_spec:
  assumes "CHR '' '' \<notin> set t" and "CHR '' '' \<notin> set stream" and "CHR '' '' \<notin> set tag"
  shows "parseCRILine rt (t @ '' '' @ stream @ '' '' @ tag @ '' '' @ msg) =
      map_option (\<lambda>ts. \<lparr>cri_ts = ts, cri_stream = stream, cri_partial = (tag = ''P''), cri_message = msg\<rparr>) (parse_rfc3339 rt t) \<and>
    parseCRILine rt (t @ '' '' @ stream @ '' '' @ tag) = parseCRILine rt (t @ '' '' @ stream @ '' '' @ tag @ '' '')"
proof -
  note cut = split_n_append [OF assms(1), of 2] split_n_append [OF assms(2), of 1] split_n_append [OF assms(3), of 0]
    split_n_no_sep [OF assms(3), of 1]
  have four: "split_n (CHR '' '') 4 (t @ '' '' @ stream @ '' '' @ tag @ '' '' @ m) = [t, stream, tag, m]" for m
    using cut by (simp add: eval_nat_numeral)
  have "split_n (CHR '' '') 4 (t @ '' '' @ stream @ '' '' @ tag) = [t, stream, tag]"
    using cut by (simp add: eval_nat_numeral)
  then show ?thesis
    using four [of msg] four [of "[]"] by (simp add: parseCRILine_def split: option.split)
qed

theorem parseCRILine_spec_witness:
  "parseCRILine (bare_runtime\<lparr>parse_rfc3339 := \<lambda>_. Some 7\<rparr>) ''2026-01-01T00:00:00Z stdout P a b''
    = Some \<lparr>cri_ts = 7, cri_stream = ''stdout'', cri_partial = True, cri_message = ''a b''\<rparr>"
  using parseCRILine_spec [of "''2026-01-01T00:00:00Z''" "''stdout''" "''P''" "bare_runtime\<lparr>parse_rfc3339 := \<lambda>_. Some 7\<rparr>" "''a b''"]
  by simp

end
