(* ===== verification/Catalog.thy ===== *)
theory Catalog
  imports LogModel
begin

text \<open>
  The segment catalog, \<open>internal/store/catalog.go\<close> and \<open>sidecar.go\<close>: one bbolt bucket whose keys
  sort by the start time of a segment.  The bbolt database and the JSON codecs of the entries are
  parameters; what the code relies on is stated as \<open>bolt_ok\<close> and \<open>meta_codec_ok\<close>.  The locale
  \<open>segment_catalog\<close> is what the store needs of the catalog.
\<close>


section \<open>Parameters\<close>

text \<open>
  The transactions the catalog runs on its bucket: \<open>Put\<close> and \<open>Delete\<close> inside \<open>Update\<close>, the
  entries in cursor order inside \<open>View\<close>, \<open>WriteTo\<close>, and opening a database file with the given
  contents (\<open>None\<close>: no file yet).
\<close>

record 'd bolt =
  db_put :: "string \<Rightarrow> string \<Rightarrow> 'd \<Rightarrow> go_error option \<times> 'd"
  db_delete :: "string \<Rightarrow> 'd \<Rightarrow> go_error option \<times> 'd"
  db_scan :: "'d \<Rightarrow> (string \<times> string) list"
  db_dump :: "'d \<Rightarrow> go_error + string"
  db_open :: "string option \<Rightarrow> go_error + 'd"

text \<open>A bucket keeps its keys in byte order; \<open>Update\<close> is atomic; a written copy opens as the original.\<close>

definition bolt_ok :: "'d bolt \<Rightarrow> bool" where
  "bolt_ok D \<longleftrightarrow>
     (\<forall>d. sorted_wrt string_less (map fst (db_scan D d))) \<and>
     (\<forall>k v d r d'. db_put D k v d = (r, d') \<longrightarrow>
        map_of (db_scan D d') = (if r = None then (map_of (db_scan D d))(k \<mapsto> v) else map_of (db_scan D d))) \<and>
     (\<forall>k d r d'. db_delete D k d = (r, d') \<longrightarrow>
        map_of (db_scan D d') = (if r = None then (map_of (db_scan D d))(k := None) else map_of (db_scan D d))) \<and>
     (\<forall>d b. db_dump D d = Inr b \<longrightarrow> (\<exists>d'. db_open D (Some b) = Inr d' \<and> db_scan D d' = db_scan D d)) \<and>
     (\<forall>d. db_open D None = Inr d \<longrightarrow> db_scan D d = [])"

text \<open>JSON of a catalog entry (metadata and local path) and of the sidecar object.\<close>

record meta_codec =
  enc_entry :: "segment_meta \<Rightarrow> string \<Rightarrow> go_error + string"
  dec_entry :: "string \<Rightarrow> go_error + segment_meta \<times> string"
  enc_sidecar :: "segment_meta \<Rightarrow> go_error + string"
  dec_sidecar :: "string \<Rightarrow> go_error + segment_meta"

text \<open>
  Metadata that JSON can represent comes back but for \<open>LocalPath\<close>, which is tagged
  \<open>json:"-"\<close>.
\<close>

definition no_path :: "segment_meta \<Rightarrow> segment_meta" where
  "no_path m = m\<lparr>sm_LocalPath := []\<rparr>"

definition meta_codec_ok :: "meta_codec \<Rightarrow> (segment_meta \<Rightarrow> bool) \<Rightarrow> bool" where
  "meta_codec_ok M good \<longleftrightarrow>
     (\<forall>m p. good m \<longrightarrow> good (m\<lparr>sm_LocalPath := p\<rparr>)) \<and>
     (\<forall>m p b. good m \<longrightarrow> enc_entry M m p = Inr b \<longrightarrow> dec_entry M b = Inr (no_path m, p)) \<and>
     (\<forall>m b. good m \<longrightarrow> enc_sidecar M m = Inr b \<longrightarrow> dec_sidecar M b = Inr (no_path m))"


section \<open>Operations\<close>

definition segKey :: "time \<Rightarrow> string \<Rightarrow> string" where
  "segKey minTS k = put_int64 (unix_nano minTS) @ k"

definition openCatalog :: "'d bolt \<Rightarrow> string option \<Rightarrow> go_error + 'd" where
  "openCatalog D f = db_open D f"

definition cat_put :: "'d bolt \<Rightarrow> meta_codec \<Rightarrow> segment_meta \<Rightarrow> 'd \<Rightarrow> go_error option \<times> 'd" where
  "cat_put D M m d =
     (case enc_entry M m (sm_LocalPath m) of
        Inl e \<Rightarrow> (Some e, d)
      | Inr buf \<Rightarrow> db_put D (segKey (sm_MinTS m) (sm_ID m)) buf d)"

definition cat_delete :: "'d bolt \<Rightarrow> segment_meta \<Rightarrow> 'd \<Rightarrow> go_error option \<times> 'd" where
  "cat_delete D m d = db_delete D (segKey (sm_MinTS m) (sm_ID m)) d"

text \<open>The loop of \<open>has\<close> runs through all entries, up to one that does not decode.\<close>

fun has_loop :: "meta_codec \<Rightarrow> string \<Rightarrow> (string \<times> string) list \<Rightarrow> bool \<Rightarrow> go_error option \<times> bool" where
  "has_loop M k [] found = (None, found)"
| "has_loop M k ((_, v) # es) found =
     (case dec_entry M v of
        Inl e \<Rightarrow> (Some e, found)
      | Inr (m, _) \<Rightarrow> has_loop M k es (if sm_ID m = k then True else found))"

definition cat_has :: "'d bolt \<Rightarrow> meta_codec \<Rightarrow> string \<Rightarrow> 'd \<Rightarrow> go_error + bool" where
  "cat_has D M k d =
     (case has_loop M k (db_scan D d) False of (Some e, _) \<Rightarrow> Inl e | (None, found) \<Rightarrow> Inr found)"

fun overlapping_loop ::
  "meta_codec \<Rightarrow> time \<Rightarrow> time \<Rightarrow> (string \<times> string) list \<Rightarrow> go_error + segment_meta list" where
  "overlapping_loop M start stop [] = Inr []"
| "overlapping_loop M start stop ((_, v) # es) =
     (case dec_entry M v of
        Inl e \<Rightarrow> Inl e
      | Inr (m0, lp) \<Rightarrow>
          (let m = m0\<lparr>sm_LocalPath := lp\<rparr> in
           rbind (overlapping_loop M start stop es) (\<lambda>ms.
           Inr (if segment_overlaps m start stop then m # ms else ms))))"

definition cat_overlapping ::
  "'d bolt \<Rightarrow> meta_codec \<Rightarrow> time \<Rightarrow> time \<Rightarrow> 'd \<Rightarrow> go_error + segment_meta list" where
  "cat_overlapping D M start stop d = overlapping_loop M start stop (db_scan D d)"

definition cat_all :: "'d bolt \<Rightarrow> meta_codec \<Rightarrow> 'd \<Rightarrow> go_error + segment_meta list" where
  "cat_all D M d = cat_overlapping D M zero_time zero_time d"

definition cat_snapshot :: "'d bolt \<Rightarrow> 'd \<Rightarrow> go_error + string" where
  "cat_snapshot D d = db_dump D d"


section \<open>The entries of a catalog\<close>

definition entry_of :: "meta_codec \<Rightarrow> string \<times> string \<Rightarrow> segment_meta" where
  "entry_of M kv = (case dec_entry M (snd kv) of Inl e \<Rightarrow> empty_meta | Inr (m, lp) \<Rightarrow> m\<lparr>sm_LocalPath := lp\<rparr>)"

definition entry_ok :: "meta_codec \<Rightarrow> (segment_meta \<Rightarrow> bool) \<Rightarrow> string \<times> string \<Rightarrow> bool" where
  "entry_ok M good kv \<longleftrightarrow>
     (\<exists>m lp. dec_entry M (snd kv) = Inr (m, lp) \<and> good m \<and> fst kv = segKey (sm_MinTS m) (sm_ID m))"

definition cat_ok :: "'d bolt \<Rightarrow> meta_codec \<Rightarrow> (segment_meta \<Rightarrow> bool) \<Rightarrow> 'd \<Rightarrow> bool" where
  "cat_ok D M good d \<longleftrightarrow> bolt_ok D \<and> meta_codec_ok M good \<and> (\<forall>kv \<in> set (db_scan D d). entry_ok M good kv)"

definition cat_metas :: "'d bolt \<Rightarrow> meta_codec \<Rightarrow> 'd \<Rightarrow> segment_meta list" where
  "cat_metas D M d = map (entry_of M) (db_scan D d)"

text \<open>The key of a segment in the catalog.\<close>

definition meta_key :: "segment_meta \<Rightarrow> string" where
  "meta_key m = segKey (sm_MinTS m) (sm_ID m)"

lemma meta_key_path [simp]: "meta_key (m\<lparr>sm_LocalPath := p\<rparr>) = meta_key m"
  by (simp add: meta_key_def)

lemma segKey_id: "segKey a i = segKey b j \<Longrightarrow> i = j"
  by (simp add: segKey_def)

lemma entry_ok_key: "entry_ok M good kv \<Longrightarrow> meta_key (entry_of M kv) = fst kv"
  by (auto simp: entry_ok_def entry_of_def meta_key_def)

lemma overlapping_loop_ok:
  "\<forall>kv \<in> set es. entry_ok M good kv \<Longrightarrow> overlapping_loop M start stop es
    = Inr (filter (\<lambda>m. segment_overlaps m start stop) (map (entry_of M) es))"
proof (induction es)
  case (Cons kv es)
  then obtain m lp where "dec_entry M (snd kv) = Inr (m, lp)" by (auto simp: entry_ok_def)
  with Cons show ?case by (cases kv) (simp add: entry_of_def Let_def del: rbind_Inr_iff)
qed simp

lemma has_loop_ok:
  "\<forall>kv \<in> set es. entry_ok M good kv \<Longrightarrow>
    has_loop M k es found = (None, found \<or> k \<in> sm_ID ` set (map (entry_of M) es))"
proof (induction es arbitrary: found)
  case (Cons kv es)
  then obtain m lp where "dec_entry M (snd kv) = Inr (m, lp)" by (auto simp: entry_ok_def)
  with Cons show ?case by (cases kv) (auto simp: entry_of_def)
qed simp

lemma sorted_wrt_distinct: "sorted_wrt string_less xs \<Longrightarrow> distinct xs"
  by (induction xs) (auto simp: string_less_irrefl)

lemma scan_distinct: "bolt_ok D \<Longrightarrow> distinct (map fst (db_scan D d))"
  by (rule sorted_wrt_distinct) (simp add: bolt_ok_def)

lemma scan_mem: "bolt_ok D \<Longrightarrow> kv \<in> set (db_scan D d) \<longleftrightarrow> map_of (db_scan D d) (fst kv) = Some (snd kv)"
  using map_of_eq_Some_iff [OF scan_distinct, of D d "fst kv" "snd kv"] by simp

lemma cat_metas_distinct: "cat_ok D M good d \<Longrightarrow> distinct (map meta_key (cat_metas D M d))"
proof -
  assume ok: "cat_ok D M good d"
  then have "map meta_key (cat_metas D M d) = map fst (db_scan D d)"
    by (auto simp: cat_metas_def cat_ok_def dest: entry_ok_key)
  with ok show ?thesis by (simp add: cat_ok_def scan_distinct)
qed


lemma cat_put_scan:
  assumes ok: "cat_ok D M good d" and good: "good m" and put: "cat_put D M m d = (r, d')"
  shows "r = None \<Longrightarrow> \<exists>buf. dec_entry M buf = Inr (no_path m, sm_LocalPath m) \<and>
      set (db_scan D d') = insert (meta_key m, buf) {kv \<in> set (db_scan D d). fst kv \<noteq> meta_key m}"
    and "r \<noteq> None \<Longrightarrow> set (db_scan D d') = set (db_scan D d)"
proof -
  from ok have D: "bolt_ok D" and M: "meta_codec_ok M good" by (simp_all add: cat_ok_def)
  note mem = scan_mem [OF D]
  {
    assume "r = None"
    with put obtain buf where e: "enc_entry M m (sm_LocalPath m) = Inr buf"
      and p: "db_put D (meta_key m) buf d = (None, d')"
      by (auto simp: cat_put_def meta_key_def split: sum.splits)
    from e M good have "dec_entry M buf = Inr (no_path m, sm_LocalPath m)"
      unfolding meta_codec_ok_def by blast
    moreover from D p have upd: "map_of (db_scan D d') = (map_of (db_scan D d))(meta_key m \<mapsto> buf)"
      unfolding bolt_ok_def by metis
    have "kv \<in> set (db_scan D d') \<longleftrightarrow>
        kv = (meta_key m, buf) \<or> (kv \<in> set (db_scan D d) \<and> fst kv \<noteq> meta_key m)" for kv
      by (cases kv) (auto simp: mem upd)
    then have "set (db_scan D d') = insert (meta_key m, buf) {kv \<in> set (db_scan D d). fst kv \<noteq> meta_key m}"
      by blast
    ultimately show "\<exists>buf. dec_entry M buf = Inr (no_path m, sm_LocalPath m) \<and>
      set (db_scan D d') = insert (meta_key m, buf) {kv \<in> set (db_scan D d). fst kv \<noteq> meta_key m}" by blast
  }
  assume "r \<noteq> None"
  then have "map_of (db_scan D d') = map_of (db_scan D d)"
    using put D unfolding bolt_ok_def cat_put_def by (auto split: sum.splits)
  then have "kv \<in> set (db_scan D d') \<longleftrightarrow> kv \<in> set (db_scan D d)" for kv by (simp add: mem)
  then show "set (db_scan D d') = set (db_scan D d)" by blast
qed

lemma cat_put_None:
  assumes ok: "cat_ok D M good d" and good: "good m" and put: "cat_put D M m d = (None, d')"
  shows "cat_ok D M good d'"
    and "set (cat_metas D M d') = insert m {x \<in> set (cat_metas D M d). meta_key x \<noteq> meta_key m}"
proof -
  from cat_put_scan(1) [OF assms refl] obtain buf where dec: "dec_entry M buf = Inr (no_path m, sm_LocalPath m)"
    and sc: "set (db_scan D d') = insert (meta_key m, buf) {kv \<in> set (db_scan D d). fst kv \<noteq> meta_key m}"
    by blast
  from ok good have "good (no_path m)" by (simp add: cat_ok_def meta_codec_ok_def no_path_def)
  with dec have "entry_ok M good (meta_key m, buf)" by (simp add: entry_ok_def meta_key_def no_path_def)
  with ok sc show ok': "cat_ok D M good d'" by (auto simp: cat_ok_def)
  have "entry_of M (meta_key m, buf) = m" by (simp add: entry_of_def dec no_path_def)
  moreover have "entry_of M ` {kv \<in> set (db_scan D d). fst kv \<noteq> meta_key m} =
      {x \<in> set (cat_metas D M d). meta_key x \<noteq> meta_key m}"
    using ok by (force simp: cat_metas_def cat_ok_def dest: entry_ok_key)
  ultimately show "set (cat_metas D M d') = insert m {x \<in> set (cat_metas D M d). meta_key x \<noteq> meta_key m}"
    by (simp add: cat_metas_def sc)
qed

lemma cat_put_Some:
  assumes "cat_ok D M good d" and "good m" and "cat_put D M m d = (Some e, d')"
  shows "cat_ok D M good d' \<and> set (cat_metas D M d') = set (cat_metas D M d)"
  using cat_put_scan(2) [OF assms] assms(1) by (simp add: cat_ok_def cat_metas_def)


section \<open>What the store needs of the catalog\<close>

locale segment_catalog =
  fixes put_op :: "segment_meta \<Rightarrow> 'd \<Rightarrow> go_error option \<times> 'd"
    and has_op :: "string \<Rightarrow> 'd \<Rightarrow> go_error + bool"
    and overlapping_op :: "time \<Rightarrow> time \<Rightarrow> 'd \<Rightarrow> go_error + segment_meta list"
    and cok :: "'d \<Rightarrow> bool"
    and good :: "segment_meta \<Rightarrow> bool"
    and entries :: "'d \<Rightarrow> segment_meta list"
  assumes overlapping_entries: "cok d \<Longrightarrow>
      overlapping_op start stop d = Inr (filter (\<lambda>m. segment_overlaps m start stop) (entries d))"
    and has_entry: "cok d \<Longrightarrow> has_op k d = Inr (k \<in> sm_ID ` set (entries d))"
    and put_entry: "cok d \<Longrightarrow> good m \<Longrightarrow> put_op m d = (None, d') \<Longrightarrow> cok d' \<and>
      set (entries d') = insert m {x \<in> set (entries d). meta_key x \<noteq> meta_key m}"
    and put_failed: "cok d \<Longrightarrow> good m \<Longrightarrow> put_op m d = (Some e, d') \<Longrightarrow> cok d' \<and> set (entries d') = set (entries d)"
    and entries_distinct: "cok d \<Longrightarrow> distinct (map meta_key (entries d))"
    and entries_good: "cok d \<Longrightarrow> m \<in> set (entries d) \<Longrightarrow> good m"
begin

text \<open>A segment whose id is not in the catalog is added and replaces nothing.\<close>

lemma put_new:
  assumes "cok d" and "good m" and "put_op m d = (None, d')" and "sm_ID m \<notin> sm_ID ` set (entries d)"
  shows "set (entries d') = insert m (set (entries d))"
proof -
  have "meta_key x \<noteq> meta_key m" if "x \<in> set (entries d)" for x
    using assms(4) that segKey_id unfolding meta_key_def by (metis imageI)
  then have "{x \<in> set (entries d). meta_key x \<noteq> meta_key m} = set (entries d)" by blast
  with put_entry [OF assms(1-3)] show ?thesis by simp
qed

lemma all_entries: "cok d \<Longrightarrow> overlapping_op zero_time zero_time d = Inr (entries d)"
  by (simp add: overlapping_entries segment_overlaps_def)

end

interpretation bolt_catalog: segment_catalog "cat_put D M" "cat_has D M" "cat_overlapping D M"
    "cat_ok D M good" good "cat_metas D M"
  for D :: "'d bolt" and M :: meta_codec and good
proof
  fix d d' m k start stop e
  assume ok: "cat_ok D M good d"
  show "cat_overlapping D M start stop d = Inr (filter (\<lambda>m. segment_overlaps m start stop) (cat_metas D M d))"
    using ok overlapping_loop_ok [of "db_scan D d" M good] by (simp add: cat_overlapping_def cat_ok_def cat_metas_def)
  show "cat_has D M k d = Inr (k \<in> sm_ID ` set (cat_metas D M d))"
    using ok has_loop_ok [of "db_scan D d" M good] by (simp add: cat_has_def cat_ok_def cat_metas_def)
  show "good m \<Longrightarrow> cat_put D M m d = (None, d') \<Longrightarrow> cat_ok D M good d' \<and>
      set (cat_metas D M d') = insert m {x \<in> set (cat_metas D M d). meta_key x \<noteq> meta_key m}"
    using cat_put_None [OF ok] by blast
  show "good m \<Longrightarrow> cat_put D M m d = (Some e, d') \<Longrightarrow>
      cat_ok D M good d' \<and> set (cat_metas D M d') = set (cat_metas D M d)"
    using cat_put_Some [OF ok] by blast
  show "distinct (map meta_key (cat_metas D M d))" using ok by (rule cat_metas_distinct)
  show "m \<in> set (cat_metas D M d) \<Longrightarrow> good m"
    using ok by (auto simp: cat_metas_def cat_ok_def entry_ok_def entry_of_def meta_codec_ok_def)
qed

end
