(* ===== verification/BlobStore.thy ===== *)
theory BlobStore
  imports LogModel "HOL-Library.AList"
begin

text \<open>
  The object store: the interface \<open>Blobs\<close> of \<open>internal/store/blobs.go\<close>, its in-memory
  implementation \<open>MemBlobs\<close>, and the S3 implementation of \<open>internal/store/s3.go\<close> over the client
  of the go-s3 package, which is a parameter.  What the store relies on is the locale
  \<open>object_store\<close>; both implementations are interpretations of it.
\<close>


section \<open>The interface\<close>

text \<open>
  An implementation with its state \<open>'s\<close>.  \<open>PutReader\<close> takes what reading its reader to the end
  gives: an error or the data.
\<close>

record 's blobs =
  bl_Get :: "string \<Rightarrow> 's \<Rightarrow> (go_error + string) \<times> 's"
  bl_Put :: "string \<Rightarrow> string \<Rightarrow> 's \<Rightarrow> go_error option \<times> 's"
  bl_PutReader :: "string \<Rightarrow> go_error + string \<Rightarrow> 's \<Rightarrow> go_error option \<times> 's"
  bl_List :: "string \<Rightarrow> 's \<Rightarrow> (go_error + string list) \<times> 's"
  bl_Delete :: "string \<Rightarrow> 's \<Rightarrow> go_error option \<times> 's"

definition IsNotFound :: "go_error \<Rightarrow> bool" where
  "IsNotFound e = (case e of NotFoundError k \<Rightarrow> True | _ \<Rightarrow> False)"

text \<open>
  The contract: \<open>objs s\<close> are the objects.  A call may fail; a failed write has stored the whole
  object or nothing.
\<close>

locale object_store =
  fixes B :: "'s blobs"
    and ok :: "'s \<Rightarrow> bool"
    and objs :: "'s \<Rightarrow> string \<rightharpoonup> string"
  assumes get_ok: "ok s \<Longrightarrow> bl_Get B k s = (r, s') \<Longrightarrow> ok s' \<and> objs s' = objs s"
    and get_Inr: "ok s \<Longrightarrow> bl_Get B k s = (Inr d, s') \<Longrightarrow> objs s k = Some d"
    and put_None: "ok s \<Longrightarrow> bl_Put B k d s = (None, s') \<Longrightarrow> ok s' \<and> objs s' = (objs s)(k \<mapsto> d)"
    and put_Some: "ok s \<Longrightarrow> bl_Put B k d s = (Some e, s') \<Longrightarrow>
      ok s' \<and> (objs s' = objs s \<or> objs s' = (objs s)(k \<mapsto> d))"
    and putr_None: "ok s \<Longrightarrow> bl_PutReader B k x s = (None, s') \<Longrightarrow>
      ok s' \<and> (\<exists>d. x = Inr d \<and> objs s' = (objs s)(k \<mapsto> d))"
    and putr_Some: "ok s \<Longrightarrow> bl_PutReader B k x s = (Some e, s') \<Longrightarrow>
      ok s' \<and> (objs s' = objs s \<or> (\<exists>d. x = Inr d \<and> objs s' = (objs s)(k \<mapsto> d)))"
    and list_ok: "ok s \<Longrightarrow> bl_List B p s = (q, s') \<Longrightarrow> ok s' \<and> objs s' = objs s"
    and list_Inr: "ok s \<Longrightarrow> bl_List B p s = (Inr ks, s') \<Longrightarrow> set ks = {k \<in> dom (objs s). has_prefix k p}"
begin

text \<open>Whatever its outcome, a write changes no other object.\<close>

lemma put_other: "ok s \<Longrightarrow> bl_Put B k d s = (r, s') \<Longrightarrow> j \<noteq> k \<Longrightarrow> objs s' j = objs s j"
  using put_None [of s k d s'] put_Some [of s k d _ s'] by (cases r) auto

lemma putr_other: "ok s \<Longrightarrow> bl_PutReader B k x s = (r, s') \<Longrightarrow> j \<noteq> k \<Longrightarrow> objs s' j = objs s j"
  using putr_None [of s k x s'] putr_Some [of s k x _ s'] by (cases r) auto

end


section \<open>The in-memory implementation\<close>

type_synonym mem = "(string \<times> string) list"

definition mem_Get :: "string \<Rightarrow> mem \<Rightarrow> (go_error + string) \<times> mem" where
  "mem_Get key m = (case map_of m key of None \<Rightarrow> (Inl (NotFoundError key), m) | Some b \<Rightarrow> (Inr b, m))"

definition mem_Put :: "string \<Rightarrow> string \<Rightarrow> mem \<Rightarrow> go_error option \<times> mem" where
  "mem_Put key data m = (None, AList.update key data m)"

definition mem_PutReader :: "string \<Rightarrow> go_error + string \<Rightarrow> mem \<Rightarrow> go_error option \<times> mem" where
  "mem_PutReader key x m = (case x of Inl e \<Rightarrow> (Some e, m) | Inr b \<Rightarrow> mem_Put key b m)"

definition mem_List :: "string \<Rightarrow> mem \<Rightarrow> (go_error + string list) \<times> mem" where
  "mem_List p m = (Inr (sort_strings (filter (\<lambda>k. has_prefix k p) (map fst m))), m)"

definition mem_Delete :: "string \<Rightarrow> mem \<Rightarrow> go_error option \<times> mem" where
  "mem_Delete key m = (None, AList.delete key m)"

definition MemBlobs :: "mem blobs" where
  "MemBlobs = \<lparr>bl_Get = mem_Get, bl_Put = mem_Put, bl_PutReader = mem_PutReader,
     bl_List = mem_List, bl_Delete = mem_Delete\<rparr>"

interpretation mem: object_store MemBlobs "\<lambda>m. True" map_of
proof
  show "bl_Get MemBlobs k s = (r, s') \<Longrightarrow> True \<and> map_of s' = map_of s" for s k r s'
    by (auto simp: MemBlobs_def mem_Get_def split: option.splits)
  show "bl_Get MemBlobs k s = (Inr d, s') \<Longrightarrow> map_of s k = Some d" for s k d s'
    by (auto simp: MemBlobs_def mem_Get_def split: option.splits)
  show "bl_List MemBlobs p s = (Inr ks, s') \<Longrightarrow> set ks = {k \<in> dom (map_of s). has_prefix k p}" for s p ks s'
    by (force simp: MemBlobs_def mem_List_def dom_map_of_conv_image_fst)
qed (auto simp: MemBlobs_def mem_Put_def mem_PutReader_def mem_List_def update_conv' split: sum.splits)


section \<open>The S3 implementation\<close>

text \<open>
  The client of go-s3, with its state \<open>'c\<close> and its upload handles \<open>'u\<close>.  Its errors are texts; the
  body of a \<open>Get\<close> is what \<open>io.ReadAll\<close> makes of it.
\<close>

record ('c, 'u) s3_client =
  s3_Get :: "string \<Rightarrow> 'c \<Rightarrow> (string + (go_error + string)) \<times> 'c"
  s3_NewUpload :: "string \<Rightarrow> 'c \<Rightarrow> (string + 'u) \<times> 'c"
  s3_Stream :: "'u \<Rightarrow> go_error + string \<Rightarrow> nat \<Rightarrow> 'c \<Rightarrow> string option \<times> 'c"
  s3_Done :: "'u \<Rightarrow> 'c \<Rightarrow> string option \<times> 'c"
  s3_List :: "'c \<Rightarrow> (string + string list) \<times> 'c"
  s3_Delete :: "string \<Rightarrow> 'c \<Rightarrow> string option \<times> 'c"

definition s3UploadBlock :: nat where
  "s3UploadBlock = 5 * 1024 * 1024"

definition isS3NotFound :: "string \<Rightarrow> bool" where
  "isS3NotFound msg \<longleftrightarrow> contains_str msg ''NoSuchKey'' \<or> contains_str msg ''404''"

definition S3_Get :: "('c, 'u) s3_client \<Rightarrow> string \<Rightarrow> 'c \<Rightarrow> (go_error + string) \<times> 'c" where
  "S3_Get K key c =
     (case s3_Get K key c of
        (Inl msg, c1) \<Rightarrow> (if isS3NotFound msg then (Inl (NotFoundError key), c1) else (Inl (OtherError msg), c1))
      | (Inr body, c1) \<Rightarrow> (body, c1))"

definition S3_PutReader ::
  "('c, 'u) s3_client \<Rightarrow> string \<Rightarrow> go_error + string \<Rightarrow> 'c \<Rightarrow> go_error option \<times> 'c" where
  "S3_PutReader K key x c =
     (case s3_NewUpload K key c of
        (Inl msg, c1) \<Rightarrow> (Some (OtherError msg), c1)
      | (Inr up, c1) \<Rightarrow>
          (case s3_Stream K up x s3UploadBlock c1 of
             (Some msg, c2) \<Rightarrow> (Some (OtherError msg), c2)
           | (None, c2) \<Rightarrow>
               (case s3_Done K up c2 of
                  (Some msg, c3) \<Rightarrow> (Some (OtherError msg), c3)
                | (None, c3) \<Rightarrow> (None, c3))))"

definition S3_Put :: "('c, 'u) s3_client \<Rightarrow> string \<Rightarrow> string \<Rightarrow> 'c \<Rightarrow> go_error option \<times> 'c" where
  "S3_Put K key data c = S3_PutReader K key (Inr data) c"

definition S3_List :: "('c, 'u) s3_client \<Rightarrow> string \<Rightarrow> 'c \<Rightarrow> (go_error + string list) \<times> 'c" where
  "S3_List K p c =
     (case s3_List K c of
        (Inl msg, c1) \<Rightarrow> (Inl (OtherError msg), c1)
      | (Inr ks, c1) \<Rightarrow> (Inr (filter (\<lambda>k. has_prefix k p) ks), c1))"

definition S3_Delete :: "('c, 'u) s3_client \<Rightarrow> string \<Rightarrow> 'c \<Rightarrow> go_error option \<times> 'c" where
  "S3_Delete K key c =
     (case s3_Delete K key c of
        (Some msg, c1) \<Rightarrow> ((if isS3NotFound msg then None else Some (OtherError msg)), c1)
      | (None, c1) \<Rightarrow> (None, c1))"

definition S3Blobs :: "('c, 'u) s3_client \<Rightarrow> 'c blobs" where
  "S3Blobs K = \<lparr>bl_Get = S3_Get K, bl_Put = S3_Put K, bl_PutReader = S3_PutReader K,
     bl_List = S3_List K, bl_Delete = S3_Delete K\<rparr>"

text \<open>\<open>NewS3Blobs\<close>; \<open>newClient\<close> is \<open>s3.NewClient\<close> on the fields it is given.\<close>

record S3Config =
  s3c_AccessKeyID :: string
  s3c_SecretAccessKey :: string
  s3c_Region :: string
  s3c_Bucket :: string
  s3c_Domain :: string
  s3c_Protocol :: string
  s3c_UsePathBuckets :: bool

definition NewS3Blobs :: "(S3Config \<Rightarrow> go_error + ('c, 'u) s3_client) \<Rightarrow> S3Config \<Rightarrow> go_error + 'c blobs" where
  "NewS3Blobs newClient cfg = rbind (newClient cfg) (\<lambda>K. Inr (S3Blobs K))"

text \<open>
  What the wrapper relies on.  The client changes the bucket only when an upload completes, and
  then stores what it streamed; it lists the keys of the bucket; a \<open>Get\<close> that returns data returns
  those of the object.  Nothing is assumed of the texts of its errors, so an error can read as a
  missing object.  \<open>staged\<close> is the data an upload handle holds.
\<close>

definition s3_get_ok :: "('c, 'u) s3_client \<Rightarrow> ('c \<Rightarrow> string \<rightharpoonup> string) \<Rightarrow> bool" where
  "s3_get_ok K bucket \<longleftrightarrow>
     (\<forall>k c r c1. s3_Get K k c = (r, c1) \<longrightarrow> bucket c1 = bucket c \<and>
        (\<forall>d. r = Inr (Inr d) \<longrightarrow> bucket c k = Some d))"

definition s3_list_ok :: "('c, 'u) s3_client \<Rightarrow> ('c \<Rightarrow> string \<rightharpoonup> string) \<Rightarrow> bool" where
  "s3_list_ok K bucket \<longleftrightarrow>
     (\<forall>c r c1. s3_List K c = (r, c1) \<longrightarrow> bucket c1 = bucket c \<and>
        (case r of Inl msg \<Rightarrow> True | Inr ks \<Rightarrow> set ks = dom (bucket c)))"

definition s3_upload_ok ::
  "('c, 'u) s3_client \<Rightarrow> ('c \<Rightarrow> string \<rightharpoonup> string) \<Rightarrow> ('u \<Rightarrow> string) \<Rightarrow> ('c \<Rightarrow> 'u \<Rightarrow> string option) \<Rightarrow> bool" where
  "s3_upload_ok K bucket key_of staged \<longleftrightarrow>
     (\<forall>k c r c1. s3_NewUpload K k c = (r, c1) \<longrightarrow> bucket c1 = bucket c \<and>
        (case r of Inl msg \<Rightarrow> True | Inr u \<Rightarrow> key_of u = k)) \<and>
     (\<forall>u x n c r c1. s3_Stream K u x n c = (r, c1) \<longrightarrow> bucket c1 = bucket c \<and>
        (r = None \<longrightarrow> (\<exists>d. x = Inr d \<and> staged c1 u = Some d))) \<and>
     (\<forall>u c d r c1. staged c u = Some d \<longrightarrow> s3_Done K u c = (r, c1) \<longrightarrow>
        bucket c1 = (bucket c)(key_of u \<mapsto> d) \<or> (r \<noteq> None \<and> bucket c1 = bucket c))"

definition s3_ok ::
  "('c, 'u) s3_client \<Rightarrow> ('c \<Rightarrow> string \<rightharpoonup> string) \<Rightarrow> ('u \<Rightarrow> string) \<Rightarrow> ('c \<Rightarrow> 'u \<Rightarrow> string option) \<Rightarrow> bool" where
  "s3_ok K bucket key_of staged \<longleftrightarrow>
     s3_get_ok K bucket \<and> s3_list_ok K bucket \<and> s3_upload_ok K bucket key_of staged"

lemma S3_Get_cases:
  assumes "s3_get_ok K bucket" and "S3_Get K k c = (r, c')"
  shows "bucket c' = bucket c" and "r = Inr d \<Longrightarrow> bucket c k = Some d"
proof -
  obtain q c1 where g: "s3_Get K k c = (q, c1)" by (cases "s3_Get K k c")
  with assms(1) have l: "bucket c1 = bucket c" "\<And>d. q = Inr (Inr d) \<Longrightarrow> bucket c k = Some d"
    unfolding s3_get_ok_def by blast+
  from assms(2) g have "c' = c1" by (auto simp: S3_Get_def split: sum.splits if_splits)
  with l show "bucket c' = bucket c" by simp
  from assms(2) g l show "r = Inr d \<Longrightarrow> bucket c k = Some d"
    by (auto simp: S3_Get_def split: sum.splits if_splits)
qed

lemma S3_PutReader_cases:
  assumes "s3_upload_ok K bucket key_of staged" and "S3_PutReader K k x c = (r, c')"
  shows "(\<exists>d. x = Inr d \<and> bucket c' = (bucket c)(k \<mapsto> d)) \<or> (r \<noteq> None \<and> bucket c' = bucket c)"
proof -
  note up = assms(1) [unfolded s3_upload_ok_def]
  obtain q c1 where n: "s3_NewUpload K k c = (q, c1)" by (cases "s3_NewUpload K k c")
  with up have c1: "bucket c1 = bucket c" by blast
  show ?thesis
  proof (cases q)
    case (Inl msg)
    with assms(2) n c1 show ?thesis by (auto simp: S3_PutReader_def)
  next
    case (Inr u)
    with up n have ku: "key_of u = k" by fastforce
    obtain q2 c2 where st: "s3_Stream K u x s3UploadBlock c1 = (q2, c2)"
      by (cases "s3_Stream K u x s3UploadBlock c1")
    with up c1 have c2: "bucket c2 = bucket c" "q2 = None \<Longrightarrow> \<exists>d. x = Inr d \<and> staged c2 u = Some d"
      by metis+
    obtain q3 c3 where d: "s3_Done K u c2 = (q3, c3)" by (cases "s3_Done K u c2")
    show ?thesis
    proof (cases q2)
      case None
      with c2 obtain dat where dat: "x = Inr dat" "staged c2 u = Some dat" by blast
      with up d c2 ku have "bucket c3 = (bucket c)(k \<mapsto> dat) \<or> (q3 \<noteq> None \<and> bucket c3 = bucket c)"
        by metis
      moreover from assms(2) n Inr st None d have "r = map_option OtherError q3 \<and> c' = c3"
        by (auto simp: S3_PutReader_def split: option.splits)
      ultimately show ?thesis using dat by auto
    next
      case (Some msg)
      with assms(2) n Inr st c2 show ?thesis by (auto simp: S3_PutReader_def)
    qed
  qed
qed

interpretation s3: object_store "S3Blobs K" "\<lambda>c. s3_ok K bucket key_of staged" bucket
  for K :: "('c, 'u) s3_client" and bucket key_of staged
proof
  fix s s' k r d e x p ks
  assume "s3_ok K bucket key_of staged"
  then have g: "s3_get_ok K bucket" and l: "s3_list_ok K bucket" and u: "s3_upload_ok K bucket key_of staged"
    by (simp_all add: s3_ok_def)
  show "bl_Get (S3Blobs K) k s = (r, s') \<Longrightarrow> s3_ok K bucket key_of staged \<and> bucket s' = bucket s"
    using S3_Get_cases(1) [OF g] g l u by (simp add: S3Blobs_def s3_ok_def)
  show "bl_Get (S3Blobs K) k s = (Inr d, s') \<Longrightarrow> bucket s k = Some d"
    using S3_Get_cases(2) [OF g] by (simp add: S3Blobs_def)
  show "bl_PutReader (S3Blobs K) k x s = (None, s') \<Longrightarrow>
      s3_ok K bucket key_of staged \<and> (\<exists>d. x = Inr d \<and> bucket s' = (bucket s)(k \<mapsto> d))"
    using S3_PutReader_cases [OF u, of k x s None s'] g l u by (simp add: S3Blobs_def s3_ok_def)
  show "bl_PutReader (S3Blobs K) k x s = (Some e, s') \<Longrightarrow>
      s3_ok K bucket key_of staged \<and> (bucket s' = bucket s \<or> (\<exists>d. x = Inr d \<and> bucket s' = (bucket s)(k \<mapsto> d)))"
    using S3_PutReader_cases [OF u, of k x s "Some e" s'] g l u by (auto simp: S3Blobs_def s3_ok_def)
  show "bl_Put (S3Blobs K) k d s = (None, s') \<Longrightarrow>
      s3_ok K bucket key_of staged \<and> bucket s' = (bucket s)(k \<mapsto> d)"
    using S3_PutReader_cases [OF u, of k "Inr d" s None s'] g l u by (simp add: S3Blobs_def S3_Put_def s3_ok_def)
  show "bl_Put (S3Blobs K) k d s = (Some e, s') \<Longrightarrow>
      s3_ok K bucket key_of staged \<and> (bucket s' = bucket s \<or> bucket s' = (bucket s)(k \<mapsto> d))"
    using S3_PutReader_cases [OF u, of k "Inr d" s "Some e" s'] g l u
    by (auto simp: S3Blobs_def S3_Put_def s3_ok_def)
  obtain q c1 where ls: "s3_List K s = (q, c1)" by (cases "s3_List K s")
  with l have b: "bucket c1 = bucket s" "\<And>js. q = Inr js \<Longrightarrow> set js = dom (bucket s)"
    unfolding s3_list_ok_def by fastforce+
  show "bl_List (S3Blobs K) p s = (r', s') \<Longrightarrow> s3_ok K bucket key_of staged \<and> bucket s' = bucket s" for r'
    using ls b(1) g l u by (auto simp: S3Blobs_def S3_List_def s3_ok_def split: sum.splits)
  show "bl_List (S3Blobs K) p s = (Inr ks, s') \<Longrightarrow> set ks = {k \<in> dom (bucket s). has_prefix k p}"
    using ls b(2) by (auto simp: S3Blobs_def S3_List_def split: sum.splits)
qed


section \<open>Properties\<close>

text \<open>
  C25: the S3 wrapper takes any error whose text contains the digits 404 for a missing object.  The
  text of a transport error embeds the object key, and the keys of segments are made of
  millisecond timestamps, so an error on an existing object can read as "not found".
\<close>

theorem error_text_with_404_reads_as_missing:
  assumes "s3_Get K key c = (Inl (before @ ''404'' @ after), c1)"
  shows "S3_Get K key c = (Inl (NotFoundError key), c1)"
proof -
  have "isS3NotFound (before @ ''404'' @ after)"
    by (simp add: isS3NotFound_def contains_str_sublist) (metis append_Cons append_Nil sublist_appendI)
  with assms show ?thesis by (simp add: S3_Get_def)
qed

theorem error_text_with_404_reads_as_missing_witness:
  "S3_Get \<lparr>s3_Get = (\<lambda>k c. (Inl (''dial tcp: timeout: GET /b/'' @ ''404'' @ ''0-5.seg''), c)),
      s3_NewUpload = (\<lambda>k c. (Inr (), c)), s3_Stream = (\<lambda>u x n c. (None, c)), s3_Done = (\<lambda>u c. (None, c)),
      s3_List = (\<lambda>c. (Inr [], c)), s3_Delete = (\<lambda>k c. (None, c))\<rparr> ''4040-5.seg'' ()
    = (Inl (NotFoundError ''4040-5.seg''), ())"
  by (rule error_text_with_404_reads_as_missing
      [where before = "''dial tcp: timeout: GET /b/''" and after = "''0-5.seg''"]) simp

end
