(* ===== verification/DiskCache.thy ===== *)
theory DiskCache
  imports LogModel
begin

text \<open>
  The size-capped LRU of segment files, \<open>internal/store/cache.go\<close>.  The Go list with its index by
  id is the list of its items, most recently used first; the local file system, from which an
  eviction removes the file, is a map from paths to contents.
\<close>

type_synonym fs = "string \<rightharpoonup> string"

record cacheItem =
  ci_id :: string
  ci_path :: string
  ci_size :: int

record diskCache =
  dc_dir :: string
  dc_maxByte :: int
  dc_ll :: "cacheItem list"
  dc_curByt :: int

text \<open>\<open>mkdir\<close> is the outcome of \<open>os.MkdirAll\<close>.\<close>

definition newDiskCache :: "(string \<Rightarrow> go_error option) \<Rightarrow> string \<Rightarrow> int \<Rightarrow> go_error + diskCache" where
  "newDiskCache mkdir dir maxBytes =
     (case mkdir dir of
        Some e \<Rightarrow> Inl e
      | None \<Rightarrow> Inr \<lparr>dc_dir = dir, dc_maxByte = maxBytes, dc_ll = [], dc_curByt = 0\<rparr>)"

definition pathFor :: "diskCache \<Rightarrow> string \<Rightarrow> string" where
  "pathFor c k = dc_dir c @ ''/'' @ k @ ''.seg''"

definition cached :: "diskCache \<Rightarrow> string \<Rightarrow> cacheItem option" where
  "cached c k = List.find (\<lambda>it. ci_id it = k) (dc_ll c)"

text \<open>\<open>MoveToFront\<close> of the item with id \<open>k\<close>, with its current value \<open>it\<close>.\<close>

definition move_front :: "string \<Rightarrow> cacheItem \<Rightarrow> cacheItem list \<Rightarrow> cacheItem list" where
  "move_front k it ll = it # filter (\<lambda>x. ci_id x \<noteq> k) ll"

definition addLocked :: "string \<Rightarrow> int \<Rightarrow> diskCache \<Rightarrow> diskCache" where
  "addLocked k sz c =
     (case cached c k of
        Some it \<Rightarrow>
          c\<lparr>dc_curByt := dc_curByt c + (sz - ci_size it),
            dc_ll := move_front k (it\<lparr>ci_size := sz\<rparr>) (dc_ll c)\<rparr>
      | None \<Rightarrow>
          c\<lparr>dc_ll := \<lparr>ci_id = k, ci_path = pathFor c k, ci_size = sz\<rparr> # dc_ll c,
            dc_curByt := dc_curByt c + sz\<rparr>)"

function evictLocked :: "diskCache \<Rightarrow> fs \<Rightarrow> diskCache \<times> fs" where
  "evictLocked c F =
     (if dc_curByt c > dc_maxByte c \<and> dc_ll c \<noteq> [] then
        (let it = last (dc_ll c) in
         evictLocked (c\<lparr>dc_ll := butlast (dc_ll c), dc_curByt := dc_curByt c - ci_size it\<rparr>)
           (F(ci_path it := None)))
      else (c, F))"
  by pat_completeness auto
termination
  by (relation "measure (\<lambda>(c, F). length (dc_ll c))") auto

declare evictLocked.simps [simp del]

definition admit :: "string \<Rightarrow> int \<Rightarrow> diskCache \<Rightarrow> fs \<Rightarrow> diskCache \<times> fs" where
  "admit k sz c F = evictLocked (addLocked k sz c) F"

definition touch :: "string \<Rightarrow> diskCache \<Rightarrow> string option \<times> diskCache" where
  "touch k c =
     (case cached c k of
        None \<Rightarrow> (None, c)
      | Some it \<Rightarrow> (Some (ci_path it), c\<lparr>dc_ll := move_front k it (dc_ll c)\<rparr>))"

definition cache_remove :: "string \<Rightarrow> diskCache \<Rightarrow> fs \<Rightarrow> diskCache \<times> fs" where
  "cache_remove k c F =
     (case cached c k of
        Some it \<Rightarrow>
          (c\<lparr>dc_ll := filter (\<lambda>x. ci_id x \<noteq> k) (dc_ll c), dc_curByt := dc_curByt c - ci_size it\<rparr>,
           F(pathFor c k := None))
      | None \<Rightarrow> (c, F(pathFor c k := None)))"


section \<open>Invariant\<close>

text \<open>
  Ids are unique, every item has the path of its id, the byte count is the sum of the sizes, and no size is
  negative.
\<close>

definition total_size :: "cacheItem list \<Rightarrow> int" where
  "total_size ll = sum_list (map ci_size ll)"

definition cache_ok :: "diskCache \<Rightarrow> bool" where
  "cache_ok c \<longleftrightarrow> distinct (map ci_id (dc_ll c)) \<and> dc_curByt c = total_size (dc_ll c) \<and>
     (\<forall>it \<in> set (dc_ll c). ci_path it = pathFor c (ci_id it) \<and> 0 \<le> ci_size it)"

lemma total_simps [simp]:
  "total_size [] = 0" "total_size (it # ll) = ci_size it + total_size ll" "total_size (xs @ ys) = total_size xs + total_size ys"
  by (simp_all add: total_size_def)

lemma cached_SomeE:
  assumes "cached c k = Some it"
  obtains xs ys where "dc_ll c = xs @ it # ys" and "ci_id it = k"
proof -
  from assms obtain i where i: "i < length (dc_ll c)" "ci_id (dc_ll c ! i) = k" "it = dc_ll c ! i"
    by (auto simp: cached_def find_Some_iff)
  have "dc_ll c = take i (dc_ll c) @ it # drop (Suc i) (dc_ll c)"
    unfolding i(3) by (rule id_take_nth_drop [OF i(1)])
  then show ?thesis by (rule that) (simp add: i)
qed

lemma filter_others:
  assumes "distinct (map ci_id (xs @ it # ys))"
  shows "filter (\<lambda>x. ci_id x \<noteq> ci_id it) (xs @ it # ys) = xs @ ys"
proof -
  have f: "filter (\<lambda>x. ci_id x \<noteq> ci_id it) l = l" if "ci_id it \<notin> ci_id ` set l" for l
    using that by (induction l) auto
  show ?thesis using assms f [of xs] f [of ys] by simp
qed

lemma cached_None: "cached c k = None \<longleftrightarrow> k \<notin> ci_id ` set (dc_ll c)"
  by (auto simp: cached_def find_None_iff)

lemma move_front_split:
  assumes "distinct (map ci_id ll)" and "ll = xs @ it # ys" and "ci_id it = k"
  shows "move_front k it' ll = it' # xs @ ys"
  using assms filter_others [of xs it ys] by (simp add: move_front_def)

lemma cache_ok_new [inv_intros]: "newDiskCache mkdir dir n = Inr c \<Longrightarrow> cache_ok c"
  by (auto simp: cache_ok_def newDiskCache_def split: option.splits)

lemma pathFor_cong: "dc_dir c = dc_dir c' \<Longrightarrow> pathFor c k = pathFor c' k"
  by (simp add: pathFor_def)

lemma addLocked_ok [inv_intros]:
  assumes "cache_ok c" and "0 \<le> sz"
  shows "cache_ok (addLocked k sz c)"
proof (cases "cached c k")
  case None
  then have "k \<notin> ci_id ` set (dc_ll c)" by (simp add: cached_None)
  with None assms show ?thesis by (auto simp: addLocked_def cache_ok_def pathFor_def)
next
  case (Some it)
  then obtain xs ys where ll: "dc_ll c = xs @ it # ys" "ci_id it = k" by (rule cached_SomeE)
  with assms have "move_front k (it\<lparr>ci_size := sz\<rparr>) (dc_ll c) = it\<lparr>ci_size := sz\<rparr> # xs @ ys"
    by (intro move_front_split) (auto simp: cache_ok_def)
  with Some ll assms show ?thesis by (auto simp: addLocked_def cache_ok_def pathFor_def)
qed

lemma touch_ok [inv_intros]:
  assumes "cache_ok c"
  shows "cache_ok (snd (touch k c))"
proof (cases "cached c k")
  case None
  with assms show ?thesis by (simp add: touch_def)
next
  case (Some it)
  then obtain xs ys where ll: "dc_ll c = xs @ it # ys" "ci_id it = k" by (rule cached_SomeE)
  with assms have "move_front k it (dc_ll c) = it # xs @ ys"
    by (intro move_front_split) (auto simp: cache_ok_def)
  with Some ll assms show ?thesis by (auto simp: touch_def cache_ok_def pathFor_def)
qed

lemma cache_remove_ok [inv_intros]:
  assumes "cache_ok c"
  shows "cache_ok (fst (cache_remove k c F))"
proof (cases "cached c k")
  case None
  with assms show ?thesis by (simp add: cache_remove_def)
next
  case (Some it)
  then obtain xs ys where ll: "dc_ll c = xs @ it # ys" "ci_id it = k" by (rule cached_SomeE)
  with assms have "filter (\<lambda>x. ci_id x \<noteq> k) (dc_ll c) = xs @ ys"
    using filter_others [of xs it ys] by (auto simp: cache_ok_def)
  with Some ll assms show ?thesis by (auto simp: cache_remove_def cache_ok_def pathFor_def)
qed

text \<open>
  The eviction loop keeps the longest initial part of the recency order whose sizes fit, and
  removes the files of the rest.
\<close>

definition fits :: "int \<Rightarrow> cacheItem list \<Rightarrow> cacheItem list \<Rightarrow> bool" where
  "fits cap kept ll \<longleftrightarrow> prefix kept ll \<and> (kept = [] \<or> total_size kept \<le> cap) \<and>
     (\<forall>k'. prefix k' ll \<and> total_size k' \<le> cap \<longrightarrow> length k' \<le> length kept)"

lemma evictLocked_spec:
  assumes "cache_ok c"
  shows "\<exists>kept gone. dc_ll c = kept @ gone \<and> fits (dc_maxByte c) kept (dc_ll c) \<and>
    fst (evictLocked c F) = c\<lparr>dc_ll := kept, dc_curByt := total_size kept\<rparr> \<and>
    (\<forall>p. snd (evictLocked c F) p = (if p \<in> ci_path ` set gone then None else F p))"
  using assms
proof (induction c F rule: evictLocked.induct)
  case (1 c F)
  show ?case
  proof (cases "dc_curByt c > dc_maxByte c \<and> dc_ll c \<noteq> []")
    case False
    then have "evictLocked c F = (c, F)" by (subst evictLocked.simps) (simp only: if_False)
    moreover have "fits (dc_maxByte c) (dc_ll c) (dc_ll c)"
      using False "1.prems" by (auto simp: fits_def cache_ok_def prefix_length_le)
    moreover have "c = c\<lparr>dc_ll := dc_ll c, dc_curByt := total_size (dc_ll c)\<rparr>"
      using "1.prems" by (simp add: cache_ok_def)
    ultimately show ?thesis by (intro exI [of _ "dc_ll c"] exI [of _ "[]"]) simp
  next
    case True
    then obtain ys it where ll: "dc_ll c = ys @ [it]" by (metis rev_exhaust)
    let ?c = "c\<lparr>dc_ll := ys, dc_curByt := dc_curByt c - ci_size it\<rparr>"
    have ev: "evictLocked c F = evictLocked ?c (F(ci_path it := None))"
      using True ll by (subst evictLocked.simps) (simp add: Let_def)
    have ok: "cache_ok ?c" using "1.prems" ll by (auto simp: cache_ok_def pathFor_def)
    have "\<exists>kept gone. ys = kept @ gone \<and> fits (dc_maxByte c) kept ys \<and>
      fst (evictLocked ?c (F(ci_path it := None))) = c\<lparr>dc_ll := kept, dc_curByt := total_size kept\<rparr> \<and>
      (\<forall>p. snd (evictLocked ?c (F(ci_path it := None))) p =
        (if p \<in> ci_path ` set gone then None else (F(ci_path it := None)) p))"
      using "1.IH" [OF True refl] ok by (simp add: ll del: fun_upd_apply cong: if_cong)
    then obtain kept gone where k: "ys = kept @ gone" "fits (dc_maxByte c) kept ys"
      and e: "fst (evictLocked ?c (F(ci_path it := None))) = c\<lparr>dc_ll := kept, dc_curByt := total_size kept\<rparr>"
      "\<forall>p. snd (evictLocked ?c (F(ci_path it := None))) p =
        (if p \<in> ci_path ` set gone then None else (F(ci_path it := None)) p)"
      by blast
    have "fits (dc_maxByte c) kept (dc_ll c)"
    proof -
      from True "1.prems" have "\<not> total_size (dc_ll c) \<le> dc_maxByte c" by (simp add: cache_ok_def)
      then have "length k' \<le> length kept" if "prefix k' (dc_ll c)" "total_size k' \<le> dc_maxByte c" for k'
        using that k(2) ll prefix_snoc [of k' ys it] unfolding fits_def by metis
      then show ?thesis using k(2) unfolding fits_def ll by (metis prefix_append)
    qed
    with k e ll show ?thesis
      unfolding ev by (intro exI [of _ kept] exI [of _ "gone @ [it]"]) simp
  qed
qed


lemma evict_ok:
  assumes "cache_ok c"
  shows "cache_ok (fst (evictLocked c F))"
proof -
  from evictLocked_spec [OF assms, of F] obtain kept gone where "dc_ll c = kept @ gone"
    "fst (evictLocked c F) = c\<lparr>dc_ll := kept, dc_curByt := total_size kept\<rparr>" by blast
  with assms show ?thesis by (auto simp: cache_ok_def pathFor_def)
qed

lemma admit_ok [inv_intros]: "cache_ok c \<Longrightarrow> 0 \<le> sz \<Longrightarrow> cache_ok (fst (admit k sz c F))"
  by (simp add: admit_def evict_ok addLocked_ok)

text \<open>The recency order after an access, and its head.\<close>

lemma addLocked_front:
  "\<exists>it. dc_ll (addLocked k sz c) = it # filter (\<lambda>x. ci_id x \<noteq> k) (dc_ll c) \<and> ci_id it = k \<and> ci_size it = sz"
proof (cases "cached c k")
  case None
  then have "filter (\<lambda>x. ci_id x \<noteq> k) (dc_ll c) = dc_ll c" by (auto simp: cached_None filter_id_conv)
  with None show ?thesis by (simp add: addLocked_def)
next
  case (Some it)
  then have "ci_id it = k" by (auto elim: cached_SomeE)
  with Some show ?thesis by (simp add: addLocked_def move_front_def)
qed

lemma dc_const [simp]:
  "dc_maxByte (addLocked k sz c) = dc_maxByte c" "dc_dir (addLocked k sz c) = dc_dir c"
  by (simp_all add: addLocked_def split: option.split)

lemma admit_dir [simp]: "cache_ok c \<Longrightarrow> 0 \<le> sz \<Longrightarrow> dc_dir (fst (admit k sz c F)) = dc_dir c"
  using evictLocked_spec [OF addLocked_ok, of c sz k F] by (auto simp: admit_def)

lemma touch_dir [simp]: "dc_dir (snd (touch k c)) = dc_dir c"
  by (simp add: touch_def split: option.split)

lemma touch_path: "cache_ok c \<Longrightarrow> fst (touch k c) = Some p \<Longrightarrow> p = pathFor c k"
  by (auto simp: touch_def cache_ok_def split: option.splits elim!: cached_SomeE)


text \<open>
  What \<open>admit\<close> does to the files: it removes some, the file of the admitted entry only when the
  entry alone exceeds the cap.
\<close>

lemma pathFor_inj: "pathFor c i = pathFor c j \<longleftrightarrow> i = j"
  by (simp add: pathFor_def)

lemma admit_spec:
  assumes "cache_ok c" and "0 \<le> sz"
  shows "\<exists>gone. dc_ll (addLocked k sz c) = dc_ll (fst (admit k sz c F)) @ gone \<and>
    fits (dc_maxByte c) (dc_ll (fst (admit k sz c F))) (dc_ll (addLocked k sz c)) \<and>
    (\<forall>p. snd (admit k sz c F) p = (if p \<in> ci_path ` set gone then None else F p))"
  using evictLocked_spec [OF addLocked_ok [OF assms, of k], of F] by (auto simp: admit_def)

lemma addLocked_paths:
  "cache_ok c \<Longrightarrow> 0 \<le> sz \<Longrightarrow> it \<in> set (dc_ll (addLocked k sz c)) \<Longrightarrow> ci_path it = pathFor c (ci_id it)"
  using addLocked_ok [of c sz k] by (simp add: cache_ok_def pathFor_def)

lemma admit_removes: "cache_ok c \<Longrightarrow> 0 \<le> sz \<Longrightarrow> snd (admit k sz c F) p = Some x \<Longrightarrow> F p = Some x"
  using admit_spec [of c sz k F] by (metis option.distinct(1))

lemma admit_keeps:
  assumes c: "cache_ok c" "0 \<le> sz" and cap: "sz \<le> dc_maxByte c"
  shows "snd (admit k sz c F) (pathFor c k) = F (pathFor c k)"
proof -
  obtain it where it: "dc_ll (addLocked k sz c) = it # filter (\<lambda>x. ci_id x \<noteq> k) (dc_ll c)"
    "ci_id it = k" "ci_size it = sz" using addLocked_front by blast
  obtain gone where g: "dc_ll (addLocked k sz c) = dc_ll (fst (admit k sz c F)) @ gone"
    "fits (dc_maxByte c) (dc_ll (fst (admit k sz c F))) (dc_ll (addLocked k sz c))"
    "\<forall>p. snd (admit k sz c F) p = (if p \<in> ci_path ` set gone then None else F p)"
    using admit_spec [OF c] by blast
  have "prefix [it] (dc_ll (addLocked k sz c))" and "total_size [it] \<le> dc_maxByte c"
    using it cap by simp_all
  then have "length [it] \<le> length (dc_ll (fst (admit k sz c F)))" using g(2) unfolding fits_def by blast
  then obtain kept where "dc_ll (fst (admit k sz c F)) = it # kept"
    using g(1) it(1) by (cases "dc_ll (fst (admit k sz c F))") auto
  then have "set gone \<subseteq> set (filter (\<lambda>x. ci_id x \<noteq> k) (dc_ll c))" using g(1) it(1) by auto
  then have "pathFor c k \<notin> ci_path ` set gone"
    using c(1) by (auto simp: cache_ok_def pathFor_inj)
  with g(3) show ?thesis by simp
qed

text \<open>An entry larger than the cap is evicted by its own admission, with everything else.\<close>

lemma admit_oversized:
  assumes c: "cache_ok c" and cap: "0 \<le> dc_maxByte c" "dc_maxByte c < sz"
  shows "dc_ll (fst (admit k sz c F)) = []" and "snd (admit k sz c F) (pathFor c k) = None"
proof -
  have sz: "0 \<le> sz" using cap by simp
  obtain it where it: "dc_ll (addLocked k sz c) = it # filter (\<lambda>x. ci_id x \<noteq> k) (dc_ll c)"
    "ci_id it = k" "ci_size it = sz" using addLocked_front by blast
  obtain gone where g: "dc_ll (addLocked k sz c) = dc_ll (fst (admit k sz c F)) @ gone"
    "fits (dc_maxByte c) (dc_ll (fst (admit k sz c F))) (dc_ll (addLocked k sz c))"
    "\<forall>p. snd (admit k sz c F) p = (if p \<in> ci_path ` set gone then None else F p)"
    using admit_spec [OF c sz] by blast
  have nn: "0 \<le> total_size l" if "set l \<subseteq> set (filter (\<lambda>x. ci_id x \<noteq> k) (dc_ll c))" for l
    using that c by (induction l) (auto simp: cache_ok_def)
  show nil: "dc_ll (fst (admit k sz c F)) = []"
  proof (rule ccontr)
    assume ne: "dc_ll (fst (admit k sz c F)) \<noteq> []"
    with g(1) it(1) obtain kept where k: "dc_ll (fst (admit k sz c F)) = it # kept"
      by (cases "dc_ll (fst (admit k sz c F))") auto
    with g(2) ne have "sz + total_size kept \<le> dc_maxByte c" by (simp add: fits_def it(3))
    moreover have "0 \<le> total_size kept" using g(1) it(1) k by (intro nn) auto
    ultimately show False using cap by simp
  qed
  have "ci_path it = pathFor c k" using addLocked_paths [OF c sz, of it k] it by simp
  with g(1,3) nil it show "snd (admit k sz c F) (pathFor c k) = None" by force
qed


section \<open>Properties\<close>

text \<open>
  C16: the cache is an LRU within its cap.  \<open>admit\<close> puts the entry at the front of the recency
  order and keeps the longest initial part of that order that fits the cap; what it keeps fits,
  the files of everything else are removed and no other file is touched.
\<close>

theorem admit_keeps_most_recent:
  assumes "cache_ok c" and "0 \<le> sz" and "0 \<le> dc_maxByte c"
  shows "\<exists>it gone. let order = it # filter (\<lambda>x. ci_id x \<noteq> k) (dc_ll c); c' = fst (admit k sz c F) in
    ci_id it = k \<and> ci_size it = sz \<and> order = dc_ll c' @ gone \<and>
    (\<forall>ll. prefix ll order \<and> total_size ll \<le> dc_maxByte c \<longrightarrow> length ll \<le> length (dc_ll c')) \<and>
    dc_curByt c' = total_size (dc_ll c') \<and> dc_curByt c' \<le> dc_maxByte c \<and>
    (\<forall>p. snd (admit k sz c F) p = (if p \<in> ci_path ` set gone then None else F p))"
proof -
  obtain it where it: "dc_ll (addLocked k sz c) = it # filter (\<lambda>x. ci_id x \<noteq> k) (dc_ll c)"
    "ci_id it = k" "ci_size it = sz" using addLocked_front by blast
  from evictLocked_spec [OF addLocked_ok [OF assms(1,2)], of k F] obtain kept gone where
    k: "dc_ll (addLocked k sz c) = kept @ gone" "fits (dc_maxByte c) kept (dc_ll (addLocked k sz c))"
    "fst (admit k sz c F) = (addLocked k sz c)\<lparr>dc_ll := kept, dc_curByt := total_size kept\<rparr>"
    "\<forall>p. snd (admit k sz c F) p = (if p \<in> ci_path ` set gone then None else F p)"
    unfolding admit_def by auto
  from k(2) assms(3) have "total_size kept \<le> dc_maxByte c" by (auto simp: fits_def)
  with it k show ?thesis
    by (intro exI [of _ it] exI [of _ gone]) (auto simp: Let_def fits_def)
qed

theorem admit_keeps_most_recent_witness:
  "\<exists>it gone. let c = \<lparr>dc_dir = ''/c'', dc_maxByte = 10,
        dc_ll = [\<lparr>ci_id = ''b'', ci_path = ''/c/b.seg'', ci_size = 8\<rparr>], dc_curByt = 8\<rparr>;
      order = it # filter (\<lambda>x. ci_id x \<noteq> ''a'') (dc_ll c);
      c' = fst (admit ''a'' 4 c Map.empty) in
    ci_id it = ''a'' \<and> ci_size it = 4 \<and> order = dc_ll c' @ gone"
proof -
  let ?c = "\<lparr>dc_dir = ''/c'', dc_maxByte = 10,
        dc_ll = [\<lparr>ci_id = ''b'', ci_path = ''/c/b.seg'', ci_size = 8\<rparr>], dc_curByt = 8\<rparr>"
  have "cache_ok ?c" by (simp add: cache_ok_def total_size_def pathFor_def)
  from admit_keeps_most_recent [OF this, of 4 "''a''" Map.empty]
  show ?thesis unfolding Let_def by fastforce
qed

end
