(* ===== verification/QueryParser.thy ===== *)
theory QueryParser
  imports QueryEval
begin

text \<open>
  The recursive-descent parser of \<open>internal/query/parser.go\<close>.  A parser is a lexer and the current
  token.  The methods \<open>parseOr\<close>, \<open>parseAnd\<close>, \<open>parseNot\<close> and \<open>parsePrimary\<close> call one another
  and loop; they are defined by recursion on a bound, and \<open>Parse\<close> supplies a bound that is
  proved sufficient for every input (\<open>Parse_never_out_of_fuel\<close>).  The specification is the
  grammar of the package comment as inductive relations on token lists; \<open>Parse\<close> succeeds
  exactly on the sentences of that grammar, with the tree the grammar assigns.
\<close>


section \<open>The parser\<close>

record parser =
  p_lex :: lexer
  p_cur :: token

definition advance :: "runtime \<Rightarrow> parser \<Rightarrow> query_error + parser" where
  "advance rt p =
     rbind (next_tok rt (p_lex p)) (\<lambda>(t, l). Inr \<lparr>p_lex = l, p_cur = t\<rparr>)"

abbreviation cur_kind :: "parser \<Rightarrow> tokKind" where
  "cur_kind p \<equiv> tk_kind (p_cur p)"

abbreviation cur_pos :: "parser \<Rightarrow> nat" where
  "cur_pos p \<equiv> tk_pos (p_cur p)"

definition classifyField :: "string list \<Rightarrow> fieldRef" where
  "classifyField parts =
     (let head = hd parts in
      if has_prefix head ''_'' then \<lparr>f_Kind = fEnvelope, f_Name = head, f_Path = []\<rparr>
      else if head = ''label'' \<and> 2 \<le> length parts then
        \<lparr>f_Kind = fLabel, f_Name = join ''.'' (tl parts), f_Path = []\<rparr>
      else if head = ''annotation'' \<and> 2 \<le> length parts then
        \<lparr>f_Kind = fAnnotation, f_Name = join ''.'' (tl parts), f_Path = []\<rparr>
      else if head = ''body'' \<and> 2 \<le> length parts then
        \<lparr>f_Kind = fBody, f_Name = [], f_Path = tl parts\<rparr>
      else \<lparr>f_Kind = fBody, f_Name = [], f_Path = parts\<rparr>)"

definition literalValue :: "runtime \<Rightarrow> token \<Rightarrow> query_error + go_value" where
  "literalValue rt t =
     (case tk_kind t of
        tString \<Rightarrow> Inr (string_value (tk_text t))
      | tNumber \<Rightarrow>
          (case parse_float rt (tk_text t) of
             None \<Rightarrow> Inl (BadNumber (tk_text t) (tk_pos t))
           | Some f \<Rightarrow> Inr (number_value f))
      | tBool \<Rightarrow> Inr (bool_value (tk_text t = ''true''))
      | tRegex \<Rightarrow> Inl (RegexOnlyWithRe (tk_pos t))
      | _ \<Rightarrow> Inl (ExpectedValue (tk_pos t)))"

text \<open>The node \<open>parseComparison\<close> builds from a field, an operator and the literal's token.\<close>

definition comparison :: "runtime \<Rightarrow> fieldRef \<Rightarrow> Op \<Rightarrow> token \<Rightarrow> query_error + node" where
  "comparison rt f p lit =
     (if p = OpRe \<or> p = OpNre then
        (if tk_kind lit \<noteq> tRegex \<and> tk_kind lit \<noteq> tString then Inl (ReRequiresRegex (tk_pos lit))
         else
           (case regexp_compile rt (tk_text lit) of
              None \<Rightarrow> Inl (BadRegex (tk_pos lit))
            | Some re \<Rightarrow> Inr (CmpNode f p null_value (Some re))))
      else
        rbind (literalValue rt lit) (\<lambda>v.
          if p = OpContains \<and> v_Kind v \<noteq> kindString
          then Inr (CmpNode f p (string_value (str rt v)) None)
          else Inr (CmpNode f p v None)))"

definition parseComparison :: "runtime \<Rightarrow> fieldRef \<Rightarrow> Op \<Rightarrow> parser \<Rightarrow> query_error + node \<times> parser" where
  "parseComparison rt f p ps =
     (let lit = p_cur ps in
      rbind (advance rt ps) (\<lambda>ps'. rbind (comparison rt f p lit) (\<lambda>n. Inr (n, ps'))))"

text \<open>
  The bytes not yet read, plus one while the current token is not an identifier, a literal or
  the end: what every loop iteration and every nested call of the parser decreases.
\<close>

definition psize :: "parser \<Rightarrow> nat" where
  "psize p = 2 * length (lx_rest (p_lex p)) + (if cur_kind p \<in> {tEOF, tIdent} then 0 else 1)"

lemma advance_psize:
  assumes "advance rt p = Inr q"
  shows "cur_kind p \<notin> {tEOF, tIdent} \<Longrightarrow> psize q < psize p" and "psize q \<le> psize p"
proof -
  from assms obtain t l where nt: "next_tok rt (p_lex p) = Inr (t, l)"
    and q: "q = \<lparr>p_lex = l, p_cur = t\<rparr>"
    by (auto simp: advance_def)
  note le = next_tok_len [OF nt]
  have "psize q \<le> 2 * length (lx_rest (p_lex p))"
    using le q by (fastforce simp: psize_def)
  then show "cur_kind p \<notin> {tEOF, tIdent} \<Longrightarrow> psize q < psize p" and "psize q \<le> psize p"
    by (auto simp: psize_def)
qed

text \<open>The loop of \<open>parseField\<close>.\<close>

function field_loop :: "runtime \<Rightarrow> string list \<Rightarrow> parser \<Rightarrow> query_error + fieldRef \<times> parser" where
  "field_loop rt parts p =
     (if cur_kind p = tDot then
        rbind (advance rt p) (\<lambda>p1.
          if cur_kind p1 \<noteq> tIdent then Inl (ExpectedIdentAfterDot (cur_pos p1))
          else rbind (advance rt p1) (\<lambda>p2. field_loop rt (parts @ [tk_text (p_cur p1)]) p2))
      else if cur_kind p = tLBrack then
        rbind (advance rt p) (\<lambda>p1.
          if cur_kind p1 \<noteq> tString then Inl (ExpectedStringKey (cur_pos p1))
          else rbind (advance rt p1) (\<lambda>p2.
            if cur_kind p2 \<noteq> tRBrack then Inl (ExpectedRBrack (cur_pos p2))
            else rbind (advance rt p2) (\<lambda>p3. field_loop rt (parts @ [tk_text (p_cur p1)]) p3)))
      else Inr (classifyField parts, p))"
  by pat_completeness auto
termination
proof (relation "measure (\<lambda>(rt, parts, p). psize p)", goal_cases)
  case (2 rt parts p p1 p2)
  with advance_psize(1) [of rt p p1] advance_psize(2) [of rt p1 p2] show ?case by simp
next
  case (3 rt parts p p1 p2 p3)
  with advance_psize(1) [of rt p p1] advance_psize(2) [of rt p1 p2] advance_psize(2) [of rt p2 p3]
  show ?case by simp
qed simp

declare field_loop.simps [simp del]

definition parseField :: "runtime \<Rightarrow> parser \<Rightarrow> query_error + fieldRef \<times> parser" where
  "parseField rt p =
     rbind (advance rt p) (\<lambda>p1. field_loop rt [tk_text (p_cur p)] p1)"

text \<open>The part of \<open>parsePrimary\<close> after a field: a comparison, or an existence test.\<close>

definition parse_after_field :: "runtime \<Rightarrow> fieldRef \<Rightarrow> parser \<Rightarrow> query_error + node \<times> parser" where
  "parse_after_field rt f p =
     (if cur_kind p \<noteq> tOp then Inr (ExistsNode f, p)
      else rbind (advance rt p) (\<lambda>p1. parseComparison rt f (tk_op (p_cur p)) p1))"

fun parseOr :: "nat \<Rightarrow> runtime \<Rightarrow> parser \<Rightarrow> query_error + node \<times> parser"
  and or_loop :: "nat \<Rightarrow> runtime \<Rightarrow> node \<Rightarrow> parser \<Rightarrow> query_error + node \<times> parser"
  and parseAnd :: "nat \<Rightarrow> runtime \<Rightarrow> parser \<Rightarrow> query_error + node \<times> parser"
  and and_loop :: "nat \<Rightarrow> runtime \<Rightarrow> node \<Rightarrow> parser \<Rightarrow> query_error + node \<times> parser"
  and parseNot :: "nat \<Rightarrow> runtime \<Rightarrow> parser \<Rightarrow> query_error + node \<times> parser"
  and parsePrimary :: "nat \<Rightarrow> runtime \<Rightarrow> parser \<Rightarrow> query_error + node \<times> parser" where
  "parseOr 0 rt p = Inl ErrFuel"
| "parseOr (Suc k) rt p = rbind (parseAnd k rt p) (\<lambda>(left, p1). or_loop k rt left p1)"
| "or_loop 0 rt left p = Inl ErrFuel"
| "or_loop (Suc k) rt left p =
     (if cur_kind p = tOr then
        rbind (advance rt p) (\<lambda>p1.
          rbind (parseAnd k rt p1) (\<lambda>(right, p2). or_loop k rt (OrNode left right) p2))
      else Inr (left, p))"
| "parseAnd 0 rt p = Inl ErrFuel"
| "parseAnd (Suc k) rt p = rbind (parseNot k rt p) (\<lambda>(left, p1). and_loop k rt left p1)"
| "and_loop 0 rt left p = Inl ErrFuel"
| "and_loop (Suc k) rt left p =
     (if cur_kind p = tAnd then
        rbind (advance rt p) (\<lambda>p1.
          rbind (parseNot k rt p1) (\<lambda>(right, p2). and_loop k rt (AndNode left right) p2))
      else Inr (left, p))"
| "parseNot 0 rt p = Inl ErrFuel"
| "parseNot (Suc k) rt p =
     (if cur_kind p = tNot then
        rbind (advance rt p) (\<lambda>p1. rbind (parseNot k rt p1) (\<lambda>(x, p2). Inr (NotNode x, p2)))
      else parsePrimary k rt p)"
| "parsePrimary 0 rt p = Inl ErrFuel"
| "parsePrimary (Suc k) rt p =
     (if cur_kind p = tLParen then
        rbind (advance rt p) (\<lambda>p1.
          rbind (parseOr k rt p1) (\<lambda>(n, p2).
            if cur_kind p2 \<noteq> tRParen then Inl (ExpectedRParen (cur_pos p2))
            else rbind (advance rt p2) (\<lambda>p3. Inr (n, p3))))
      else if cur_kind p \<noteq> tIdent then Inl (ExpectedField (cur_pos p))
      else rbind (parseField rt p) (\<lambda>(f, p1). parse_after_field rt f p1))"

text \<open>The bound for a parser state: four calls per unit of \<open>psize\<close>.\<close>

definition parse_bound :: "parser \<Rightarrow> nat" where
  "parse_bound p = 4 * psize p + 4"

definition Parse :: "runtime \<Rightarrow> string \<Rightarrow> query_error + node" where
  "Parse rt expr =
     (if trim_space expr = [] then Inr matchAll
      else
        rbind (advance rt \<lparr>p_lex = \<lparr>lx_src = expr, lx_pos = 0\<rparr>, p_cur = plain_tok tEOF 0\<rparr>) (\<lambda>p.
          rbind (parseOr (parse_bound p) rt p) (\<lambda>(n, p1).
            if cur_kind p1 \<noteq> tEOF then Inl (UnexpectedToken (cur_pos p1)) else Inr n)))"


section \<open>The grammar\<close>

text \<open>\<open>toks rt p ts q\<close>: the tokens \<open>ts\<close>, the first of them current in \<open>p\<close>, lead to \<open>q\<close>.\<close>

inductive toks :: "runtime \<Rightarrow> parser \<Rightarrow> token list \<Rightarrow> parser \<Rightarrow> bool" for rt where
  toks_nil [intro!]: "toks rt p [] p"
| toks_step: "advance rt p = Inr q \<Longrightarrow> toks rt q ts r \<Longrightarrow> t = p_cur p \<Longrightarrow> toks rt p (t # ts) r"

inductive_cases toks_ConsE: "toks rt p (t # ts) r"

inductive_simps toks_Nil_iff [simp]: "toks rt p [] q"

lemma toks_append: "toks rt p ts q \<Longrightarrow> toks rt q us r \<Longrightarrow> toks rt p (ts @ us) r"
  by (induction rule: toks.induct) (auto intro: toks_step)

lemma toks_appendE:
  "toks rt p (ts @ us) r \<Longrightarrow> \<exists>q. toks rt p ts q \<and> toks rt q us r"
  by (induction ts arbitrary: p) (auto elim!: toks_ConsE, blast intro: toks_step)

lemma toks_one: "advance rt p = Inr q \<Longrightarrow> toks rt p [p_cur p] q"
  by (auto intro: toks_step)

lemma toks_psize: "toks rt p ts q \<Longrightarrow> psize q \<le> psize p"
  by (induction rule: toks.induct) (auto dest: advance_psize(2))

text \<open>\<open>field := IDENT ("." IDENT | "[" STRING "]")*\<close>, with the parts it names.\<close>

inductive g_path :: "token list \<Rightarrow> string list \<Rightarrow> bool" where
  path_nil: "g_path [] []"
| path_dot: "tk_kind d = tDot \<Longrightarrow> tk_kind i = tIdent \<Longrightarrow> g_path ts ps \<Longrightarrow>
    g_path (d # i # ts) (tk_text i # ps)"
| path_key: "tk_kind b = tLBrack \<Longrightarrow> tk_kind s = tString \<Longrightarrow> tk_kind c = tRBrack \<Longrightarrow> g_path ts ps \<Longrightarrow>
    g_path (b # s # c # ts) (tk_text s # ps)"

definition g_field :: "token list \<Rightarrow> fieldRef \<Rightarrow> bool" where
  "g_field ts f \<longleftrightarrow>
     (\<exists>i us ps. ts = i # us \<and> tk_kind i = tIdent \<and> g_path us ps \<and> f = classifyField (tk_text i # ps))"

text \<open>
  \<open>orExpr := andExpr ("or" andExpr)*\<close>, \<open>andExpr := notExpr ("and" notExpr)*\<close>,
  \<open>notExpr := "not" notExpr | primary\<close>, \<open>primary := "(" expr ")" | field op value | field\<close>;
  both binary operators associate to the left.
\<close>

inductive g_or :: "runtime \<Rightarrow> token list \<Rightarrow> node \<Rightarrow> bool"
  and g_and :: "runtime \<Rightarrow> token list \<Rightarrow> node \<Rightarrow> bool"
  and g_not :: "runtime \<Rightarrow> token list \<Rightarrow> node \<Rightarrow> bool"
  and g_prim :: "runtime \<Rightarrow> token list \<Rightarrow> node \<Rightarrow> bool" for rt where
  or_one: "g_and rt ts n \<Longrightarrow> g_or rt ts n"
| or_more: "g_or rt ts a \<Longrightarrow> tk_kind t = tOr \<Longrightarrow> g_and rt us b \<Longrightarrow> g_or rt (ts @ t # us) (OrNode a b)"
| and_one: "g_not rt ts n \<Longrightarrow> g_and rt ts n"
| and_more: "g_and rt ts a \<Longrightarrow> tk_kind t = tAnd \<Longrightarrow> g_not rt us b \<Longrightarrow>
    g_and rt (ts @ t # us) (AndNode a b)"
| not_not: "tk_kind t = tNot \<Longrightarrow> g_not rt ts n \<Longrightarrow> g_not rt (t # ts) (NotNode n)"
| not_prim: "g_prim rt ts n \<Longrightarrow> g_not rt ts n"
| prim_paren: "tk_kind l = tLParen \<Longrightarrow> g_or rt ts n \<Longrightarrow> tk_kind r = tRParen \<Longrightarrow>
    g_prim rt (l # ts @ [r]) n"
| prim_cmp: "g_field ts f \<Longrightarrow> tk_kind t = tOp \<Longrightarrow> comparison rt f (tk_op t) lit = Inr n \<Longrightarrow>
    g_prim rt (ts @ [t, lit]) n"
| prim_exists: "g_field ts f \<Longrightarrow> g_prim rt ts (ExistsNode f)"


section \<open>Soundness: what the parser accepts is a sentence\<close>

lemma field_loop_sound:
  "field_loop rt parts p = Inr (f, q) \<Longrightarrow>
    \<exists>ts ps. toks rt p ts q \<and> g_path ts ps \<and> f = classifyField (parts @ ps)"
proof (induction rt parts p rule: field_loop.induct)
  case (1 rt parts p)
  consider (dot) "cur_kind p = tDot" | (key) "cur_kind p = tLBrack"
    | (other) "cur_kind p \<noteq> tDot" "cur_kind p \<noteq> tLBrack" by blast
  then show ?case
  proof cases
    case dot
    with "1.prems" obtain p1 p2 where adv: "advance rt p = Inr p1" "advance rt p1 = Inr p2"
      and k: "cur_kind p1 = tIdent"
      and rec: "field_loop rt (parts @ [tk_text (p_cur p1)]) p2 = Inr (f, q)"
      by (auto simp: field_loop.simps [of rt parts p] split: if_split_asm)
    from "1.IH"(1) [OF dot adv(1) _ adv(2) rec] k obtain ts ps where
      "toks rt p2 ts q" "g_path ts ps" "f = classifyField (parts @ tk_text (p_cur p1) # ps)"
      by auto
    with adv k dot show ?thesis
      by (intro exI [of _ "p_cur p # p_cur p1 # ts"] exI [of _ "tk_text (p_cur p1) # ps"])
        (auto intro!: toks_step path_dot)
  next
    case key
    with "1.prems" obtain p1 p2 p3 where
      adv: "advance rt p = Inr p1" "advance rt p1 = Inr p2" "advance rt p2 = Inr p3"
      and k: "cur_kind p1 = tString" "cur_kind p2 = tRBrack"
      and rec: "field_loop rt (parts @ [tk_text (p_cur p1)]) p3 = Inr (f, q)"
      by (auto simp: field_loop.simps [of rt parts p] split: if_split_asm)
    from "1.IH"(2) [OF _ key adv(1) _ adv(2) _ adv(3) rec] k key obtain ts ps where
      "toks rt p3 ts q" "g_path ts ps" "f = classifyField (parts @ tk_text (p_cur p1) # ps)"
      by auto
    with adv k key show ?thesis
      by (intro exI [of _ "p_cur p # p_cur p1 # p_cur p2 # ts"]
          exI [of _ "tk_text (p_cur p1) # ps"])
        (auto intro!: toks_step path_key)
  next
    case other
    with "1.prems" have "f = classifyField parts" "q = p"
      by (auto simp: field_loop.simps [of rt parts p])
    then show ?thesis by (intro exI [of _ "[]"]) (auto intro: path_nil)
  qed
qed

lemma parseField_sound:
  assumes "parseField rt p = Inr (f, q)" and "cur_kind p = tIdent"
  shows "\<exists>ts. toks rt p ts q \<and> g_field ts f"
proof -
  from assms(1) obtain p1 where adv: "advance rt p = Inr p1"
    and fl: "field_loop rt [tk_text (p_cur p)] p1 = Inr (f, q)"
    by (auto simp: parseField_def)
  from field_loop_sound [OF fl] obtain ts ps where
    "toks rt p1 ts q" "g_path ts ps" "f = classifyField (tk_text (p_cur p) # ps)"
    by auto
  with adv assms(2) show ?thesis
    by (intro exI [of _ "p_cur p # ts"]) (auto simp: g_field_def intro: toks_step)
qed

lemma parse_after_field_sound:
  assumes "parse_after_field rt f p = Inr (n, q)" and "g_field us f"
  shows "\<exists>ts. toks rt p ts q \<and> g_prim rt (us @ ts) n"
proof (cases "cur_kind p = tOp")
  case True
  with assms(1) obtain p1 where "advance rt p = Inr p1" "advance rt p1 = Inr q"
    "comparison rt f (tk_op (p_cur p)) (p_cur p1) = Inr n"
    by (auto simp: parse_after_field_def parseComparison_def Let_def)
  with True assms(2) show ?thesis
    by (intro exI [of _ "[p_cur p, p_cur p1]"]) (auto intro: toks_step prim_cmp)
next
  case False
  with assms show ?thesis
    by (intro exI [of _ "[]"]) (auto simp: parse_after_field_def intro: prim_exists)
qed

lemma parse_sound:
  "parseOr k rt p = Inr (n, q) \<Longrightarrow> \<exists>ts. toks rt p ts q \<and> g_or rt ts n"
  "or_loop k rt left p = Inr (n, q) \<Longrightarrow>
    \<forall>us. g_or rt us left \<longrightarrow> (\<exists>ts. toks rt p ts q \<and> g_or rt (us @ ts) n)"
  "parseAnd k rt p = Inr (n, q) \<Longrightarrow> \<exists>ts. toks rt p ts q \<and> g_and rt ts n"
  "and_loop k rt left p = Inr (n, q) \<Longrightarrow>
    \<forall>us. g_and rt us left \<longrightarrow> (\<exists>ts. toks rt p ts q \<and> g_and rt (us @ ts) n)"
  "parseNot k rt p = Inr (n, q) \<Longrightarrow> \<exists>ts. toks rt p ts q \<and> g_not rt ts n"
  "parsePrimary k rt p = Inr (n, q) \<Longrightarrow> \<exists>ts. toks rt p ts q \<and> g_prim rt ts n"
proof (induction k rt p and k rt left p and k rt p and k rt left p and k rt p and k rt p
    arbitrary: n q and n q and n q and n q and n q and n q
    rule: parseOr_or_loop_parseAnd_and_loop_parseNot_parsePrimary.induct)
  case (2 k rt p)
  from "2.prems" obtain a p1 where "parseAnd k rt p = Inr (a, p1)" "or_loop k rt a p1 = Inr (n, q)"
    by auto
  with "2.IH" show ?case by (metis or_one toks_append)
next
  case (4 k rt left p)
  show ?case
  proof (cases "cur_kind p = tOr")
    case True
    with "4.prems" obtain p1 b p2 where s: "advance rt p = Inr p1" "parseAnd k rt p1 = Inr (b, p2)"
      "or_loop k rt (OrNode left b) p2 = Inr (n, q)"
      by auto
    with "4.IH"(1) [OF True s(1,2)] obtain ts where ts: "toks rt p1 ts p2" "g_and rt ts b" by blast
    show ?thesis
    proof (intro allI impI)
      fix us assume "g_or rt us left"
      with True ts(2) have "g_or rt (us @ p_cur p # ts) (OrNode left b)" by (rule_tac or_more)
      with "4.IH"(2) [OF True s(1,2) refl s(3)] obtain vs where
        "toks rt p2 vs q" "g_or rt ((us @ p_cur p # ts) @ vs) n" by blast
      with s(1) ts(1) show "\<exists>ts. toks rt p ts q \<and> g_or rt (us @ ts) n"
        by (intro exI [of _ "p_cur p # ts @ vs"]) (auto intro: toks_step toks_append)
    qed
  next
    case False
    with "4.prems" show ?thesis by (auto intro!: exI [of _ "[]"])
  qed
next
  case (6 k rt p)
  from "6.prems" obtain a p1 where "parseNot k rt p = Inr (a, p1)" "and_loop k rt a p1 = Inr (n, q)"
    by auto
  with "6.IH" show ?case by (metis and_one toks_append)
next
  case (8 k rt left p)
  show ?case
  proof (cases "cur_kind p = tAnd")
    case True
    with "8.prems" obtain p1 b p2 where s: "advance rt p = Inr p1" "parseNot k rt p1 = Inr (b, p2)"
      "and_loop k rt (AndNode left b) p2 = Inr (n, q)"
      by auto
    with "8.IH"(1) [OF True s(1,2)] obtain ts where ts: "toks rt p1 ts p2" "g_not rt ts b" by blast
    show ?thesis
    proof (intro allI impI)
      fix us assume "g_and rt us left"
      with True ts(2) have "g_and rt (us @ p_cur p # ts) (AndNode left b)" by (rule_tac and_more)
      with "8.IH"(2) [OF True s(1,2) refl s(3)] obtain vs where
        "toks rt p2 vs q" "g_and rt ((us @ p_cur p # ts) @ vs) n" by blast
      with s(1) ts(1) show "\<exists>ts. toks rt p ts q \<and> g_and rt (us @ ts) n"
        by (intro exI [of _ "p_cur p # ts @ vs"]) (auto intro: toks_step toks_append)
    qed
  next
    case False
    with "8.prems" show ?thesis by (auto intro!: exI [of _ "[]"])
  qed
next
  case (10 k rt p)
  show ?case
  proof (cases "cur_kind p = tNot")
    case True
    with "10.prems" obtain p1 x where s: "advance rt p = Inr p1" "parseNot k rt p1 = Inr (x, q)"
      "n = NotNode x" by auto
    with "10.IH"(1) [OF True s(1,2)] obtain ts where "toks rt p1 ts q" "g_not rt ts x" by blast
    with True s show ?thesis
      by (intro exI [of _ "p_cur p # ts"]) (auto intro: toks_step not_not)
  next
    case False
    with "10.prems" "10.IH"(2) show ?thesis by (auto intro: not_prim)
  qed
next
  case (12 k rt p)
  show ?case
  proof (cases "cur_kind p = tLParen")
    case True
    with "12.prems" obtain p1 p2 where s: "advance rt p = Inr p1" "parseOr k rt p1 = Inr (n, p2)"
      "cur_kind p2 = tRParen" "advance rt p2 = Inr q"
      by (auto split: if_split_asm)
    with "12.IH" [OF True s(1,2)] obtain ts where "toks rt p1 ts p2" "g_or rt ts n" by blast
    with True s show ?thesis
      by (intro exI [of _ "p_cur p # ts @ [p_cur p2]"])
        (auto intro!: toks_step [OF s(1)] toks_append [OF _ toks_one] prim_paren)
  next
    case False
    with "12.prems" obtain f p1 where s: "cur_kind p = tIdent" "parseField rt p = Inr (f, p1)"
      "parse_after_field rt f p1 = Inr (n, q)"
      by (auto split: if_split_asm)
    with parseField_sound parse_after_field_sound show ?thesis by (meson toks_append)
  qed
qed simp_all

lemma parse_psize:
  "parseOr k rt p = Inr (n, q) \<Longrightarrow> psize q \<le> psize p"
  "parseAnd k rt p = Inr (n, q) \<Longrightarrow> psize q \<le> psize p"
  "parseNot k rt p = Inr (n, q) \<Longrightarrow> psize q \<le> psize p"
  by (auto dest!: parse_sound toks_psize)


section \<open>The bound is sufficient\<close>

lemma scan_no_fuel: "scan rt start fin c cs \<noteq> Inl ErrFuel"
proof
  assume "scan rt start fin c cs = Inl ErrFuel"
  then show False
    unfolding scan_def Let_def
    by (simp only: split: if_split_asm option.split_asm prod.split_asm; simp)
qed

lemma advance_no_fuel [simp]: "advance rt p \<noteq> Inl ErrFuel"
  by (auto simp: advance_def next_tok_rest rbind_Inl_iff scan_no_fuel split: list.split)

lemma field_loop_no_fuel [simp]: "field_loop rt parts p \<noteq> Inl ErrFuel"
proof (induction rt parts p rule: field_loop.induct)
  case (1 rt parts p)
  show ?case
    by (subst field_loop.simps) (auto simp: rbind_Inl_iff "1.IH")
qed

lemma literalValue_no_fuel [simp]: "literalValue rt t \<noteq> Inl ErrFuel"
  by (simp add: literalValue_def split: tokKind.split option.split)

lemma comparison_no_fuel [simp]: "comparison rt f p lit \<noteq> Inl ErrFuel"
  by (auto simp: comparison_def rbind_Inl_iff split: option.split)

lemma parse_after_field_no_fuel [simp]: "parse_after_field rt f p \<noteq> Inl ErrFuel"
  by (simp add: parse_after_field_def parseComparison_def Let_def rbind_Inl_iff)

lemma parseField_no_fuel [simp]: "parseField rt p \<noteq> Inl ErrFuel"
  by (simp add: parseField_def rbind_Inl_iff)

lemma parse_enough:
  "4 * psize p + 4 \<le> k \<Longrightarrow> parseOr k rt p \<noteq> Inl ErrFuel"
  "4 * psize p + 1 \<le> k \<Longrightarrow> or_loop k rt left p \<noteq> Inl ErrFuel"
  "4 * psize p + 3 \<le> k \<Longrightarrow> parseAnd k rt p \<noteq> Inl ErrFuel"
  "4 * psize p + 1 \<le> k \<Longrightarrow> and_loop k rt left p \<noteq> Inl ErrFuel"
  "4 * psize p + 2 \<le> k \<Longrightarrow> parseNot k rt p \<noteq> Inl ErrFuel"
  "4 * psize p + 1 \<le> k \<Longrightarrow> parsePrimary k rt p \<noteq> Inl ErrFuel"
proof (induction k rt p and k rt left p and k rt p and k rt left p and k rt p and k rt p
    rule: parseOr_or_loop_parseAnd_and_loop_parseNot_parsePrimary.induct)
  case (2 k rt p)
  have "or_loop k rt a p1 \<noteq> Inl ErrFuel" if "parseAnd k rt p = Inr (a, p1)" for a p1
    using "2.IH"(2) [OF that refl] "2.prems" parse_psize(2) [OF that] by simp
  with "2.IH"(1) "2.prems" show ?case by (auto simp: rbind_Inl_iff)
next
  case (4 k rt left p)
  have "parseAnd k rt p1 \<noteq> Inl ErrFuel" and
    "parseAnd k rt p1 = Inr (b, p2) \<Longrightarrow> or_loop k rt (OrNode left b) p2 \<noteq> Inl ErrFuel"
    if "cur_kind p = tOr" "advance rt p = Inr p1" for p1 b p2
    using "4.IH" [OF that] "4.prems" advance_psize(1) [OF that(2)] parse_psize(2) [of k rt p1 b p2] that
    by simp_all
  then show ?case by (auto simp: rbind_Inl_iff)
next
  case (6 k rt p)
  have "and_loop k rt a p1 \<noteq> Inl ErrFuel" if "parseNot k rt p = Inr (a, p1)" for a p1
    using "6.IH"(2) [OF that refl] "6.prems" parse_psize(3) [OF that] by simp
  with "6.IH"(1) "6.prems" show ?case by (auto simp: rbind_Inl_iff)
next
  case (8 k rt left p)
  have "parseNot k rt p1 \<noteq> Inl ErrFuel" and
    "parseNot k rt p1 = Inr (b, p2) \<Longrightarrow> and_loop k rt (AndNode left b) p2 \<noteq> Inl ErrFuel"
    if "cur_kind p = tAnd" "advance rt p = Inr p1" for p1 b p2
    using "8.IH" [OF that] "8.prems" advance_psize(1) [OF that(2)] parse_psize(3) [of k rt p1 b p2] that
    by simp_all
  then show ?case by (auto simp: rbind_Inl_iff)
next
  case (10 k rt p)
  have "parseNot k rt p1 \<noteq> Inl ErrFuel" if "cur_kind p = tNot" "advance rt p = Inr p1" for p1
    using "10.IH"(1) [OF that] "10.prems" advance_psize(1) [OF that(2)] that by simp
  with "10.IH"(2) "10.prems" show ?case by (auto simp: rbind_Inl_iff)
next
  case (12 k rt p)
  have "parseOr k rt p1 \<noteq> Inl ErrFuel" if "cur_kind p = tLParen" "advance rt p = Inr p1" for p1
    using "12.IH" [OF that] "12.prems" advance_psize(1) [OF that(2)] that by simp
  then show ?case by (auto simp: rbind_Inl_iff)
qed simp_all

lemma parse_mono:
  "parseOr k rt p \<noteq> Inl ErrFuel \<Longrightarrow> parseOr (Suc k) rt p = parseOr k rt p"
  "or_loop k rt left p \<noteq> Inl ErrFuel \<Longrightarrow> or_loop (Suc k) rt left p = or_loop k rt left p"
  "parseAnd k rt p \<noteq> Inl ErrFuel \<Longrightarrow> parseAnd (Suc k) rt p = parseAnd k rt p"
  "and_loop k rt left p \<noteq> Inl ErrFuel \<Longrightarrow> and_loop (Suc k) rt left p = and_loop k rt left p"
  "parseNot k rt p \<noteq> Inl ErrFuel \<Longrightarrow> parseNot (Suc k) rt p = parseNot k rt p"
  "parsePrimary k rt p \<noteq> Inl ErrFuel \<Longrightarrow> parsePrimary (Suc k) rt p = parsePrimary k rt p"
proof (induction k rt p and k rt left p and k rt p and k rt left p and k rt p and k rt p
    rule: parseOr_or_loop_parseAnd_and_loop_parseNot_parsePrimary.induct)
  case (2 k rt p)
  then show ?case
    by (subst (1 2) parseOr.simps) (cases "parseAnd k rt p"; auto)
next
  case (4 k rt left p)
  then show ?case
    by (subst (1 2) or_loop.simps)
      (cases "advance rt p"; cases "parseAnd k rt (projr (advance rt p))"; auto)
next
  case (6 k rt p)
  then show ?case
    by (subst (1 2) parseAnd.simps) (cases "parseNot k rt p"; auto)
next
  case (8 k rt left p)
  then show ?case
    by (subst (1 2) and_loop.simps)
      (cases "advance rt p"; cases "parseNot k rt (projr (advance rt p))"; auto)
next
  case (10 k rt p)
  then show ?case
    by (subst (1 2) parseNot.simps)
      (cases "advance rt p"; cases "parseNot k rt (projr (advance rt p))"; auto)
next
  case (12 k rt p)
  then show ?case
    by (subst (1 2) parsePrimary.simps)
      (cases "advance rt p"; cases "parseOr k rt (projr (advance rt p))"; auto)
qed simp_all

lemma parseOr_mono:
  assumes "k \<le> m" and "parseOr k rt p \<noteq> Inl ErrFuel"
  shows "parseOr m rt p = parseOr k rt p"
  using assms by (induction rule: dec_induct) (auto simp: parse_mono(1) simp del: parseOr.simps)

lemma Parse_no_fuel: "Parse rt expr \<noteq> Inl ErrFuel"
  using parse_enough(1) by (auto simp: Parse_def parse_bound_def rbind_Inl_iff)


section \<open>Completeness: every sentence is accepted\<close>

lemma field_complete:
  "g_path ts ps \<Longrightarrow> toks rt p ts q \<Longrightarrow> cur_kind q \<notin> {tDot, tLBrack} \<Longrightarrow>
    field_loop rt parts p = Inr (classifyField (parts @ ps), q)"
proof (induction ts ps arbitrary: p parts rule: g_path.induct)
  case path_nil
  then show ?case by (subst field_loop.simps) simp
next
  case (path_dot d i ts ps)
  then show ?case
    by (subst field_loop.simps) (auto elim!: toks_ConsE simp del: rbind_Inr_iff)
next
  case (path_key b s c ts ps)
  then show ?case
    by (subst field_loop.simps) (auto elim!: toks_ConsE simp del: rbind_Inr_iff)
qed

lemma parseField_complete:
  assumes "g_field ts f" and "toks rt p ts q" and "cur_kind q \<notin> {tDot, tLBrack}"
  shows "cur_kind p = tIdent" and "parseField rt p = Inr (f, q)"
proof -
  from assms obtain ps us p1 where "cur_kind p = tIdent" "advance rt p = Inr p1" "toks rt p1 us q"
    "g_path us ps" "f = classifyField ([tk_text (p_cur p)] @ ps)"
    by (auto simp: g_field_def elim!: toks_ConsE)
  with field_complete [of us ps rt p1 q "[tk_text (p_cur p)]"] assms(3)
  show "cur_kind p = tIdent" and "parseField rt p = Inr (f, q)"
    by (simp_all add: parseField_def del: rbind_Inr_iff)
qed

lemma prim_not_tNot: "g_prim rt ts n \<Longrightarrow> toks rt p ts q \<Longrightarrow> cur_kind p \<noteq> tNot"
  by (auto elim!: g_prim.cases toks_ConsE simp: g_field_def)

text \<open>From some bound on, a property of the bounded functions holds for good.\<close>

definition eventually_bound :: "(nat \<Rightarrow> bool) \<Rightarrow> bool" where
  "eventually_bound P \<longleftrightarrow> (\<exists>K. \<forall>k \<ge> K. P k)"

lemma eventually_bound_mono: "eventually_bound P \<Longrightarrow> (\<And>k. P k \<Longrightarrow> Q k) \<Longrightarrow> eventually_bound Q"
  by (auto simp: eventually_bound_def)

lemma eventually_bound_Suc:
  assumes "eventually_bound (\<lambda>k. P (Suc k))"
  shows "eventually_bound P"
proof -
  from assms obtain K where "\<forall>k \<ge> K. P (Suc k)" by (auto simp: eventually_bound_def)
  then have "\<forall>k \<ge> Suc K. P k" by (metis Suc_le_D Suc_le_mono)
  then show ?thesis by (auto simp: eventually_bound_def)
qed

lemma eventually_bound_step:
  "eventually_bound P \<Longrightarrow> (\<And>k. P k \<Longrightarrow> Q (Suc k)) \<Longrightarrow> eventually_bound Q"
  by (rule eventually_bound_Suc) (rule eventually_bound_mono)

lemma eventually_bound_always: "(\<And>k. P (Suc k)) \<Longrightarrow> eventually_bound P"
  by (rule eventually_bound_Suc) (simp add: eventually_bound_def)

lemma eventually_bound_next: "eventually_bound P \<Longrightarrow> eventually_bound (\<lambda>k. P (Suc k))"
  by (auto simp: eventually_bound_def intro: le_SucI)

lemma eventually_bound_unshift: "eventually_bound (\<lambda>k. P (k + j)) \<Longrightarrow> eventually_bound P"
proof (induction j)
  case (Suc j)
  from Suc.prems have "eventually_bound (\<lambda>k. P (Suc k + j))" by simp
  then have "eventually_bound (\<lambda>k. P (k + j))" by (rule eventually_bound_Suc)
  then show ?case by (rule Suc.IH)
qed simp

lemma eventually_bound_conj:
  assumes "eventually_bound P" and "eventually_bound Q"
  shows "eventually_bound (\<lambda>k. P k \<and> Q k)"
proof -
  from assms obtain K L where "\<forall>k \<ge> K. P k" "\<forall>k \<ge> L. Q k"
    by (auto simp: eventually_bound_def)
  then have "\<forall>k \<ge> max K L. P k \<and> Q k" by simp
  then show ?thesis unfolding eventually_bound_def by blast
qed

lemma or_loop_done:
  assumes "eventually_bound (\<lambda>k. parseOr (k + j) rt p = or_loop k rt n q)" and "cur_kind q \<noteq> tOr"
  shows "eventually_bound (\<lambda>k. parseOr k rt p = Inr (n, q))"
proof (rule eventually_bound_unshift [of _ "Suc j"])
  show "eventually_bound (\<lambda>k. parseOr (k + Suc j) rt p = Inr (n, q))"
    using eventually_bound_next [OF assms(1)]
    by (rule eventually_bound_mono) (use assms(2) in \<open>simp add: add_Suc [symmetric] del: parseOr.simps add_Suc\<close>)
qed

lemma and_loop_done:
  assumes "eventually_bound (\<lambda>k. parseAnd (k + j) rt p = and_loop k rt n q)" and "cur_kind q \<noteq> tAnd"
  shows "eventually_bound (\<lambda>k. parseAnd k rt p = Inr (n, q))"
proof (rule eventually_bound_unshift [of _ "Suc j"])
  show "eventually_bound (\<lambda>k. parseAnd (k + Suc j) rt p = Inr (n, q))"
    using eventually_bound_next [OF assms(1)]
    by (rule eventually_bound_mono) (use assms(2) in \<open>simp add: add_Suc [symmetric] del: parseAnd.simps add_Suc\<close>)
qed

lemma or_loop_more:
  assumes "eventually_bound (\<lambda>k. parseOr (k + j) rt p = or_loop k rt a p1)"
    and "eventually_bound (\<lambda>k. parseAnd k rt p2 = Inr (b, q))"
    and "cur_kind p1 = tOr" and "advance rt p1 = Inr p2"
  shows "eventually_bound (\<lambda>k. parseOr (k + Suc j) rt p = or_loop k rt (OrNode a b) q)"
  using eventually_bound_conj [OF eventually_bound_next [OF assms(1)] assms(2)]
  by (rule eventually_bound_mono)
    (use assms(3,4) in \<open>simp add: add_Suc [symmetric] del: parseOr.simps add_Suc\<close>)

lemma and_loop_more:
  assumes "eventually_bound (\<lambda>k. parseAnd (k + j) rt p = and_loop k rt a p1)"
    and "eventually_bound (\<lambda>k. parseNot k rt p2 = Inr (b, q))"
    and "cur_kind p1 = tAnd" and "advance rt p1 = Inr p2"
  shows "eventually_bound (\<lambda>k. parseAnd (k + Suc j) rt p = and_loop k rt (AndNode a b) q)"
  using eventually_bound_conj [OF eventually_bound_next [OF assms(1)] assms(2)]
  by (rule eventually_bound_mono)
    (use assms(3,4) in \<open>simp add: add_Suc [symmetric] del: parseAnd.simps add_Suc\<close>)

lemma parse_complete:
  "g_or rt ts n \<Longrightarrow> \<forall>p q. toks rt p ts q \<longrightarrow> cur_kind q \<notin> {tAnd, tDot, tLBrack, tOp} \<longrightarrow>
     (\<exists>j. eventually_bound (\<lambda>k. parseOr (k + j) rt p = or_loop k rt n q))"
  "g_and rt ts n \<Longrightarrow> \<forall>p q. toks rt p ts q \<longrightarrow> cur_kind q \<notin> {tDot, tLBrack, tOp} \<longrightarrow>
     (\<exists>j. eventually_bound (\<lambda>k. parseAnd (k + j) rt p = and_loop k rt n q))"
  "g_not rt ts n \<Longrightarrow> \<forall>p q. toks rt p ts q \<longrightarrow> cur_kind q \<notin> {tDot, tLBrack, tOp} \<longrightarrow>
     eventually_bound (\<lambda>k. parseNot k rt p = Inr (n, q))"
  "g_prim rt ts n \<Longrightarrow> \<forall>p q. toks rt p ts q \<longrightarrow> cur_kind q \<notin> {tDot, tLBrack, tOp} \<longrightarrow>
     eventually_bound (\<lambda>k. parsePrimary k rt p = Inr (n, q))"
proof (induction rule: g_or_g_and_g_not_g_prim.inducts)
  case (or_one ts n)
  show ?case
  proof (intro allI impI)
    fix p q assume pq: "toks rt p ts q" "cur_kind q \<notin> {tAnd, tDot, tLBrack, tOp}"
    with or_one obtain j where "eventually_bound (\<lambda>k. parseAnd (k + j) rt p = and_loop k rt n q)"
      by fastforce
    with pq(2) have "eventually_bound (\<lambda>k. parseAnd k rt p = Inr (n, q))"
      by (intro and_loop_done) auto
    then have "eventually_bound (\<lambda>k. parseOr (k + 1) rt p = or_loop k rt n q)"
      by (rule eventually_bound_mono) simp
    then show "\<exists>j. eventually_bound (\<lambda>k. parseOr (k + j) rt p = or_loop k rt n q)" by blast
  qed
next
  case (or_more ts a t us b)
  show ?case
  proof (intro allI impI)
    fix p q assume "toks rt p (ts @ t # us) q" and q: "cur_kind q \<notin> {tAnd, tDot, tLBrack, tOp}"
    then obtain p1 p2 where p: "toks rt p ts p1" "advance rt p1 = Inr p2" "t = p_cur p1" "toks rt p2 us q"
      by (auto elim!: toks_ConsE dest!: toks_appendE)
    with or_more obtain j where j: "eventually_bound (\<lambda>k. parseOr (k + j) rt p = or_loop k rt a p1)"
      by fastforce
    from or_more.IH(4) p(4) q obtain i where
      "eventually_bound (\<lambda>k. parseAnd (k + i) rt p2 = and_loop k rt b q)" by auto
    with q have "eventually_bound (\<lambda>k. parseAnd k rt p2 = Inr (b, q))" by (intro and_loop_done) auto
    from or_loop_more [OF j this _ p(2)] p(3) or_more.hyps
    show "\<exists>j. eventually_bound (\<lambda>k. parseOr (k + j) rt p = or_loop k rt (OrNode a b) q)" by blast
  qed
next
  case (and_one ts n)
  show ?case
  proof (intro allI impI)
    fix p q assume "toks rt p ts q" "cur_kind q \<notin> {tDot, tLBrack, tOp}"
    with and_one have "eventually_bound (\<lambda>k. parseNot k rt p = Inr (n, q))" by blast
    then have "eventually_bound (\<lambda>k. parseAnd (k + 1) rt p = and_loop k rt n q)"
      by (rule eventually_bound_mono) simp
    then show "\<exists>j. eventually_bound (\<lambda>k. parseAnd (k + j) rt p = and_loop k rt n q)" by blast
  qed
next
  case (and_more ts a t us b)
  show ?case
  proof (intro allI impI)
    fix p q assume "toks rt p (ts @ t # us) q" and q: "cur_kind q \<notin> {tDot, tLBrack, tOp}"
    then obtain p1 p2 where p: "toks rt p ts p1" "advance rt p1 = Inr p2" "t = p_cur p1" "toks rt p2 us q"
      by (auto elim!: toks_ConsE dest!: toks_appendE)
    with and_more obtain j where j: "eventually_bound (\<lambda>k. parseAnd (k + j) rt p = and_loop k rt a p1)"
      by fastforce
    from p q and_more have "eventually_bound (\<lambda>k. parseNot k rt p2 = Inr (b, q))" by blast
    from and_loop_more [OF j this _ p(2)] p(3) and_more.hyps
    show "\<exists>j. eventually_bound (\<lambda>k. parseAnd (k + j) rt p = and_loop k rt (AndNode a b) q)" by blast
  qed
next
  case (not_not t ts n)
  show ?case
  proof (intro allI impI)
    fix p q assume "toks rt p (t # ts) q" and q: "cur_kind q \<notin> {tDot, tLBrack, tOp}"
    then obtain p1 where p1: "advance rt p = Inr p1" "toks rt p1 ts q" "t = p_cur p"
      by (auto elim: toks_ConsE)
    with q not_not have "eventually_bound (\<lambda>k. parseNot k rt p1 = Inr (n, q))" by blast
    then show "eventually_bound (\<lambda>k. parseNot k rt p = Inr (NotNode n, q))"
      by (rule eventually_bound_step) (use p1 not_not in auto)
  qed
next
  case (not_prim ts n)
  show ?case
  proof (intro allI impI)
    fix p q assume pq: "toks rt p ts q" "cur_kind q \<notin> {tDot, tLBrack, tOp}"
    with not_prim have "eventually_bound (\<lambda>k. parsePrimary k rt p = Inr (n, q))" by blast
    then show "eventually_bound (\<lambda>k. parseNot k rt p = Inr (n, q))"
      by (rule eventually_bound_step) (use prim_not_tNot [OF not_prim(1) pq(1)] in auto)
  qed
next
  case (prim_paren l ts n r)
  show ?case
  proof (intro allI impI)
    fix p q assume "toks rt p (l # ts @ [r]) q"
    then obtain p1 p2 where p: "advance rt p = Inr p1" "l = p_cur p" "toks rt p1 ts p2"
      "advance rt p2 = Inr q" "r = p_cur p2"
      by (auto elim!: toks_ConsE dest!: toks_appendE)
    with prim_paren obtain j where "eventually_bound (\<lambda>k. parseOr (k + j) rt p1 = or_loop k rt n p2)"
      by fastforce
    with p prim_paren have "eventually_bound (\<lambda>k. parseOr k rt p1 = Inr (n, p2))"
      by (intro or_loop_done) auto
    then show "eventually_bound (\<lambda>k. parsePrimary k rt p = Inr (n, q))"
      by (rule eventually_bound_step) (use p prim_paren in \<open>simp del: rbind_Inr_iff\<close>)
  qed
next
  case (prim_cmp ts f t lit n)
  show ?case
  proof (intro allI impI)
    fix p q assume "toks rt p (ts @ [t, lit]) q"
    then obtain p1 where p1: "toks rt p ts p1" "toks rt p1 [t, lit] q"
      using toks_appendE by blast
    then obtain p2 where p2: "advance rt p1 = Inr p2" "advance rt p2 = Inr q" "t = p_cur p1" "lit = p_cur p2"
      by (auto elim!: toks_ConsE)
    from parseField_complete [OF prim_cmp(1) p1(1)] prim_cmp p2
    have "parsePrimary (Suc k) rt p = Inr (n, q)" for k
      by (simp add: parse_after_field_def parseComparison_def Let_def del: rbind_Inr_iff)
    then show "eventually_bound (\<lambda>k. parsePrimary k rt p = Inr (n, q))"
      by (rule eventually_bound_always)
  qed
next
  case (prim_exists ts f)
  show ?case
  proof (intro allI impI)
    fix p q assume "toks rt p ts q" and "cur_kind q \<notin> {tDot, tLBrack, tOp}"
    with parseField_complete [OF prim_exists, of rt p q]
    have "parsePrimary (Suc k) rt p = Inr (ExistsNode f, q)" for k
      by (simp add: parse_after_field_def del: rbind_Inr_iff)
    then show "eventually_bound (\<lambda>k. parsePrimary k rt p = Inr (ExistsNode f, q))"
      by (rule eventually_bound_always)
  qed
qed

lemma parseOr_complete:
  assumes "g_or rt ts n" and "toks rt p ts q" and "cur_kind q = tEOF"
  shows "parseOr (parse_bound p) rt p = Inr (n, q)"
proof -
  from parse_complete(1) [OF assms(1)] assms(2,3) obtain j where
    "eventually_bound (\<lambda>k. parseOr (k + j) rt p = or_loop k rt n q)" by fastforce
  with assms(3) have "eventually_bound (\<lambda>k. parseOr k rt p = Inr (n, q))"
    by (intro or_loop_done) auto
  then obtain K where "parseOr (max K (parse_bound p)) rt p = Inr (n, q)"
    unfolding eventually_bound_def by (meson max.cobounded1)
  moreover have "parseOr (parse_bound p) rt p \<noteq> Inl ErrFuel"
    by (rule parse_enough) (simp add: parse_bound_def)
  ultimately show ?thesis using parseOr_mono [of "parse_bound p" "max K (parse_bound p)"] by simp
qed


section \<open>The parser implements the grammar\<close>

text \<open>A source text is read as the tokens \<open>ts\<close>, up to the end of the input.\<close>

definition start_parser :: "string \<Rightarrow> parser" where
  "start_parser expr = \<lparr>p_lex = \<lparr>lx_src = expr, lx_pos = 0\<rparr>, p_cur = plain_tok tEOF 0\<rparr>"

definition reads :: "runtime \<Rightarrow> string \<Rightarrow> token list \<Rightarrow> bool" where
  "reads rt expr ts \<longleftrightarrow>
     (\<exists>p q. advance rt (start_parser expr) = Inr p \<and> toks rt p ts q \<and> cur_kind q = tEOF)"

lemma Parse_grammar:
  "Parse rt expr = Inr n \<longleftrightarrow>
     (if trim_space expr = [] then n = matchAll else \<exists>ts. reads rt expr ts \<and> g_or rt ts n)"
proof (cases "trim_space expr = []")
  case False
  have "Parse rt expr = Inr n \<longleftrightarrow>
      (\<exists>p q. advance rt (start_parser expr) = Inr p \<and>
        parseOr (parse_bound p) rt p = Inr (n, q) \<and> cur_kind q = tEOF)"
    using False by (auto simp: Parse_def start_parser_def split: if_splits)
  also have "\<dots> \<longleftrightarrow> (\<exists>ts. reads rt expr ts \<and> g_or rt ts n)"
    unfolding reads_def using parse_sound(1) parseOr_complete by blast
  finally show ?thesis using False by simp
qed (auto simp: Parse_def)

lemma comparison_wf: "comparison rt f p lit = Inr n \<Longrightarrow> wf_node n"
  by (auto simp: comparison_def split: if_splits option.splits)

lemma grammar_wf:
  "g_or rt ts n \<Longrightarrow> wf_node n" "g_and rt ts n \<Longrightarrow> wf_node n"
  "g_not rt ts n \<Longrightarrow> wf_node n" "g_prim rt ts n \<Longrightarrow> wf_node n"
  by (induction rule: g_or_g_and_g_not_g_prim.inducts) (auto dest: comparison_wf)

lemma Parse_wf: "Parse rt expr = Inr n \<Longrightarrow> wf_node n"
  by (auto simp: Parse_grammar dest: grammar_wf split: if_splits)

section \<open>Properties\<close>

text \<open>
  C7: \<open>Parse\<close> accepts exactly the grammar.  A blank text parses to \<open>matchAll\<close>; any other text parses
  to the node \<open>n\<close> if and only if the lexer reads it, up to its end, as a token list that the
  grammar of disjunctions derives to \<open>n\<close>.
\<close>

theorem Parse_implements_grammar:
  "Parse rt expr = Inr n \<longleftrightarrow>
     (if trim_space expr = [] then n = matchAll else \<exists>ts. reads rt expr ts \<and> g_or rt ts n)"
  by (rule Parse_grammar)

text \<open>
  C18: the recursive descent ends on every text: the bound \<open>parse_bound\<close> on its depth is never
  reached, so \<open>Parse\<close> returns a node or an error of the code.
\<close>

theorem Parse_never_out_of_fuel: "Parse rt expr \<noteq> Inl ErrFuel"
  by (rule Parse_no_fuel)

text \<open>
  C19: evaluating a parsed query never dereferences a nil regular expression: on every record it
  gives a truth value.
\<close>

theorem parsed_query_total:
  assumes "Parse rt expr = Inr n"
  shows "\<exists>b. Match rt n r = Some b"
  using Match_defined [OF Parse_wf [OF assms]] .

theorem parsed_query_total_witness:
  "\<exists>b. Match bare_runtime (ExistsNode (classifyField [''level''])) empty_record = Some b"
  by (rule parsed_query_total [where expr = "''level''"]) code_simp

end
