(* ===== verification/QueryPrune.thy ===== *)
theory QueryPrune
  imports QueryParser
begin

text \<open>
  Segment pruning: \<open>internal/query/prune.go\<close> and the functions \<open>segmentMatches\<close> and
  \<open>contains\<close> of \<open>internal/query/planner.go\<close>.  Pruning is sound: a segment whose summary
  lists the names of its records is never skipped when one of them matches.
\<close>


section \<open>Required equalities\<close>

record predicate =
  pr_field :: string
  pr_value :: string

fun hasPred :: "predicate list \<Rightarrow> predicate \<Rightarrow> bool" where
  "hasPred [] p = False"
| "hasPred (q # qs) p = (if q = p then True else hasPred qs p)"

text \<open>\<open>union\<close>: the predicates of \<open>a\<close>, then those of \<open>b\<close> not yet present.\<close>

fun union_preds :: "predicate list \<Rightarrow> predicate list \<Rightarrow> predicate list" where
  "union_preds out [] = out"
| "union_preds out (p # ps) = union_preds (if \<not> hasPred out p then out @ [p] else out) ps"

fun intersect_preds :: "predicate list \<Rightarrow> predicate list \<Rightarrow> predicate list" where
  "intersect_preds [] b = []"
| "intersect_preds (p # ps) b =
     (if hasPred b p then p # intersect_preds ps b else intersect_preds ps b)"

fun required :: "node \<Rightarrow> predicate list" where
  "required (AndNode a b) = union_preds (required a) (required b)"
| "required (OrNode a b) = intersect_preds (required a) (required b)"
| "required (CmpNode f p lit re) =
     (if p = OpEq \<and> f_Kind f = fEnvelope \<and> v_Kind lit = kindString
      then [\<lparr>pr_field = f_Name f, pr_value = v_S lit\<rparr>] else [])"
| "required _ = []"

definition prunablePredicates :: "node \<Rightarrow> predicate list" where
  "prunablePredicates n = required n"

definition contains_name :: "string list \<Rightarrow> string \<Rightarrow> bool" where
  "contains_name xs v = (v \<in> set xs)"

text \<open>The summary a predicate on an envelope field is looked up in, if there is one.\<close>

definition summary_for :: "segment_meta \<Rightarrow> string \<Rightarrow> string list option" where
  "summary_for m field =
     (if field = ''_namespace'' then Some (sm_Namespaces m)
      else if field = ''_pod'' then Some (sm_Pods m)
      else if field = ''_node'' then Some (sm_Nodes m)
      else if field = ''_container'' then Some (sm_Containers m)
      else None)"

fun preds_admit :: "segment_meta \<Rightarrow> predicate list \<Rightarrow> bool" where
  "preds_admit m [] = True"
| "preds_admit m (p # ps) =
     (case summary_for m (pr_field p) of
        None \<Rightarrow> preds_admit m ps
      | Some names \<Rightarrow>
          if names \<noteq> [] \<and> \<not> contains_name names (pr_value p) then False else preds_admit m ps)"

definition segmentMatches :: "segment_meta \<Rightarrow> node \<Rightarrow> bool" where
  "segmentMatches m expr = preds_admit m (prunablePredicates expr)"


section \<open>Soundness\<close>

lemma hasPred_iff [simp]: "hasPred ps p \<longleftrightarrow> p \<in> set ps"
  by (induction ps) auto

lemma set_union_preds [simp]: "set (union_preds a b) = set a \<union> set b"
  by (induction a b rule: union_preds.induct) auto

lemma set_intersect_preds [simp]: "set (intersect_preds a b) = set a \<inter> set b"
  by (induction a b rule: intersect_preds.induct) auto

lemma preds_admit_iff:
  "preds_admit m ps \<longleftrightarrow>
    (\<forall>p \<in> set ps. \<forall>names. summary_for m (pr_field p) = Some names \<longrightarrow> names = [] \<or> pr_value p \<in> set names)"
  by (induction ps) (auto simp: contains_name_def split: option.splits)

text \<open>The string an envelope predicate compares with.\<close>

definition envelope_is :: "runtime \<Rightarrow> log_record \<Rightarrow> predicate \<Rightarrow> bool" where
  "envelope_is rt r p \<longleftrightarrow>
     (\<exists>v. resolveEnvelope rt r (pr_field p) = Some v \<and> str rt v = pr_value p)"

lemma required_sound:
  "wf_node n \<Longrightarrow> selects rt n r \<Longrightarrow> p \<in> set (required n) \<Longrightarrow> envelope_is rt r p"
proof (induction n)
  case (OrNode a b)
  then show ?case by (auto simp: selects_Or)
next
  case (CmpNode f q lit re)
  then show ?case
    by (auto simp: selects_def cmp_match_def resolve_def cmpEq_def envelope_is_def
        split: if_splits option.splits)
qed auto

text \<open>The names of a record that a segment summary has to list.\<close>

definition summarises :: "segment_meta \<Rightarrow> log_record \<Rightarrow> bool" where
  "summarises m r \<longleftrightarrow>
     (rec_Namespace r \<noteq> [] \<longrightarrow> rec_Namespace r \<in> set (sm_Namespaces m)) \<and>
     (rec_Pod r \<noteq> [] \<longrightarrow> rec_Pod r \<in> set (sm_Pods m)) \<and>
     (rec_Node r \<noteq> [] \<longrightarrow> rec_Node r \<in> set (sm_Nodes m)) \<and>
     (rec_Container r \<noteq> [] \<longrightarrow> rec_Container r \<in> set (sm_Containers m))"

lemma summary_for_envelope:
  "summarises m r \<Longrightarrow> envelope_is rt r p \<Longrightarrow> summary_for m (pr_field p) = Some names \<Longrightarrow>
    pr_value p \<in> set names"
  by (auto simp: summarises_def envelope_is_def summary_for_def resolveEnvelope_def nonempty_def
      string_value_def str_def split: if_splits)

lemma segmentMatches_complete:
  assumes "wf_node n" and "selects rt n r" and "summarises m r"
  shows "segmentMatches m n"
  unfolding segmentMatches_def prunablePredicates_def preds_admit_iff
  using assms required_sound summary_for_envelope by blast

section \<open>Properties\<close>

text \<open>
  C8: pruning by the source summary loses nothing.  A segment that \<open>segmentMatches\<close> skips holds no
  record that the query selects, provided its summary lists the namespace, pod, node and
  container of each of its records.
\<close>

theorem pruned_segment_has_no_match:
  assumes "Parse rt expr = Inr n" and "\<not> segmentMatches m n" and "\<forall>r \<in> set rs. summarises m r"
  shows "\<forall>r \<in> set rs. Match rt n r = Some False"
  using assms Parse_wf segmentMatches_complete Match_total by (metis (full_types))

theorem pruned_segment_has_no_match_witness:
  "Match bare_runtime (CmpNode (classifyField [''_pod'']) OpEq (string_value ''a'') None)
     (empty_record\<lparr>rec_Pod := ''b''\<rparr>) = Some False"
proof -
  let ?n = "CmpNode (classifyField [''_pod'']) OpEq (string_value ''a'') None"
  let ?r = "empty_record\<lparr>rec_Pod := ''b''\<rparr>" and ?m = "empty_meta\<lparr>sm_Pods := [''b'']\<rparr>"
  have "Parse bare_runtime (''_pod='' @ [DQUOTE] @ ''a'' @ [DQUOTE]) = Inr ?n" and "\<not> segmentMatches ?m ?n" by code_simp+
  moreover have "\<forall>r \<in> set [?r]. summarises ?m r" by (simp add: summarises_def empty_record_def empty_meta_def)
  ultimately have "\<forall>r \<in> set [?r]. Match bare_runtime ?n r = Some False" by (rule pruned_segment_has_no_match)
  then show ?thesis by simp
qed

end
