(* ===== verification/QueryIter.thy ===== *)
theory QueryIter
  imports LogModel
begin

text \<open>
  Record cursors and the k-way merge: \<open>internal/query/iter.go\<close> and \<open>pickNext\<close> of
  \<open>internal/query/planner.go\<close>.  The Go interface \<open>recIter\<close> is the locale \<open>record_cursor\<close>:
  a cursor stands for the list of records it has still to yield.  Both implementations,
  \<open>sliceIter\<close> over the open buffer and \<open>segIter\<close> over the blocks of a segment, are
  interpretations of it, and so is their sum, the dynamic type of the executor's iterators.
\<close>


section \<open>The interface\<close>

text \<open>
  \<open>peek\<close> may load a block, so it returns the cursor it leaves behind; \<open>pop\<close> is only called
  after a \<open>peek\<close> that yielded a record.
\<close>

definition head_opt :: "'a list \<Rightarrow> 'a option" where
  "head_opt xs = (case xs of [] \<Rightarrow> None | x # _ \<Rightarrow> Some x)"

lemma head_opt_simps [simp]: "head_opt [] = None" "head_opt (x # xs) = Some x"
  by (simp_all add: head_opt_def)

lemma head_opt_None_iff [simp]: "head_opt xs = None \<longleftrightarrow> xs = []"
  by (cases xs) auto

lemma head_opt_Some_iff: "head_opt xs = Some x \<longleftrightarrow> (\<exists>ys. xs = x # ys)"
  by (cases xs) auto

locale record_cursor =
  fixes peek_op :: "'it \<Rightarrow> log_record option \<times> 'it"
    and pop_op :: "'it \<Rightarrow> 'it"
    and items :: "'it \<Rightarrow> log_record list"
  assumes peek_head: "fst (peek_op it) = head_opt (items it)"
    and peek_items: "items (snd (peek_op it)) = items it"
    and peek_idem: "snd (peek_op (snd (peek_op it))) = snd (peek_op it)"
    and pop_items: "items it \<noteq> [] \<Longrightarrow> items (pop_op (snd (peek_op it))) = tl (items it)"
begin

lemma peek_None_iff: "fst (peek_op it) = None \<longleftrightarrow> items it = []"
  by (simp add: peek_head)

lemma peek_again: "peek_op (snd (peek_op it)) = peek_op it"
  by (simp add: prod_eq_iff peek_head peek_items peek_idem)

lemma peek_pop: "fst (peek_op it) = Some x \<Longrightarrow> items it = x # items (pop_op (snd (peek_op it)))"
  by (cases "items it") (auto simp: peek_head pop_items)

lemma pop_shorter:
  "fst (peek_op it) = Some x \<Longrightarrow> length (items (pop_op (snd (peek_op it)))) < length (items it)"
  using peek_pop [of it x] by simp

end


section \<open>The slice cursor\<close>

record sliceIter =
  si_recs :: "log_record list"
  si_pos :: int
  si_desc :: bool

definition slice_peek :: "sliceIter \<Rightarrow> log_record option" where
  "slice_peek s =
     (if si_pos s < 0 \<or> si_pos s \<ge> int (length (si_recs s)) then None
      else Some (si_recs s ! nat (si_pos s)))"

definition slice_pop :: "sliceIter \<Rightarrow> sliceIter" where
  "slice_pop s = s\<lparr>si_pos := (if si_desc s then si_pos s - 1 else si_pos s + 1)\<rparr>"

definition slice_items :: "sliceIter \<Rightarrow> log_record list" where
  "slice_items s =
     (if si_pos s < 0 \<or> si_pos s \<ge> int (length (si_recs s)) then []
      else if si_desc s then rev (take (Suc (nat (si_pos s))) (si_recs s))
      else drop (nat (si_pos s)) (si_recs s))"

lemma slice_peek_head: "slice_peek s = head_opt (slice_items s)"
  by (auto simp: slice_peek_def slice_items_def take_Suc_conv_app_nth
      Cons_nth_drop_Suc [symmetric] nat_less_iff)

lemma slice_pop_items: "slice_items s \<noteq> [] \<Longrightarrow> slice_items (slice_pop s) = tl (slice_items s)"
proof (cases "si_pos s < 0 \<or> si_pos s \<ge> int (length (si_recs s))")
  case False
  then obtain n where n: "si_pos s = int n" "n < length (si_recs s)"
    by (metis linorder_not_less nonneg_int_cases of_nat_less_iff)
  show ?thesis
  proof (cases "si_desc s")
    case True
    have "nat (1 + int m) = Suc m" for m by simp
    with n True show ?thesis
      by (cases n) (auto simp: slice_items_def slice_pop_def take_Suc_conv_app_nth)
  next
    case False
    have "nat (int n + 1) = Suc n" by simp
    with n False show ?thesis
      by (auto simp: slice_items_def slice_pop_def tl_drop drop_Suc)
  qed
qed (simp add: slice_items_def)

interpretation slice: record_cursor "\<lambda>s. (slice_peek s, s)" slice_pop slice_items
  by unfold_locales (simp_all add: slice_peek_head slice_pop_items)


section \<open>The segment cursor\<close>

text \<open>
  What the cursor uses of a \<open>segment.Reader\<close>: the block index, and the records of a block
  (\<open>ReadBlock\<close>, which delivers all of them or an error after which the buffer is dropped).
\<close>

record seg_reader =
  rd_blocks :: "block_meta list"
  rd_read :: "nat \<Rightarrow> go_error + log_record list"

record segIter =
  sg_rd :: seg_reader
  sg_blocks :: "nat list"
  sg_bi :: nat
  sg_buf :: "log_record list"
  sg_pos :: nat
  sg_desc :: bool
  sg_start :: time
  sg_end :: time
  sg_err :: "go_error option"

definition newSegIter :: "seg_reader \<Rightarrow> time \<Rightarrow> time \<Rightarrow> bool \<Rightarrow> segIter" where
  "newSegIter rd start stop desc =
     (let blocks = filter (\<lambda>i. block_overlaps (rd_blocks rd ! i) start stop) [0 ..< length (rd_blocks rd)]
      in \<lparr>sg_rd = rd, sg_blocks = (if desc then rev blocks else blocks), sg_bi = 0, sg_buf = [],
          sg_pos = 0, sg_desc = desc, sg_start = start, sg_end = stop, sg_err = None\<rparr>)"

function load :: "segIter \<Rightarrow> segIter" where
  "load s =
     (if length (sg_buf s) \<le> sg_pos s \<and> sg_bi s < length (sg_blocks s) then
        (case rd_read (sg_rd s) (sg_blocks s ! sg_bi s) of
           Inl e \<Rightarrow> s\<lparr>sg_bi := Suc (sg_bi s), sg_buf := [], sg_err := Some e\<rparr>
         | Inr rs \<Rightarrow>
             load (s\<lparr>sg_bi := Suc (sg_bi s), sg_buf := (if sg_desc s then rev rs else rs),
                     sg_pos := 0\<rparr>))
      else s)"
  by pat_completeness auto
termination
  by (relation "measure (\<lambda>s. length (sg_blocks s) - sg_bi s)") auto

declare load.simps [simp del]

definition seg_peek :: "segIter \<Rightarrow> log_record option \<times> segIter" where
  "seg_peek s =
     (if sg_err s \<noteq> None then (None, s)
      else
        (let s' = load s in
         if length (sg_buf s') \<le> sg_pos s' then (None, s')
         else (Some (sg_buf s' ! sg_pos s'), s')))"

definition seg_pop :: "segIter \<Rightarrow> segIter" where
  "seg_pop s = s\<lparr>sg_pos := Suc (sg_pos s)\<rparr>"

text \<open>The records of the blocks \<open>is\<close> in traversal order, up to the first block that fails.\<close>

fun read_until :: "seg_reader \<Rightarrow> bool \<Rightarrow> nat list \<Rightarrow> log_record list" where
  "read_until rd desc [] = []"
| "read_until rd desc (i # is) =
     (case rd_read rd i of
        Inl e \<Rightarrow> []
      | Inr rs \<Rightarrow> (if desc then rev rs else rs) @ read_until rd desc is)"

definition seg_items :: "segIter \<Rightarrow> log_record list" where
  "seg_items s =
     (if sg_err s \<noteq> None then []
      else drop (sg_pos s) (sg_buf s) @ read_until (sg_rd s) (sg_desc s) (drop (sg_bi s) (sg_blocks s)))"

lemma load_items: "sg_err s = None \<Longrightarrow> seg_items (load s) = seg_items s"
proof (induction s rule: load.induct)
  case (1 s)
  show ?case
  proof (cases "length (sg_buf s) \<le> sg_pos s \<and> sg_bi s < length (sg_blocks s)")
    case True
    then have "drop (sg_bi s) (sg_blocks s) = sg_blocks s ! sg_bi s # drop (Suc (sg_bi s)) (sg_blocks s)"
      by (simp add: Cons_nth_drop_Suc)
    with True 1 show ?thesis
      by (cases "rd_read (sg_rd s) (sg_blocks s ! sg_bi s)")
        (auto simp: load.simps [of s] seg_items_def)
  next
    case False
    then show ?thesis by (subst load.simps) (simp only: if_False)
  qed
qed

text \<open>A loaded cursor stands on a record of its buffer, has failed, or is exhausted.\<close>

definition loaded :: "segIter \<Rightarrow> bool" where
  "loaded s \<longleftrightarrow> sg_err s \<noteq> None \<or> sg_pos s < length (sg_buf s) \<or> length (sg_blocks s) \<le> sg_bi s"

lemma loaded_load: "loaded (load s)"
proof (induction s rule: load.induct)
  case (1 s)
  show ?case
  proof (cases "length (sg_buf s) \<le> sg_pos s \<and> sg_bi s < length (sg_blocks s)")
    case True
    with 1 show ?thesis
      by (cases "rd_read (sg_rd s) (sg_blocks s ! sg_bi s)")
        (auto simp: load.simps [of s] loaded_def)
  next
    case False
    then show ?thesis by (subst load.simps) (auto simp: loaded_def)
  qed
qed

lemma load_err_buf: "sg_err s = None \<Longrightarrow> sg_err (load s) \<noteq> None \<Longrightarrow> sg_buf (load s) = []"
proof (induction s rule: load.induct)
  case (1 s)
  then show ?case
    by (cases "rd_read (sg_rd s) (sg_blocks s ! sg_bi s)")
      (auto simp: load.simps [of s] split: if_splits)
qed

lemma load_loaded: "loaded s \<Longrightarrow> sg_err s = None \<Longrightarrow> load s = s"
  by (subst load.simps) (auto simp: loaded_def)

lemma seg_peek_head: "fst (seg_peek s) = head_opt (seg_items s)"
proof (cases "sg_err s")
  case None
  have "fst (seg_peek s) = head_opt (seg_items (load s))"
    using None loaded_load [of s] load_err_buf [of s]
    by (auto simp: seg_peek_def Let_def seg_items_def loaded_def Cons_nth_drop_Suc [symmetric])
  with None show ?thesis by (simp add: load_items)
qed (simp add: seg_peek_def seg_items_def)

lemma seg_peek_state: "snd (seg_peek s) = (if sg_err s = None then load s else s)"
  by (simp add: seg_peek_def Let_def)

lemma seg_pop_items:
  assumes "seg_items s \<noteq> []"
  shows "seg_items (seg_pop (snd (seg_peek s))) = tl (seg_items s)"
proof -
  let ?t = "load s"
  from assms have none: "sg_err s = None" by (auto simp: seg_items_def split: if_splits)
  with assms have ne: "seg_items ?t \<noteq> []" by (simp add: load_items)
  then have err: "sg_err ?t = None" by (auto simp: seg_items_def split: if_splits)
  with ne loaded_load [of s] have "sg_pos ?t < length (sg_buf ?t)"
    by (auto simp: seg_items_def loaded_def)
  with err have "seg_items (seg_pop ?t) = tl (seg_items ?t)"
    by (simp add: seg_items_def seg_pop_def drop_Suc tl_drop)
  with none show ?thesis by (simp add: seg_peek_state load_items)
qed

interpretation seg: record_cursor seg_peek seg_pop seg_items
proof
  show "fst (seg_peek it) = head_opt (seg_items it)" for it
    by (rule seg_peek_head)
  show "seg_items (snd (seg_peek it)) = seg_items it" for it
    by (simp add: seg_peek_state load_items)
  show "snd (seg_peek (snd (seg_peek it))) = snd (seg_peek it)" for it
    using loaded_load [of it] by (auto simp: seg_peek_state load_loaded)
  show "seg_items it \<noteq> [] \<Longrightarrow> seg_items (seg_pop (snd (seg_peek it))) = tl (seg_items it)" for it
    by (rule seg_pop_items)
qed


section \<open>The executor's iterators\<close>

datatype recIter = SliceIter sliceIter | SegIter segIter

fun peek :: "recIter \<Rightarrow> log_record option \<times> recIter" where
  "peek (SliceIter s) = (slice_peek s, SliceIter s)"
| "peek (SegIter s) = (case seg_peek s of (h, s') \<Rightarrow> (h, SegIter s'))"

fun pop :: "recIter \<Rightarrow> recIter" where
  "pop (SliceIter s) = SliceIter (slice_pop s)"
| "pop (SegIter s) = SegIter (seg_pop s)"

fun iter_fail :: "recIter \<Rightarrow> go_error option" where
  "iter_fail (SliceIter s) = None"
| "iter_fail (SegIter s) = sg_err s"

fun iter_items :: "recIter \<Rightarrow> log_record list" where
  "iter_items (SliceIter s) = slice_items s"
| "iter_items (SegIter s) = seg_items s"

lemma peek_seg: "peek (SegIter s) = (fst (seg_peek s), SegIter (snd (seg_peek s)))"
  by (simp split: prod.split)

interpretation iter: record_cursor peek pop iter_items
proof
  show "fst (peek it) = head_opt (iter_items it)" for it
    by (cases it) (simp_all add: slice_peek_head peek_seg seg_peek_head del: peek.simps(2))
  show "iter_items (snd (peek it)) = iter_items it" for it
    by (cases it) (simp_all add: peek_seg seg.peek_items del: peek.simps(2))
  show "snd (peek (snd (peek it))) = snd (peek it)" for it
    by (cases it) (simp_all add: peek_seg seg.peek_idem del: peek.simps(2))
  show "iter_items it \<noteq> [] \<Longrightarrow> iter_items (pop (snd (peek it))) = tl (iter_items it)" for it
    by (cases it) (simp_all add: slice_pop_items peek_seg seg_pop_items del: peek.simps(2))
qed


section \<open>Choosing the next record\<close>

definition sorts_before :: "bool \<Rightarrow> time \<Rightarrow> time \<Rightarrow> bool" where
  "sorts_before desc t u \<longleftrightarrow> (if desc then t > u else t < u)"

text \<open>The loop of \<open>pickNext\<close> over the heads, from index \<open>i\<close> with the best so far.\<close>

fun pick_loop :: "bool \<Rightarrow> nat \<Rightarrow> (nat \<times> log_record) option \<Rightarrow> log_record option list \<Rightarrow> nat option" where
  "pick_loop desc i best [] = map_option fst best"
| "pick_loop desc i best (None # hs) = pick_loop desc (Suc i) best hs"
| "pick_loop desc i None (Some h # hs) = pick_loop desc (Suc i) (Some (i, h)) hs"
| "pick_loop desc i (Some (j, bh)) (Some h # hs) =
     pick_loop desc (Suc i)
       (if sorts_before desc (rec_Timestamp h) (rec_Timestamp bh) then Some (i, h) else Some (j, bh)) hs"

text \<open>\<open>pickNext\<close>: the index of the chosen iterator, and the iterators after all the peeks.\<close>

definition pickNext :: "bool \<Rightarrow> recIter list \<Rightarrow> nat option \<times> recIter list" where
  "pickNext desc iters =
     (pick_loop desc 0 None (map (\<lambda>it. fst (peek it)) iters), map (\<lambda>it. snd (peek it)) iters)"

text \<open>No head strictly precedes the chosen one.\<close>

lemma pick_loop_Some:
  "pick_loop desc i best hs = Some k \<Longrightarrow>
    (\<exists>h. ((best = Some (k, h) \<or> (i \<le> k \<and> k < i + length hs \<and> hs ! (k - i) = Some h)) \<and>
      (\<forall>j b. best = Some (j, b) \<longrightarrow> \<not> sorts_before desc (rec_Timestamp b) (rec_Timestamp h)) \<and>
      (\<forall>h' \<in> set hs. \<forall>b. h' = Some b \<longrightarrow> \<not> sorts_before desc (rec_Timestamp b) (rec_Timestamp h))))"
proof (induction desc i best hs rule: pick_loop.induct)
  case (1 desc i best)
  then show ?case by (auto simp: sorts_before_def)
next
  case (2 desc i best hs)
  then obtain h where "best = Some (k, h) \<or> (Suc i \<le> k \<and> k < Suc i + length hs \<and> hs ! (k - Suc i) = Some h)"
    "\<forall>j b. best = Some (j, b) \<longrightarrow> \<not> sorts_before desc (rec_Timestamp b) (rec_Timestamp h)"
    "\<forall>h' \<in> set hs. \<forall>b. h' = Some b \<longrightarrow> \<not> sorts_before desc (rec_Timestamp b) (rec_Timestamp h)"
    by auto
  then show ?case
    by (intro exI [of _ h]) (auto simp: nth_Cons')
next
  case (3 desc i h hs)
  then obtain h' where
    "(k = i \<and> h' = h) \<or> (Suc i \<le> k \<and> k < Suc i + length hs \<and> hs ! (k - Suc i) = Some h')"
    "\<not> sorts_before desc (rec_Timestamp h) (rec_Timestamp h')"
    "\<forall>x \<in> set hs. \<forall>b. x = Some b \<longrightarrow> \<not> sorts_before desc (rec_Timestamp b) (rec_Timestamp h')"
    by auto
  then show ?case
    by (intro exI [of _ h']) (auto simp: nth_Cons')
next
  case (4 desc i j bh h hs)
  let ?best = "if sorts_before desc (rec_Timestamp h) (rec_Timestamp bh) then (i, h) else (j, bh)"
  from 4 obtain h' where
    k: "?best = (k, h') \<or> (Suc i \<le> k \<and> k < Suc i + length hs \<and> hs ! (k - Suc i) = Some h')"
    and b: "\<not> sorts_before desc (rec_Timestamp (snd ?best)) (rec_Timestamp h')"
    and rest: "\<forall>x \<in> set hs. \<forall>b. x = Some b \<longrightarrow> \<not> sorts_before desc (rec_Timestamp b) (rec_Timestamp h')"
    by (auto split: if_splits)
  from b have "\<not> sorts_before desc (rec_Timestamp h) (rec_Timestamp h')"
    and "\<not> sorts_before desc (rec_Timestamp bh) (rec_Timestamp h')"
    by (auto simp: sorts_before_def split: if_splits)
  with k rest show ?case
    by (intro exI [of _ h']) (auto simp: nth_Cons' split: if_splits)
qed

lemma pick_loop_None: "pick_loop desc i best hs = None \<longleftrightarrow> best = None \<and> (\<forall>h \<in> set hs. h = None)"
  by (induction desc i best hs rule: pick_loop.induct) auto


section \<open>The merge as a function of lists\<close>

definition pick_head :: "bool \<Rightarrow> log_record list list \<Rightarrow> nat option" where
  "pick_head desc ls = pick_loop desc 0 None (map head_opt ls)"

lemma pick_head_Some:
  assumes "pick_head desc ls = Some k"
  shows "k < length ls" and "ls ! k \<noteq> []"
    and "\<And>l x. l \<in> set ls \<Longrightarrow> head_opt l = Some x \<Longrightarrow>
      \<not> sorts_before desc (rec_Timestamp x) (rec_Timestamp (hd (ls ! k)))"
proof -
  from pick_loop_Some [OF assms [unfolded pick_head_def]] obtain h where
    k: "k < length ls" "head_opt (ls ! k) = Some h"
    and le: "\<forall>h' \<in> set (map head_opt ls). \<forall>b. h' = Some b \<longrightarrow>
      \<not> sorts_before desc (rec_Timestamp b) (rec_Timestamp h)"
    by auto
  from k show "k < length ls" and "ls ! k \<noteq> []" by auto
  from k have "hd (ls ! k) = h" by (cases "ls ! k") auto
  with le show "\<And>l x. l \<in> set ls \<Longrightarrow> head_opt l = Some x \<Longrightarrow>
      \<not> sorts_before desc (rec_Timestamp x) (rec_Timestamp (hd (ls ! k)))" by force
qed

lemma pick_head_None: "pick_head desc ls = None \<longleftrightarrow> (\<forall>l \<in> set ls. l = [])"
  by (auto simp: pick_head_def pick_loop_None)

lemma sum_list_update_less:
  "k < length ls \<Longrightarrow> ls ! k \<noteq> [] \<Longrightarrow>
    sum_list (map length (ls[k := tl (ls ! k)])) < sum_list (map length ls)"
proof -
  assume k: "k < length ls" "ls ! k \<noteq> []"
  then have "sum_list (map length ls)
      = sum_list (map length (take k ls)) + length (ls ! k) + sum_list (map length (drop (Suc k) ls))"
    by (subst id_take_nth_drop [of k ls]) simp_all
  moreover from k have "sum_list (map length (ls[k := tl (ls ! k)]))
      = sum_list (map length (take k ls)) + length (tl (ls ! k)) + sum_list (map length (drop (Suc k) ls))"
    by (simp add: upd_conv_take_nth_drop)
  moreover from k have "length (tl (ls ! k)) < length (ls ! k)" by (cases "ls ! k") auto
  ultimately show ?thesis by simp
qed

function kmerge :: "bool \<Rightarrow> log_record list list \<Rightarrow> log_record list" where
  "kmerge desc ls =
     (case pick_head desc ls of
        None \<Rightarrow> []
      | Some k \<Rightarrow> hd (ls ! k) # kmerge desc (ls[k := tl (ls ! k)]))"
  by pat_completeness auto
termination
  by (relation "measure (\<lambda>(desc, ls). sum_list (map length ls))")
    (auto intro!: sum_list_update_less pick_head_Some(1) dest: pick_head_Some(2))

declare kmerge.simps [simp del]

lemma mset_kmerge: "mset (kmerge desc ls) = mset (concat ls)"
proof (induction desc ls rule: kmerge.induct)
  case (1 desc ls)
  show ?case
  proof (cases "pick_head desc ls")
    case None
    then have "concat ls = []" by (simp add: pick_head_None)
    with None show ?thesis by (subst kmerge.simps) simp
  next
    case (Some k)
    note k = pick_head_Some(1,2) [OF Some]
    have "mset (concat (ls[k := tl (ls ! k)])) + {#hd (ls ! k)#} = mset (concat ls)"
    proof -
      from k obtain x xs where x: "ls ! k = x # xs" by (cases "ls ! k") auto
      from k have "concat ls = concat (take k ls) @ ls ! k @ concat (drop (Suc k) ls)"
        by (metis concat.simps(2) concat_append id_take_nth_drop)
      moreover from k have "concat (ls[k := tl (ls ! k)])
          = concat (take k ls) @ tl (ls ! k) @ concat (drop (Suc k) ls)"
        by (simp add: upd_conv_take_nth_drop)
      ultimately show ?thesis by (simp add: x)
    qed
    with Some "1.IH" [OF Some] show ?thesis by (subst kmerge.simps) simp
  qed
qed

lemma set_kmerge: "set (kmerge desc ls) = set (concat ls)"
  by (metis mset_kmerge set_mset_mset)

text \<open>Merging sorted lists gives a sorted list.\<close>

definition ts_sorted :: "bool \<Rightarrow> log_record list \<Rightarrow> bool" where
  "ts_sorted desc rs \<longleftrightarrow>
     sorted_wrt (\<lambda>r s. \<not> sorts_before desc (rec_Timestamp s) (rec_Timestamp r)) rs"

lemma kmerge_sorted: "\<forall>l \<in> set ls. ts_sorted desc l \<Longrightarrow> ts_sorted desc (kmerge desc ls)"
proof (induction desc ls rule: kmerge.induct)
  case (1 desc ls)
  show ?case
  proof (cases "pick_head desc ls")
    case None
    then show ?thesis by (subst kmerge.simps) (simp add: ts_sorted_def)
  next
    case (Some k)
    note k = pick_head_Some [OF Some]
    let ?ls = "ls[k := tl (ls ! k)]"
    have tl: "ts_sorted desc (tl (ls ! k))"
      using "1.prems" k(1,2) by (cases "ls ! k") (force simp: ts_sorted_def dest: nth_mem)+
    have "\<forall>l \<in> set ?ls. ts_sorted desc l"
      using "1.prems" tl set_update_subset_insert [of ls k "tl (ls ! k)"] by auto
    with "1.IH" [OF Some] have IH: "ts_sorted desc (kmerge desc ?ls)" .
    have "\<not> sorts_before desc (rec_Timestamp r) (rec_Timestamp (hd (ls ! k)))"
      if r: "r \<in> set (concat ls)" for r
    proof -
      from r obtain l where l: "l \<in> set ls" "r \<in> set l" by auto
      from l(2) obtain x xs where x: "l = x # xs" by (metis list.set_cases)
      with "1.prems" l have "r = x \<or> \<not> sorts_before desc (rec_Timestamp r) (rec_Timestamp x)"
        by (auto simp: ts_sorted_def)
      moreover from k(3) [OF l(1), of x] x
      have "\<not> sorts_before desc (rec_Timestamp x) (rec_Timestamp (hd (ls ! k)))" by simp
      ultimately show ?thesis by (auto simp: sorts_before_def split: if_splits)
    qed
    moreover have "set (kmerge desc ?ls) \<subseteq> set (concat ls)"
      using set_update_subset_insert [of ls k "tl (ls ! k)"] list.set_sel(2) [OF k(2)] nth_mem [OF k(1)]
      by (auto simp: set_kmerge)
    ultimately have "\<forall>r \<in> set (kmerge desc ?ls).
        \<not> sorts_before desc (rec_Timestamp r) (rec_Timestamp (hd (ls ! k)))" by blast
    with IH show ?thesis by (subst kmerge.simps) (simp add: Some ts_sorted_def)
  qed
qed

end
