(* ===== verification/QueryExec.thy ===== *)
theory QueryExec
  imports QueryPrune QueryIter
begin

text \<open>
  The query executor, \<open>Executor.Run\<close> of \<open>internal/query/planner.go\<close>: open the segments that
  survive pruning, merge their cursors with the open buffer, filter, and hand each match to a
  callback until the limit.  The callback carries a state of its own (\<open>'e\<close>), the segment store
  another (\<open>'st\<close>, its cache).
\<close>


section \<open>Requests and the segment store\<close>

record request =
  rq_Expr :: "node option"
  rq_Start :: time
  rq_End :: time
  rq_Limit :: int
  rq_Desc :: bool

text \<open>The Go interface \<open>SegmentStore\<close>.\<close>

record 'st segment_store =
  ss_Overlapping :: "time \<Rightarrow> time \<Rightarrow> 'st \<Rightarrow> go_error + segment_meta list"
  ss_Reader :: "segment_meta \<Rightarrow> 'st \<Rightarrow> (go_error + seg_reader) \<times> 'st"


section \<open>Run\<close>

text \<open>The loop over the overlapping segments.\<close>

fun open_segs ::
  "'st segment_store \<Rightarrow> node \<Rightarrow> request \<Rightarrow> segment_meta list \<Rightarrow> 'st \<Rightarrow> (go_error + recIter list) \<times> 'st" where
  "open_segs S expr req [] st = (Inr [], st)"
| "open_segs S expr req (m # ms) st =
     (if \<not> segmentMatches m expr then open_segs S expr req ms st
      else
        (case ss_Reader S m st of
           (Inl e, st1) \<Rightarrow> (Inl e, st1)
         | (Inr rd, st1) \<Rightarrow>
             (let (h, it) = seg_peek (newSegIter rd (rq_Start req) (rq_End req) (rq_Desc req)) in
              case open_segs S expr req ms st1 of
                (Inl e, st2) \<Rightarrow> (Inl e, st2)
              | (Inr its, st2) \<Rightarrow> (Inr (if h \<noteq> None then SegIter it # its else its), st2))))"

text \<open>The iterator over the open buffer, when it has a record.\<close>

definition open_iter :: "bool \<Rightarrow> log_record list \<Rightarrow> recIter list" where
  "open_iter desc rs =
     (if rs \<noteq> [] then
        (let si = \<lparr>si_recs = rs, si_pos = (if desc then int (length rs) - 1 else 0), si_desc = desc\<rparr>
         in if slice_peek si \<noteq> None then [SliceIter si] else [])
      else [])"

text \<open>The remaining records of all iterators: what the merge loop decreases.\<close>

definition iters_left :: "recIter list \<Rightarrow> nat" where
  "iters_left its = sum_list (map (\<lambda>it. length (iter_items it)) its)"

lemma iters_left_alt: "iters_left its = sum_list (map length (map iter_items its))"
  by (simp add: iters_left_def comp_def)

lemma pickNext_heads: "fst (pickNext desc its) = pick_head desc (map iter_items its)"
  by (simp add: pickNext_def pick_head_def iter.peek_head comp_def)

lemma pickNext_items: "map iter_items (snd (pickNext desc its)) = map iter_items its"
  by (simp add: pickNext_def comp_def iter.peek_items)

lemma pickNext_length: "length (snd (pickNext desc its)) = length its"
  by (simp add: pickNext_def)

lemma pickNext_pop:
  assumes "pickNext desc its = (Some k, its')"
  shows "k < length its'" and "fst (peek (its' ! k)) = Some (hd (iter_items (its ! k)))"
    and "map iter_items (its'[k := pop (its' ! k)])
      = (map iter_items its)[k := tl (iter_items (its ! k))]"
proof -
  from assms have ph: "pick_head desc (map iter_items its) = Some k"
    by (metis fst_conv pickNext_heads)
  note k = pick_head_Some(1,2) [OF ph]
  from assms have its': "its' = map (\<lambda>it. snd (peek it)) its" by (simp add: pickNext_def)
  with k show kl: "k < length its'" by simp
  from k obtain x xs where x: "iter_items (its ! k) = x # xs"
    by (cases "iter_items (its ! k)") auto
  from k its' have nth: "its' ! k = snd (peek (its ! k))" by simp
  then show "fst (peek (its' ! k)) = Some (hd (iter_items (its ! k)))"
    by (simp add: iter.peek_again iter.peek_head x)
  have "iter_items (pop (its' ! k)) = tl (iter_items (its ! k))"
    by (simp add: nth iter.pop_items x)
  then show "map iter_items (its'[k := pop (its' ! k)])
      = (map iter_items its)[k := tl (iter_items (its ! k))]"
    by (simp add: map_update its' comp_def iter.peek_items)
qed

lemma iters_left_pop:
  assumes "pickNext desc its = (Some k, its')"
  shows "iters_left (its'[k := pop (its' ! k)]) < iters_left its"
proof -
  from assms have ph: "pick_head desc (map iter_items its) = Some k"
    by (metis fst_conv pickNext_heads)
  from pick_head_Some(1,2) [OF ph]
  have "sum_list (map length ((map iter_items its)[k := tl (iter_items (its ! k))]))
      < sum_list (map length (map iter_items its))"
    using sum_list_update_less [of k "map iter_items its"] by simp
  then show ?thesis
    by (simp only: iters_left_alt pickNext_pop(3) [OF assms])
qed

text \<open>
  The merge loop.  It ends with an error of the callback (or the panic of a nil regular
  expression), or with the iterators as they are when the input or the limit is exhausted.
\<close>

function run_loop ::
  "runtime \<Rightarrow> node \<Rightarrow> request \<Rightarrow> 'e emitter \<Rightarrow> recIter list \<Rightarrow> int \<Rightarrow> 'e \<Rightarrow> (go_error + recIter list) \<times> 'e" where
  "run_loop rt expr req emit its cnt est =
     (case pickNext (rq_Desc req) its of
        (None, its1) \<Rightarrow> (Inr its1, est)
      | (Some k, its1) \<Rightarrow>
          (let r = the (fst (peek (its1 ! k))); its2 = its1[k := pop (its1 ! k)] in
           if rec_Timestamp r < rq_Start req \<and> \<not> is_zero (rq_Start req)
           then run_loop rt expr req emit its2 cnt est
           else if \<not> is_zero (rq_End req) \<and> rec_Timestamp r > rq_End req
           then run_loop rt expr req emit its2 cnt est
           else
             (case Match rt expr r of
                None \<Rightarrow> (Inl NilDereference, est)
              | Some False \<Rightarrow> run_loop rt expr req emit its2 cnt est
              | Some True \<Rightarrow>
                  (case emit r est of
                     (Some e, est1) \<Rightarrow> (Inl e, est1)
                   | (None, est1) \<Rightarrow>
                       if rq_Limit req > 0 \<and> cnt + 1 \<ge> rq_Limit req then (Inr its2, est1)
                       else run_loop rt expr req emit its2 (cnt + 1) est1))))"
  by pat_completeness auto
termination
  by (relation "measure (\<lambda>(rt, expr, req, emit, its, cnt, est). iters_left its)")
    (auto intro!: iters_left_pop)

declare run_loop.simps [simp del]

fun first_fail :: "recIter list \<Rightarrow> go_error option" where
  "first_fail [] = None"
| "first_fail (it # its) = (case iter_fail it of Some e \<Rightarrow> Some e | None \<Rightarrow> first_fail its)"

text \<open>\<open>Open\<close> is the open-segment snapshot of the manager, nil in an executor without one.\<close>

definition Run ::
  "runtime \<Rightarrow> 'st segment_store \<Rightarrow> (time \<Rightarrow> time \<Rightarrow> log_record list) option \<Rightarrow> request \<Rightarrow> 'e emitter
    \<Rightarrow> 'st \<Rightarrow> 'e \<Rightarrow> go_error option \<times> 'st \<times> 'e" where
  "Run rt S Open req emit st est =
     (let expr = (case rq_Expr req of None \<Rightarrow> matchAll | Some n \<Rightarrow> n) in
      case ss_Overlapping S (rq_Start req) (rq_End req) st of
        Inl e \<Rightarrow> (Some e, st, est)
      | Inr segs \<Rightarrow>
          (case open_segs S expr req segs st of
             (Inl e, st1) \<Rightarrow> (Some e, st1, est)
           | (Inr its, st1) \<Rightarrow>
               (let opened = (case Open of None \<Rightarrow> []
                  | Some snap \<Rightarrow> open_iter (rq_Desc req) (snap (rq_Start req) (rq_End req))) in
                case run_loop rt expr req emit (its @ opened) 0 est of
                  (Inl e, est1) \<Rightarrow> (Some e, st1, est1)
                | (Inr its1, est1) \<Rightarrow> (first_fail its1, st1, est1))))"


section \<open>The loop feeds the merge to the callback\<close>

text \<open>The loop body as a function of the list of merged records.\<close>

definition wanted :: "runtime \<Rightarrow> node \<Rightarrow> request \<Rightarrow> log_record \<Rightarrow> bool" where
  "wanted rt expr req r \<longleftrightarrow> in_window (rq_Start req) (rq_End req) (rec_Timestamp r) \<and> selects rt expr r"

definition limited :: "int \<Rightarrow> int \<Rightarrow> 'a list \<Rightarrow> 'a list" where
  "limited limit cnt xs = (if limit > 0 then take (nat (max 1 (limit - cnt))) xs else xs)"

lemma run_loop_collect:
  assumes "wf_node expr"
  shows "snd (run_loop rt expr req collect its cnt acc) =
      acc @ limited (rq_Limit req) cnt
        (filter (wanted rt expr req) (kmerge (rq_Desc req) (map iter_items its)))"
    and "\<exists>its'. fst (run_loop rt expr req collect its cnt acc) = Inr its'"
proof -
  let ?P = "\<lambda>its cnt acc.
      snd (run_loop rt expr req collect its cnt acc) =
        acc @ limited (rq_Limit req) cnt
          (filter (wanted rt expr req) (kmerge (rq_Desc req) (map iter_items its)))
      \<and> (\<exists>its'. fst (run_loop rt expr req collect its cnt acc) = Inr its')"
  have "?P its cnt acc"
  proof (induction "iters_left its" arbitrary: its cnt acc rule: less_induct)
    case less
    obtain c its1 where pn: "pickNext (rq_Desc req) its = (c, its1)" by (cases "pickNext (rq_Desc req) its")
    then have c: "c = pick_head (rq_Desc req) (map iter_items its)" by (metis fst_conv pickNext_heads)
    show ?case
    proof (cases c)
      case None
      with c have "kmerge (rq_Desc req) (map iter_items its) = []" by (subst kmerge.simps) simp
      with None pn show ?thesis by (subst (1 2) run_loop.simps) (simp add: limited_def)
    next
      case (Some k)
      let ?r = "hd (iter_items (its ! k))"
      let ?its = "its1[k := pop (its1 ! k)]"
      note pn' = pn [unfolded Some]
      note pp = pickNext_pop [OF pn']
      from c Some have ph: "pick_head (rq_Desc req) (map iter_items its) = Some k" by simp
      from pick_head_Some(1) [OF ph] have kl: "k < length its" by simp
      have km: "kmerge (rq_Desc req) (map iter_items its) = ?r # kmerge (rq_Desc req) (map iter_items ?its)"
        using kl by (subst kmerge.simps) (simp only: pp(3) ph option.case nth_map)
      have IH: "?P ?its cnt' acc'" for cnt' acc'
        by (rule less) (rule iters_left_pop [OF pn'])
      have M: "Match rt expr ?r = Some (selects rt expr ?r)" by (rule Match_total) (rule assms)
      have step: "run_loop rt expr req collect its cnt acc =
          (if \<not> wanted rt expr req ?r then run_loop rt expr req collect ?its cnt acc
           else if rq_Limit req > 0 \<and> cnt + 1 \<ge> rq_Limit req then (Inr ?its, acc @ [?r])
           else run_loop rt expr req collect ?its (cnt + 1) (acc @ [?r]))"
        by (subst run_loop.simps)
          (auto simp: pn' pp(2) M wanted_def in_window_def collect_def Let_def split: bool.splits)
      show ?thesis
      proof (cases "wanted rt expr req ?r")
        case False
        with IH [of cnt acc] step km show ?thesis by simp
      next
        case True
        show ?thesis
        proof (cases "rq_Limit req > 0 \<and> cnt + 1 \<ge> rq_Limit req")
          case stop: True
          then have "nat (max 1 (rq_Limit req - cnt)) = Suc 0" by simp
          with stop True step km show ?thesis by (simp add: limited_def)
        next
          case go: False
          have "limited (rq_Limit req) cnt (?r # xs) = ?r # limited (rq_Limit req) (cnt + 1) xs" for xs
          proof (cases "rq_Limit req > 0")
            case pos: True
            with go have "nat (max 1 (rq_Limit req - cnt)) = Suc (nat (max 1 (rq_Limit req - (cnt + 1))))"
              by (simp add: max_def)
            with pos show ?thesis by (simp only: limited_def if_True take_Suc_Cons)
          qed (simp add: limited_def)
          moreover from step True go have "run_loop rt expr req collect its cnt acc
              = run_loop rt expr req collect ?its (cnt + 1) (acc @ [?r])" 
            by (simp only: if_False not_True_eq_False)
          ultimately show ?thesis using True km IH [of "cnt + 1" "acc @ [?r]"] by simp
        qed
      qed
    qed
  qed
  then show "snd (run_loop rt expr req collect its cnt acc) =
      acc @ limited (rq_Limit req) cnt
        (filter (wanted rt expr req) (kmerge (rq_Desc req) (map iter_items its)))"
    and "\<exists>its'. fst (run_loop rt expr req collect its cnt acc) = Inr its'"
    by auto
qed


section \<open>The records of an opened segment\<close>

text \<open>
  \<open>faithful m rd rs\<close>: the reader delivers the records \<open>rs\<close>, in time order and cut into the
  blocks of its index; every record lies within the bounds of its block and of the segment, and
  the segment's summary lists its names.
\<close>

definition faithful :: "segment_meta \<Rightarrow> seg_reader \<Rightarrow> log_record list \<Rightarrow> bool" where
  "faithful m rd rs \<longleftrightarrow>
     (\<exists>chunks. rs = concat chunks \<and> length chunks = length (rd_blocks rd) \<and>
        (\<forall>i < length chunks. rd_read rd i = Inr (chunks ! i) \<and>
           (\<forall>r \<in> set (chunks ! i). bm_MinTS (rd_blocks rd ! i) \<le> rec_Timestamp r \<and>
              rec_Timestamp r \<le> bm_MaxTS (rd_blocks rd ! i)))) \<and>
     ts_sorted False rs \<and>
     (\<forall>r \<in> set rs. sm_MinTS m \<le> rec_Timestamp r \<and> rec_Timestamp r \<le> sm_MaxTS m \<and> summarises m r)"

lemma ts_sorted_rev: "ts_sorted True (rev rs) = ts_sorted False rs"
  by (simp add: ts_sorted_def sorts_before_def sorted_wrt_rev)

lemma sorted_wrt_concat_filter:
  "sorted_wrt R (concat (map f xs)) \<Longrightarrow> sorted_wrt R (concat (map f (filter P xs)))"
  by (induction xs) (auto simp: sorted_wrt_append)

lemma filter_concat_filter:
  "(\<And>x. x \<in> set xs \<Longrightarrow> \<not> P x \<Longrightarrow> filter Q (f x) = []) \<Longrightarrow>
    filter Q (concat (map f (filter P xs))) = filter Q (concat (map f xs))"
  by (induction xs) auto

lemma read_until_Inr:
  "(\<And>i. i \<in> set is \<Longrightarrow> rd_read rd i = Inr (f i)) \<Longrightarrow>
    read_until rd desc is = concat (map (\<lambda>i. if desc then rev (f i) else f i) is)"
  by (induction "is") auto

definition directed :: "bool \<Rightarrow> 'a list \<Rightarrow> 'a list" where
  "directed desc xs = (if desc then rev xs else xs)"

lemma ts_sorted_directed: "ts_sorted desc (directed desc rs) = ts_sorted False rs"
  by (cases desc) (simp_all add: directed_def ts_sorted_rev)

lemma filter_directed [simp]: "filter P (directed desc xs) = directed desc (filter P xs)"
  by (simp add: directed_def rev_filter)

lemma mset_directed [simp]: "mset (directed desc xs) = mset xs"
  by (simp add: directed_def)

lemma concat_rev_map: "concat (map (\<lambda>i. rev (f i)) (rev xs)) = rev (concat (map f xs))"
  by (induction xs) auto

lemma seg_items_new:
  assumes f: "faithful m rd rs"
  shows "ts_sorted desc (seg_items (newSegIter rd start stop desc))"
    and "(\<And>r. r \<in> set rs \<Longrightarrow> Q r \<Longrightarrow> in_window start stop (rec_Timestamp r)) \<Longrightarrow>
      filter Q (seg_items (newSegIter rd start stop desc)) = directed desc (filter Q rs)"
proof -
  from f obtain chunks where rs: "rs = concat chunks" and len: "length chunks = length (rd_blocks rd)"
    and rd: "\<forall>i < length chunks. rd_read rd i = Inr (chunks ! i) \<and>
       (\<forall>r \<in> set (chunks ! i). bm_MinTS (rd_blocks rd ! i) \<le> rec_Timestamp r \<and>
          rec_Timestamp r \<le> bm_MaxTS (rd_blocks rd ! i))"
    and sorted: "ts_sorted False rs"
    unfolding faithful_def by blast
  let ?P = "\<lambda>i. block_overlaps (rd_blocks rd ! i) start stop"
  let ?all = "[0 ..< length chunks]"
  let ?sel = "concat (map ((!) chunks) (filter ?P ?all))"
  have all: "concat (map ((!) chunks) ?all) = rs" by (simp add: rs map_nth)
  have "read_until rd desc (directed desc (filter ?P ?all))
      = concat (map (\<lambda>i. if desc then rev (chunks ! i) else chunks ! i) (directed desc (filter ?P ?all)))"
    using rd by (intro read_until_Inr) (auto simp: directed_def split: if_splits)
  then have items: "seg_items (newSegIter rd start stop desc) = directed desc ?sel"
    by (cases desc) (simp_all add: seg_items_def newSegIter_def Let_def directed_def concat_rev_map len)
  have "ts_sorted False ?sel"
    using sorted sorted_wrt_concat_filter [of _ "(!) chunks" ?all ?P]
    unfolding ts_sorted_def all by blast
  with items show "ts_sorted desc (seg_items (newSegIter rd start stop desc))"
    by (simp add: ts_sorted_directed)
  assume Q: "\<And>r. r \<in> set rs \<Longrightarrow> Q r \<Longrightarrow> in_window start stop (rec_Timestamp r)"
  have "filter Q (chunks ! i) = []" if "i \<in> set ?all" "\<not> ?P i" for i
  proof -
    have "\<not> Q r" if r: "r \<in> set (chunks ! i)" for r
    proof
      assume "Q r"
      moreover from r \<open>i \<in> set ?all\<close> have "r \<in> set rs" unfolding rs by (auto intro: nth_mem)
      ultimately have "in_window start stop (rec_Timestamp r)" by (rule Q [rotated])
      with rd r \<open>i \<in> set ?all\<close> \<open>\<not> ?P i\<close> show False by (auto dest: block_overlaps_window)
    qed
    then show ?thesis by simp
  qed
  then have "filter Q ?sel = filter Q rs" unfolding all [symmetric] by (rule filter_concat_filter)
  with items show "filter Q (seg_items (newSegIter rd start stop desc)) = directed desc (filter Q rs)"
    by simp
qed

text \<open>A healthy iterator has not failed and never will.\<close>

fun healthy :: "recIter \<Rightarrow> bool" where
  "healthy (SliceIter s) = True"
| "healthy (SegIter s) \<longleftrightarrow>
     sg_err s = None \<and> (\<forall>i \<in> set (sg_blocks s). \<exists>rs. rd_read (sg_rd s) i = Inr rs)"

lemma load_healthy: "healthy (SegIter s) \<Longrightarrow> healthy (SegIter (load s))"
proof (induction s rule: load.induct)
  case (1 s)
  show ?case
  proof (cases "length (sg_buf s) \<le> sg_pos s \<and> sg_bi s < length (sg_blocks s)")
    case True
    with 1 obtain rs where "rd_read (sg_rd s) (sg_blocks s ! sg_bi s) = Inr rs" by fastforce
    with True 1 show ?thesis by (subst load.simps) simp
  next
    case False
    with "1.prems" show ?thesis by (subst load.simps) (simp only: if_False)
  qed
qed

lemma peek_healthy: "healthy it \<Longrightarrow> healthy (snd (peek it))"
  by (cases it) (auto simp: peek_seg seg_peek_state simp del: peek.simps(2) healthy.simps(2) intro: load_healthy)

lemma pop_healthy: "healthy it \<Longrightarrow> healthy (pop it)"
  by (cases it) (simp_all add: seg_pop_def)

lemma first_fail_healthy: "\<forall>it \<in> set its. healthy it \<Longrightarrow> first_fail its = None"
proof (induction its)
  case (Cons it its)
  then show ?case by (cases it) auto
qed simp

lemma pickNext_healthy:
  "\<forall>it \<in> set its. healthy it \<Longrightarrow> \<forall>it \<in> set (snd (pickNext desc its)). healthy it"
  by (auto simp: pickNext_def peek_healthy)

lemma run_loop_healthy:
  "run_loop rt expr req emit its cnt est = (Inr its', est') \<Longrightarrow> \<forall>it \<in> set its. healthy it \<Longrightarrow>
    \<forall>it \<in> set its'. healthy it"
proof (induction "iters_left its" arbitrary: its cnt est rule: less_induct)
  case less
  obtain c its1 where pn: "pickNext (rq_Desc req) its = (c, its1)" by (cases "pickNext (rq_Desc req) its")
  with less.prems(2) have h1: "\<forall>it \<in> set its1. healthy it"
    using pickNext_healthy [of its "rq_Desc req"] by simp
  show ?case
  proof (cases c)
    case None
    with less.prems(1) pn h1 show ?thesis by (subst (asm) run_loop.simps) simp
  next
    case (Some k)
    let ?its = "its1[k := pop (its1 ! k)]"
    note pn' = pn [unfolded Some]
    from h1 pickNext_pop(1) [OF pn'] have h2: "\<forall>it \<in> set ?its. healthy it"
      using set_update_subset_insert [of its1 k "pop (its1 ! k)"] pop_healthy [of "its1 ! k"] nth_mem [of k its1]
      by blast
    note IH = less.hyps [OF iters_left_pop [OF pn'] _ h2]
    from less.prems(1) [unfolded run_loop.simps [of rt expr req emit its]] h2 show ?thesis
      by (auto simp: pn' Let_def dest: IH split: if_split_asm option.split_asm bool.split_asm prod.split_asm)
  qed
qed


lemma open_iter_items: "concat (map iter_items (open_iter desc rs)) = directed desc rs"
  by (cases rs) (auto simp: open_iter_def directed_def slice_peek_def slice_items_def Let_def)

lemma open_iter_ok:
  "ts_sorted False rs \<Longrightarrow> it \<in> set (open_iter desc rs) \<Longrightarrow> healthy it \<and> ts_sorted desc (iter_items it)"
  using open_iter_items [of desc rs] ts_sorted_directed [of desc rs]
  by (auto simp: open_iter_def Let_def split: if_splits)


section \<open>What the executor needs of a segment store\<close>

text \<open>
  The contract of the Go interface \<open>SegmentStore\<close>.  \<open>metas st\<close> are the segments of the store,
  \<open>content st m\<close> the records of one of them, and \<open>good st\<close> the invariant under which opening a
  segment succeeds and leaves the store with the same records.
\<close>

locale segment_source =
  fixes S :: "'st segment_store"
    and good :: "'st \<Rightarrow> bool"
    and metas :: "'st \<Rightarrow> segment_meta list"
    and content :: "'st \<Rightarrow> segment_meta \<Rightarrow> log_record list"
  assumes overlapping: "good st \<Longrightarrow>
      ss_Overlapping S start stop st = Inr (filter (\<lambda>m. segment_overlaps m start stop) (metas st))"
    and reader: "good st \<Longrightarrow> m \<in> set (metas st) \<Longrightarrow>
      \<exists>rd st'. ss_Reader S m st = (Inr rd, st') \<and> good st' \<and> metas st' = metas st \<and>
        content st' = content st \<and> faithful m rd (content st m)"
begin

text \<open>The iterators opened for a request, and what they hold for a predicate within its window.\<close>

lemma open_segs_items:
  assumes "wf_node expr"
    and Q: "\<And>r. Q r \<Longrightarrow> in_window (rq_Start req) (rq_End req) (rec_Timestamp r) \<and> selects rt expr r"
  shows "good st \<Longrightarrow> set ms \<subseteq> set (metas st) \<Longrightarrow>
    \<exists>its st'. open_segs S expr req ms st = (Inr its, st') \<and> good st' \<and> metas st' = metas st \<and>
      content st' = content st \<and>
      (\<forall>it \<in> set its. healthy it \<and> ts_sorted (rq_Desc req) (iter_items it)) \<and>
      mset (filter Q (concat (map iter_items its))) = mset (filter Q (concat (map (content st) ms)))"
proof (induction ms arbitrary: st)
  case (Cons m ms)
  show ?case
  proof (cases "segmentMatches m expr")
    case False
    obtain rd st' where "faithful m rd (content st m)" using reader Cons.prems by fastforce
    then have "\<forall>r \<in> set (content st m). summarises m r" by (simp add: faithful_def)
    with False Q assms(1) have "filter Q (content st m) = []"
      by (metis (no_types, lifting) filter_empty_conv segmentMatches_complete)
    with False Cons show ?thesis by auto
  next
    case True
    obtain rd st1 where r: "ss_Reader S m st = (Inr rd, st1)" and g: "good st1" "metas st1 = metas st"
      "content st1 = content st" and f: "faithful m rd (content st m)"
      using reader [of st m] Cons.prems by auto
    with Cons obtain its st2 where o: "open_segs S expr req ms st1 = (Inr its, st2)" "good st2"
      "metas st2 = metas st" "content st2 = content st"
      "\<forall>it \<in> set its. healthy it \<and> ts_sorted (rq_Desc req) (iter_items it)"
      "mset (filter Q (concat (map iter_items its))) = mset (filter Q (concat (map (content st) ms)))"
      by (metis list.set_intros(2) subset_code(1))
    let ?new = "newSegIter rd (rq_Start req) (rq_End req) (rq_Desc req)"
    obtain h it where p: "seg_peek ?new = (h, it)" by (cases "seg_peek ?new")
    have items: "seg_items it = seg_items ?new" and h: "h = head_opt (seg_items ?new)"
      using seg.peek_items [of ?new] seg.peek_head [of ?new] p by simp_all
    have "healthy (SegIter ?new)"
      using f by (auto simp: newSegIter_def Let_def faithful_def split: if_splits)
    then have hl: "healthy (SegIter it)"
      using peek_healthy [of "SegIter ?new"] p by simp
    have fq: "filter Q (seg_items ?new) = directed (rq_Desc req) (filter Q (content st m))"
      using Q by (intro seg_items_new(2) [OF f]) blast
    from r o p have "open_segs S expr req (m # ms) st =
        (Inr (if h \<noteq> None then SegIter it # its else its), st2)"
      using True by simp
    moreover have "mset (filter Q (concat (map iter_items (if h \<noteq> None then SegIter it # its else its))))
        = mset (filter Q (concat (map (content st) (m # ms))))"
    proof -
      have "concat (map iter_items (if h \<noteq> None then SegIter it # its else its))
          = seg_items ?new @ concat (map iter_items its)"
        using h items by simp
      moreover from fq have "mset (filter Q (seg_items ?new)) = mset (filter Q (content st m))"
        by (simp del: mset_filter)
      ultimately show ?thesis using o(6) by (simp del: mset_filter)
    qed
    ultimately show ?thesis
      using o hl seg_items_new(1) [OF f, of "rq_Desc req"] items by auto
  qed
qed simp

text \<open>
  The executor is exact: a collecting run ends without an error, and what it collects is the
  sorted list of all wanted records, sealed or open, cut at the limit.
\<close>

lemma run_exact:
  assumes "good st"
    and expr: "expr = (case rq_Expr req of None \<Rightarrow> matchAll | Some n \<Rightarrow> n)" "wf_node expr"
    and opened: "opened = (case Open of None \<Rightarrow> [] | Some snap \<Rightarrow> snap (rq_Start req) (rq_End req))"
      "ts_sorted False opened"
  shows "\<exists>st' out. Run rt S Open req collect st [] =
      (None, st', if rq_Limit req > 0 then take (nat (rq_Limit req)) out else out) \<and>
    good st' \<and> metas st' = metas st \<and> content st' = content st \<and>
    ts_sorted (rq_Desc req) out \<and>
    mset out = mset (filter (wanted rt expr req) (concat (map (content st) (metas st)) @ opened))"
proof -
  let ?W = "wanted rt expr req"
  let ?sel = "filter (\<lambda>m. segment_overlaps m (rq_Start req) (rq_End req)) (metas st)"
  let ?open = "case Open of None \<Rightarrow> [] | Some snap \<Rightarrow> open_iter (rq_Desc req) (snap (rq_Start req) (rq_End req))"
  have W: "\<And>r. ?W r \<Longrightarrow> in_window (rq_Start req) (rq_End req) (rec_Timestamp r) \<and> selects rt expr r"
    by (simp add: wanted_def)
  from open_segs_items [where Q = ?W and ms = ?sel, OF expr(2) W assms(1)] obtain its st' where
    o: "open_segs S expr req ?sel st = (Inr its, st')" "good st'" "metas st' = metas st"
      "content st' = content st"
      "\<forall>it \<in> set its. healthy it \<and> ts_sorted (rq_Desc req) (iter_items it)"
    and ms: "mset (filter ?W (concat (map iter_items its))) = mset (filter ?W (concat (map (content st) ?sel)))"
    by auto
  have "filter ?W (content st m) = []"
    if m: "m \<in> set (metas st)" and no: "\<not> segment_overlaps m (rq_Start req) (rq_End req)" for m
  proof -
    obtain rd st'' where "faithful m rd (content st m)" using reader [OF assms(1) m] by blast
    with no show ?thesis
      by (auto simp: faithful_def filter_empty_conv wanted_def dest!: segment_overlaps_window)
  qed
  then have sel: "filter ?W (concat (map (content st) ?sel)) = filter ?W (concat (map (content st) (metas st)))"
    by (rule filter_concat_filter)
  have op: "concat (map iter_items ?open) = directed (rq_Desc req) opened"
    "\<forall>it \<in> set ?open. healthy it \<and> ts_sorted (rq_Desc req) (iter_items it)"
    using opened open_iter_ok [of opened _ "rq_Desc req"]
    by (cases Open; simp add: open_iter_items directed_def)+
  let ?its = "its @ ?open"
  let ?out = "filter ?W (kmerge (rq_Desc req) (map iter_items ?its))"
  from o(5) op(2) have all: "\<forall>it \<in> set ?its. healthy it" "\<forall>l \<in> set (map iter_items ?its). ts_sorted (rq_Desc req) l"
    by auto
  from kmerge_sorted [OF all(2)] have sorted: "ts_sorted (rq_Desc req) ?out"
    unfolding ts_sorted_def by (rule sorted_wrt_filter)
  have "mset ?out = mset (filter ?W (concat (map iter_items its))) + mset (filter ?W opened)"
    using mset_kmerge [of "rq_Desc req" "map iter_items ?its"] by (simp add: op(1))
  with ms sel have perm: "mset ?out = mset (filter ?W (concat (map (content st) (metas st)) @ opened))"
    by (simp del: mset_filter)
  obtain its1 where loop: "run_loop rt expr req collect ?its 0 []
      = (Inr its1, limited (rq_Limit req) 0 ?out)"
    using run_loop_collect [OF expr(2), of rt req ?its 0 "[]"] by (metis append_Nil prod.collapse)
  from first_fail_healthy [OF run_loop_healthy [OF loop all(1)]]
  have "Run rt S Open req collect st [] = (None, st', limited (rq_Limit req) 0 ?out)"
    using o(1) loop expr(1) by (simp add: Run_def overlapping [OF assms(1)] Let_def)
  with o sorted perm show ?thesis
    by (intro exI [of _ st'] exI [of _ ?out]) (simp add: limited_def)
qed

end


section \<open>Properties\<close>

text \<open>A segment whose first block in the order of the scan cannot be read opens as if it were not there.\<close>

lemma newSegIter_sel [simp]:
  "sg_err (newSegIter rd start stop desc) = None" "sg_rd (newSegIter rd start stop desc) = rd"
  "sg_bi (newSegIter rd start stop desc) = 0" "sg_buf (newSegIter rd start stop desc) = []"
  by (simp_all add: newSegIter_def Let_def)

lemma first_block_no_peek:
  assumes "sg_blocks (newSegIter rd start stop desc) = i # is" and "rd_read rd i = Inl e"
  shows "fst (seg_peek (newSegIter rd start stop desc)) = None"
  using assms by (simp add: seg_peek_head seg_items_def)

lemma open_segs_append:
  "open_segs S expr req (xs @ ys) st =
    (case open_segs S expr req xs st of
       (Inl e, st1) \<Rightarrow> (Inl e, st1)
     | (Inr its, st1) \<Rightarrow>
         (case open_segs S expr req ys st1 of
            (Inl e, st2) \<Rightarrow> (Inl e, st2)
          | (Inr its', st2) \<Rightarrow> (Inr (its @ its'), st2)))"
  by (induction xs arbitrary: st) (simp_all split: sum.split prod.split)

lemma open_segs_unreadable:
  assumes "ss_Reader S m st = (Inr rd, st1)" and "open_segs S expr req ys st1 = (Inr its, st2)"
    and "sg_blocks (newSegIter rd (rq_Start req) (rq_End req) (rq_Desc req)) = i # is" and "rd_read rd i = Inl e"
    and "segmentMatches m expr"
  shows "open_segs S expr req (m # ys) st = (Inr its, st2)"
  using assms(1,2,5) first_block_no_peek [OF assms(3,4)] by (simp add: split_beta)

text \<open>
  C24: a read error in the first block of a segment is lost.  \<open>Run\<close> keeps an iterator only when its
  first \<open>peek\<close> yields a record, and the errors it reports are those of the iterators it kept.  So
  let a query match a segment whose first block, in the order of the scan, cannot be read, while
  the segments before and after it open and have no unreadable block: whatever else the query
  asks for, with or without the open buffer, \<open>Run\<close> reports no error and emits what the other
  segments and the buffer have.
\<close>

theorem first_block_error_unreported:
  assumes "ss_Overlapping S (rq_Start req) (rq_End req) st = Inr (xs @ m # ys)"
    and "expr = (case rq_Expr req of None \<Rightarrow> matchAll | Some n \<Rightarrow> n)" and "wf_node expr" and "segmentMatches m expr"
    and "open_segs S expr req xs st = (Inr its1, st1)" and "ss_Reader S m st1 = (Inr rd, st2)"
    and "open_segs S expr req ys st2 = (Inr its2, st3)" and "list_all healthy (its1 @ its2)"
    and "sg_blocks (newSegIter rd (rq_Start req) (rq_End req) (rq_Desc req)) = i # is" and "rd_read rd i = Inl e"
    and "opened = (case Open of None \<Rightarrow> [] | Some snap \<Rightarrow> open_iter (rq_Desc req) (snap (rq_Start req) (rq_End req)))"
  shows "Run rt S Open req collect st out = (None, st3, out @ limited (rq_Limit req) 0
    (filter (wanted rt expr req) (kmerge (rq_Desc req) (map iter_items (its1 @ its2 @ opened)))))"
proof -
  let ?its = "(its1 @ its2) @ opened"
  have o: "open_segs S expr req (xs @ m # ys) st = (Inr (its1 @ its2), st3)"
    using assms(5) open_segs_unreadable [OF assms(6,7,9,10,4)] by (simp add: open_segs_append)
  have "healthy it" if "it \<in> set (open_iter desc rs)" for it desc rs
    using that by (auto simp: open_iter_def Let_def split: if_splits)
  then have h: "\<forall>it \<in> set ?its. healthy it" using assms(8,11) by (auto simp: list_all_iff split: option.splits)
  note run = run_loop_collect [OF assms(3), of rt req ?its 0 out]
  obtain its' where r: "run_loop rt expr req collect ?its 0 out = (Inr its', out @ limited (rq_Limit req) 0
      (filter (wanted rt expr req) (kmerge (rq_Desc req) (map iter_items ?its))))"
    using run by (metis prod.collapse)
  from first_fail_healthy [OF run_loop_healthy [OF r h]] r assms(1) o show ?thesis
    by (simp add: Run_def Let_def assms(11) flip: assms(2))
qed

text \<open>A readable segment before one of two blocks, the first of which cannot be read.\<close>

definition sample_block :: block_meta where
  "sample_block = \<lparr>bm_FileOffset = 32, bm_CompLen = 9, bm_UncompLen = 9, bm_MinTS = 5, bm_MaxTS = 7, bm_RecordCount = 1\<rparr>"

definition sample_source_of :: "(nat \<Rightarrow> go_error + log_record list) \<Rightarrow> unit segment_store" where
  "sample_source_of read = \<lparr>ss_Overlapping = (\<lambda>_ _ _. Inr [empty_meta, empty_meta\<lparr>sm_ID := ''B''\<rparr>]),
     ss_Reader = (\<lambda>m st. (Inr (if sm_ID m = ''B'' then \<lparr>rd_blocks = [sample_block, sample_block], rd_read = read\<rparr>
       else \<lparr>rd_blocks = [sample_block], rd_read = (\<lambda>_. Inr [empty_record\<lparr>rec_Timestamp := 6\<rparr>])\<rparr>), st))\<rparr>"

theorem first_block_error_unreported_witness:
  "Run bare_runtime (sample_source_of (\<lambda>i. if i = 0 then Inl (OtherError ''io'') else Inr [])) None
     \<lparr>rq_Expr = None, rq_Start = 5, rq_End = 7, rq_Limit = 0, rq_Desc = False\<rparr> collect () []
   = (None, (), [empty_record\<lparr>rec_Timestamp := 6\<rparr>])"
proof -
  let ?S = "sample_source_of (\<lambda>i. if i = 0 then Inl (OtherError ''io'') else Inr [])"
  let ?req = "\<lparr>rq_Expr = None, rq_Start = 5, rq_End = 7, rq_Limit = 0, rq_Desc = False\<rparr>"
  let ?r = "empty_record\<lparr>rec_Timestamp := 6\<rparr>"
  let ?A = "\<lparr>rd_blocks = [sample_block], rd_read = (\<lambda>_. Inr [?r])\<rparr>"
  obtain h it where p: "seg_peek (newSegIter ?A 5 7 False) = (h, it)" by (cases "seg_peek (newSegIter ?A 5 7 False)")
  have overlap: "block_overlaps sample_block 5 7" by (simp add: block_overlaps_def sample_block_def)
  have all: "segmentMatches m matchAll" for m by (simp add: segmentMatches_def prunablePredicates_def)
  have blocks: "sg_blocks (newSegIter ?A 5 7 False) = [0]" using overlap by (simp add: newSegIter_def Let_def)
  then have items: "seg_items (newSegIter ?A 5 7 False) = [?r]" by (simp add: seg_items_def newSegIter_def Let_def)
  have h: "h = Some ?r" using seg_peek_head [of "newSegIter ?A 5 7 False"] p items by simp
  have it: "healthy (SegIter it)" "seg_items it = [?r]"
    using peek_healthy [of "SegIter (newSegIter ?A 5 7 False)"] iter.peek_items [of "SegIter (newSegIter ?A 5 7 False)"] p items
    by (simp_all add: peek_seg)
  have o: "open_segs ?S matchAll ?req [empty_meta] () = (Inr [SegIter it], ())"
    using p h all by (simp add: sample_source_of_def empty_meta_def)
  have merge: "kmerge False [[?r]] = [?r]" by (simp add: kmerge.simps pick_head_def head_opt_def)
  have want: "wanted bare_runtime matchAll ?req ?r" by (simp add: wanted_def in_window_def selects_def is_zero_def)
  let ?m = "empty_meta\<lparr>sm_ID := ''B''\<rparr>"
  let ?B = "\<lparr>rd_blocks = [sample_block, sample_block], rd_read = (\<lambda>i. if i = 0 then Inl (OtherError ''io'') else Inr [])\<rparr>"
  have segs: "ss_Overlapping ?S (rq_Start ?req) (rq_End ?req) () = Inr ([empty_meta] @ ?m # [])"
    and e: "matchAll = (case rq_Expr ?req of None \<Rightarrow> matchAll | Some n \<Rightarrow> n)"
    and rd: "ss_Reader ?S ?m () = (Inr ?B, ())" and rest: "open_segs ?S matchAll ?req [] () = (Inr [], ())"
    and bl: "sg_blocks (newSegIter ?B (rq_Start ?req) (rq_End ?req) (rq_Desc ?req)) = 0 # [1]"
    and bad: "rd_read ?B 0 = Inl (OtherError ''io'')" and ok: "list_all healthy ([SegIter it] @ [])" and wf: "wf_node matchAll"
    using overlap it by (simp_all add: sample_source_of_def newSegIter_def Let_def)
  from first_block_error_unreported [OF segs e wf all o rd rest ok bl bad refl, of bare_runtime None "[]"] it merge want
  show ?thesis by (simp add: limited_def)
qed

end
