(* ===== verification/SegmentProofs.thy ===== *)
theory SegmentProofs
  imports SegmentFile QueryExec
begin

text \<open>
  What the segment writer produces and what the reader makes of it.  The invariant of the writer
  relates its state to the records appended so far; from it follow the shape of the finished
  file, the success of \<open>Open\<close> on it, and that \<open>ReadBlock\<close> returns the records block by block.
\<close>


section \<open>What the file format relies on\<close>

text \<open>
  The documented behaviour of the packages behind the format.  \<open>encoding/json\<close> renders a record
  that it can represent on one line, decodes it back, and does the same for the lists of names of
  a summary; zstd decompresses what it compressed; an \<open>io.Writer\<close> that returns no error has
  taken all the bytes.
\<close>

definition summary_names :: "summary \<Rightarrow> string set" where
  "summary_names s = set (su_Namespaces s) \<union> set (su_Pods s) \<union> set (su_Nodes s) \<union>
     set (su_Containers s) \<union> set (su_LabelKeys s) \<union> set (su_FieldKeys s)"

definition record_names :: "log_record \<Rightarrow> string set" where
  "record_names r = {rec_Namespace r, rec_Pod r, rec_Node r, rec_Container r} \<union>
     fst ` set (rec_Labels r) \<union> fst ` set (rec_Body r)"

definition codec_ok :: "codec \<Rightarrow> (log_record \<Rightarrow> bool) \<Rightarrow> (string \<Rightarrow> bool) \<Rightarrow> bool" where
  "codec_ok C good_rec good_name \<longleftrightarrow>
     (\<forall>r. good_rec r \<longrightarrow>
        (\<exists>line. enc_record C r = Inr line \<and> line \<noteq> [] \<and> NL \<notin> set line \<and> last line \<noteq> CHR 0x0D \<and>
           length line < max_line \<and> dec_record C line = Inr r)) \<and>
     (\<forall>s. (\<forall>x \<in> summary_names s. x \<noteq> [] \<and> good_name x) \<longrightarrow>
        (\<exists>j. enc_summary C s = Inr j \<and> dec_summary C j = Inr s)) \<and>
     (\<forall>x. zstd_dec C (zstd_enc C x) = Inr x)"

definition io_contract :: "io_writer \<Rightarrow> bool" where
  "io_contract wr \<longleftrightarrow> (\<forall>out b n. wr out b = (n, None) \<longrightarrow> n = length b)"

definition line_of :: "codec \<Rightarrow> log_record \<Rightarrow> string" where
  "line_of C r = (case enc_record C r of Inl e \<Rightarrow> [] | Inr l \<Rightarrow> l)"

definition text_of :: "codec \<Rightarrow> log_record list \<Rightarrow> string" where
  "text_of C rs = concat (map (\<lambda>r. line_of C r @ [NL]) rs)"

lemma text_of_simps [simp]: "text_of C [] = []" "text_of C (rs @ ss) = text_of C rs @ text_of C ss"
  by (simp_all add: text_of_def)

lemma length_text_of: "length rs \<le> length (text_of C rs)"
  by (induction rs) (simp_all add: text_of_def)

lemma text_of_Nil_iff [simp]: "text_of C rs = [] \<longleftrightarrow> rs = []" "[] = text_of C rs \<longleftrightarrow> rs = []"
  by (cases rs; simp add: text_of_def)+


section \<open>The invariant of the writer\<close>

text \<open>The bounds \<open>lo\<close> and \<open>hi\<close> are the least and the greatest time of the records.\<close>

definition spans :: "time \<Rightarrow> time \<Rightarrow> log_record list \<Rightarrow> bool" where
  "spans lo hi rs \<longleftrightarrow> (\<forall>r \<in> set rs. lo \<le> rec_Timestamp r \<and> rec_Timestamp r \<le> hi) \<and>
     (rs \<noteq> [] \<longrightarrow> lo \<in> rec_Timestamp ` set rs \<and> hi \<in> rec_Timestamp ` set rs)"

lemma spans_snoc:
  assumes "spans lo hi rs"
  shows "spans (if rs = [] \<or> rec_Timestamp r < lo then rec_Timestamp r else lo)
    (if rs = [] \<or> rec_Timestamp r > hi then rec_Timestamp r else hi) (rs @ [r])"
  using assms by (cases "rs = []") (auto simp: spans_def)

text \<open>A block of the index: where its compressed bytes are in the output, and its records.\<close>

definition block_ok :: "codec \<Rightarrow> string \<Rightarrow> block_meta \<Rightarrow> log_record list \<Rightarrow> bool" where
  "block_ok C out b chunk \<longleftrightarrow>
     (\<exists>pre post. out = pre @ zstd_enc C (text_of C chunk) @ post \<and> bm_FileOffset b = int (length pre)) \<and>
     bm_CompLen b = int (length (zstd_enc C (text_of C chunk))) \<and>
     bm_UncompLen b = int (length (text_of C chunk)) \<and>
     bm_RecordCount b = int (length chunk) \<and> chunk \<noteq> [] \<and>
     (length chunk \<le> 1 \<or> int (length (text_of C chunk)) \<le> defaultBlockTargetBytes) \<and>
     spans (bm_MinTS b) (bm_MaxTS b) chunk"

lemma block_ok_append: "block_ok C out b chunk \<Longrightarrow> block_ok C (out @ ext) b chunk"
  unfolding block_ok_def by (metis append.assoc)

text \<open>The summary fields of the writer.\<close>

definition stats_ok :: "log_record list \<Rightarrow> Writer \<Rightarrow> bool" where
  "stats_ok rs sw \<longleftrightarrow> sw_total sw = int (length rs) \<and> spans (sw_segMin sw) (sw_segMax sw) rs \<and>
     set (sw_namespaces sw) = rec_Namespace ` set rs - {[]} \<and>
     set (sw_pods sw) = rec_Pod ` set rs - {[]} \<and>
     set (sw_nodes sw) = rec_Node ` set rs - {[]} \<and>
     set (sw_containers sw) = rec_Container ` set rs - {[]} \<and>
     set (sw_labelKeys sw) = (\<Union>r \<in> set rs. fst ` set (rec_Labels r)) - {[]} \<and>
     set (sw_fieldKeys sw) = (\<Union>r \<in> set rs. fst ` set (rec_Body r)) - {[]} \<and>
     sw_srcOffset sw = fold (\<lambda>r. raise_max (rec_key r) (rec_Offset r)) rs Map.empty"

definition current_ok :: "codec \<Rightarrow> log_record list \<Rightarrow> Writer \<Rightarrow> bool" where
  "current_ok C cur sw \<longleftrightarrow> sw_curLines sw = text_of C cur \<and> sw_curCount sw = int (length cur) \<and>
     spans (sw_curMin sw) (sw_curMax sw) cur \<and>
     (length cur \<le> 1 \<or> int (length (text_of C cur)) \<le> sw_blockTarget sw)"

definition writer_inv :: "codec \<Rightarrow> log_record list \<Rightarrow> Writer \<Rightarrow> bool" where
  "writer_inv C rs sw \<longleftrightarrow>
     (\<exists>chunks cur. rs = concat chunks @ cur \<and>
        list_all2 (block_ok C (sw_out sw)) (sw_blocks sw) chunks \<and> current_ok C cur sw) \<and>
     sw_pos sw = int (length (sw_out sw)) \<and> headerSize \<le> length (sw_out sw) \<and>
     sw_blockTarget sw = defaultBlockTargetBytes \<and> stats_ok rs sw"

lemma emit_ok:
  "io_contract wr \<Longrightarrow> emit wr b sw = (None, sw') \<Longrightarrow>
    sw' = sw\<lparr>sw_out := sw_out sw @ b, sw_pos := sw_pos sw + int (length b)\<rparr>"
  by (auto simp: emit_def io_contract_def split: prod.splits)

lemma length_header [simp]: "length (header_bytes created) = headerSize"
  by (simp add: header_bytes_def magicHead_def headerSize_def)

lemma NewWriter_inv:
  assumes "io_contract wr" and "NewWriter wr created = Inr sw"
  shows "writer_inv C [] sw"
proof -
  from assms have "sw = fresh_writer\<lparr>sw_out := header_bytes created, sw_pos := int headerSize\<rparr>"
    by (auto simp: NewWriter_def writeHeader_def fresh_writer_def dest: emit_ok split: prod.splits option.splits)
  then show ?thesis
    by (simp add: writer_inv_def fresh_writer_def current_ok_def stats_ok_def spans_def)
qed

lemma flushBlock_inv:
  assumes io: "io_contract wr" and inv: "writer_inv C rs sw" and fl: "flushBlock C wr sw = (None, sw')"
  shows "writer_inv C rs sw' \<and> sw_curLines sw' = []"
proof -
  from inv obtain chunks cur where rs: "rs = concat chunks @ cur"
    and bl: "list_all2 (block_ok C (sw_out sw)) (sw_blocks sw) chunks" and cur: "current_ok C cur sw"
    and pos: "sw_pos sw = int (length (sw_out sw))" and tgt: "sw_blockTarget sw = defaultBlockTargetBytes"
    by (auto simp: writer_inv_def)
  show ?thesis
  proof (cases "cur = []")
    case True
    with fl cur have "sw' = sw" by (simp add: flushBlock_def current_ok_def)
    with True inv cur show ?thesis by (auto simp: current_ok_def)
  next
    case False
    let ?comp = "zstd_enc C (text_of C cur)"
    let ?bm = "\<lparr>bm_FileOffset = sw_pos sw, bm_CompLen = int (length ?comp),
       bm_UncompLen = int (length (text_of C cur)), bm_MinTS = sw_curMin sw, bm_MaxTS = sw_curMax sw,
       bm_RecordCount = sw_curCount sw\<rparr>"
    from fl cur False obtain sw1 where "emit wr ?comp sw = (None, sw1)"
      and sw': "sw' = sw1\<lparr>sw_blocks := sw_blocks sw1 @ [?bm], sw_curLines := [], sw_curCount := 0,
        sw_lastTS := zero_time\<rparr>"
      by (auto simp: flushBlock_def current_ok_def Let_def split: prod.splits option.splits)
    then have sw1: "sw1 = sw\<lparr>sw_out := sw_out sw @ ?comp, sw_pos := sw_pos sw + int (length ?comp)\<rparr>"
      using emit_ok [OF io] by blast
    have "block_ok C (sw_out sw @ ?comp) ?bm cur"
      using cur pos False tgt unfolding block_ok_def
      by (intro conjI exI [of _ "sw_out sw"] exI [of _ "[]"]) (simp_all add: current_ok_def)
    then have "list_all2 (block_ok C (sw_out sw @ ?comp)) (sw_blocks sw @ [?bm]) (chunks @ [cur])"
      using bl by (auto intro!: list_all2_appendI intro: list_all2_mono block_ok_append)
    then have "\<exists>chunks' cur'. rs = concat chunks' @ cur' \<and>
        list_all2 (block_ok C (sw_out sw')) (sw_blocks sw') chunks' \<and> current_ok C cur' sw'"
      using rs by (intro exI [of _ "chunks @ [cur]"] exI [of _ "[]"])
        (simp add: sw' sw1 current_ok_def spans_def)
    with inv show ?thesis by (simp add: writer_inv_def sw' sw1 stats_ok_def)
  qed
qed

lemma set_addKey [simp]: "set (addKey k m) = (if k = [] then set m else insert k (set m))"
  by (simp add: addKey_def)

lemma set_fold_addKey: "set (fold addKey ks m) = set m \<union> (set ks - {[]})"
  by (induction ks arbitrary: m) auto

lemma stats_ok_append_line: "stats_ok rs sw \<Longrightarrow> stats_ok (rs @ [r]) (append_line line r sw)"
  using spans_snoc [of "sw_segMin sw" "sw_segMax sw" rs r]
  by (auto simp: stats_ok_def append_line_def Let_def set_fold_addKey)

lemma append_line_inv:
  assumes inv: "writer_inv C rs sw" and enc: "enc_record C r = Inr line"
    and fits: "sw_curLines sw = [] \<or>
      int (length (sw_curLines sw)) + int (length line) + 1 \<le> sw_blockTarget sw"
  shows "writer_inv C (rs @ [r]) (append_line line r sw)"
proof -
  from inv obtain chunks cur where rs: "rs = concat chunks @ cur"
    and bl: "list_all2 (block_ok C (sw_out sw)) (sw_blocks sw) chunks" and cur: "current_ok C cur sw"
    by (auto simp: writer_inv_def)
  have line: "text_of C [r] = line @ [NL]" by (simp add: text_of_def line_of_def enc)
  have "current_ok C (cur @ [r]) (append_line line r sw)"
    using cur fits spans_snoc [of "sw_curMin sw" "sw_curMax sw" cur r]
    by (auto simp: current_ok_def append_line_def Let_def line)
  moreover have "sw_out (append_line line r sw) = sw_out sw" "sw_blocks (append_line line r sw) = sw_blocks sw"
    "sw_pos (append_line line r sw) = sw_pos sw" "sw_blockTarget (append_line line r sw) = sw_blockTarget sw"
    by (simp_all add: append_line_def Let_def)
  ultimately show ?thesis
    using inv rs bl stats_ok_append_line unfolding writer_inv_def by (metis append.assoc)
qed

lemma Append_inv:
  assumes io: "io_contract wr" and inv: "writer_inv C rs sw" and ap: "Append C wr r sw = (None, sw')"
  shows "writer_inv C (rs @ [r]) sw'"
proof -
  from ap obtain line where enc: "enc_record C r = Inr line"
    by (auto simp: Append_def split: sum.splits)
  show ?thesis
  proof (cases "sw_curLines sw \<noteq> [] \<and> int (length (sw_curLines sw)) + int (length line) + 1 > sw_blockTarget sw")
    case True
    with ap enc obtain sw1 where "flushBlock C wr sw = (None, sw1)" and sw': "sw' = append_line line r sw1"
      by (auto simp: Append_def split: prod.splits option.splits)
    from flushBlock_inv [OF io inv this(1)] sw' enc show ?thesis by (simp add: append_line_inv)
  next
    case False
    with ap enc have "sw' = append_line line r sw" by (auto simp: Append_def)
    with inv enc False show ?thesis by (auto intro!: append_line_inv)
  qed
qed

lemma append_all_inv:
  "io_contract wr \<Longrightarrow> writer_inv C rs sw \<Longrightarrow> append_all C wr ss sw = (None, sw') \<Longrightarrow> writer_inv C (rs @ ss) sw'"
proof (induction ss arbitrary: rs sw)
  case (Cons s ss)
  then show ?case using Append_inv [of wr C rs sw s] by (force split: prod.splits option.splits)
qed simp


lemma writer_inv_finished [simp]: "writer_inv C rs (sw\<lparr>sw_finished := b\<rparr>) = writer_inv C rs sw"
  by (simp add: writer_inv_def current_ok_def stats_ok_def)

text \<open>The finished file: blocks, index, summary, footer.\<close>

definition index_of :: "block_meta list \<Rightarrow> string" where
  "index_of bs = concat (map index_entry bs)"

definition file_of :: "Writer \<Rightarrow> string \<Rightarrow> string" where
  "file_of sw sc =
     sw_out sw @ index_of (sw_blocks sw) @ sc @
     footer_bytes (int (length (sw_out sw))) (length (sw_blocks sw))
       (int (length (sw_out sw) + length (index_of (sw_blocks sw)))) (length sc)
       (crc32c (index_of (sw_blocks sw) @ sc)) sw"

lemma footer_bytes_cong:
  "sw_segMin sw = sw_segMin sw' \<Longrightarrow> sw_segMax sw = sw_segMax sw' \<Longrightarrow>
    footer_bytes a b c d e sw = footer_bytes a b c d e sw'"
  by (simp add: footer_bytes_def)

lemma Finish_file:
  assumes io: "io_contract wr" and inv: "writer_inv C rs sw" and fin: "Finish C wr sw = (Inr meta, sw')"
  obtains sw1 j where "writer_inv C rs sw1" and "sw_curLines sw1 = []"
    and "enc_summary C (meta_summary (writer_meta sw1)) = Inr j"
    and "sw_out sw' = file_of sw1 (zstd_enc C j)"
    and "meta = (writer_meta sw1)\<lparr>sm_SizeBytes := int (length (sw_out sw'))\<rparr>"
proof -
  let ?sw = "sw\<lparr>sw_finished := True\<rparr>"
  from fin obtain sw1 sw2 sw3 j where fl: "flushBlock C wr ?sw = (None, sw1)"
    and e2: "emit wr (index_of (sw_blocks sw1)) sw1 = (None, sw2)"
    and j: "enc_summary C (meta_summary (writer_meta sw2)) = Inr j"
    and e3: "emit wr (zstd_enc C j) sw2 = (None, sw3)"
    and e4: "writeFooter wr (sw_pos sw1) (length (sw_blocks sw3)) (sw_pos sw2) (length (zstd_enc C j))
      (crc32c (index_of (sw_blocks sw1) @ zstd_enc C j)) sw3 = (None, sw')"
    and meta: "meta = (writer_meta sw2)\<lparr>sm_SizeBytes := sw_pos sw'\<rparr>"
    by (auto simp: Finish_def Let_def index_of_def split: if_splits prod.splits option.splits sum.splits)
  from inv have "writer_inv C rs ?sw" by simp
  from flushBlock_inv [OF io this fl] have i1: "writer_inv C rs sw1" "sw_curLines sw1 = []" by auto
  then have pos: "sw_pos sw1 = int (length (sw_out sw1))" by (simp add: writer_inv_def)
  note sw2 = emit_ok [OF io e2] and sw3 = emit_ok [OF io e3]
    and sw' = emit_ok [OF io e4 [unfolded writeFooter_def]]
  have "writer_meta sw2 = writer_meta sw1" by (simp add: sw2 writer_meta_def)
  moreover have "sw_out sw' = file_of sw1 (zstd_enc C j)"
    by (simp add: sw' sw3 sw2 file_of_def pos footer_bytes_def)
  moreover have "sw_pos sw' = int (length (sw_out sw'))" by (simp add: sw' sw3 sw2 pos)
  ultimately show ?thesis using that i1 j meta by simp
qed


section \<open>Reading it back\<close>

lemma length_index_entry [simp]: "length (index_entry b) = blockIndexEntrySize"
  by (simp add: index_entry_def blockIndexEntrySize_def)

lemma length_index_of [simp]: "length (index_of bs) = length bs * blockIndexEntrySize"
  by (induction bs) (simp_all add: index_of_def)

lemma length_footer [simp]: "length (footer_bytes a b c d e sw) = footerSize"
  by (simp add: footer_bytes_def footerSize_def magicFoot_def)

lemma slice_append: "length pre = i \<Longrightarrow> length mid = n \<Longrightarrow> slice i n (pre @ mid @ post) = mid"
  by (simp add: slice_def)

lemma slice_concat_map:
  "(\<And>x. length (f x) = k) \<Longrightarrow> i < length xs \<Longrightarrow> slice (i * k) k (concat (map f xs)) = f (xs ! i)"
proof (induction xs arbitrary: i)
  case (Cons x xs)
  then show ?case by (cases i) (simp_all add: slice_def)
qed simp

lemma read_at_append:
  "off = int (length pre) \<Longrightarrow> n = int (length mid) \<Longrightarrow> read_at (pre @ mid @ post) off n = Inr mid"
  by (auto simp: read_at_def)

definition block_in_range :: "block_meta \<Rightarrow> bool" where
  "block_in_range b \<longleftrightarrow> in_int64 (bm_FileOffset b) \<and> in_int64 (bm_CompLen b) \<and> in_int64 (bm_UncompLen b) \<and>
     in_int64 (bm_MinTS b) \<and> in_int64 (bm_MaxTS b) \<and> 0 \<le> bm_RecordCount b \<and> bm_RecordCount b < 2 ^ 31"

lemma read_entry_index_entry [codec_simps]:
  assumes "block_in_range b"
  shows "read_entry (index_entry b) = b"
proof -
  from assms obtain n where n: "bm_RecordCount b = int n" "n < 2 ^ 31"
    unfolding block_in_range_def by (metis nonneg_int_cases of_nat_less_numeral_power_cancel_iff)
  then have "int32_of (be_get (be_put 4 (nat (bm_RecordCount b mod 2 ^ 32)))) = bm_RecordCount b"
    by (simp add: be_get_put int32_of_def nat_mod_distrib)
  moreover have "slice 40 4 (index_entry b) = be_put 4 (nat (bm_RecordCount b mod 2 ^ 32))"
    by (simp add: slice_def index_entry_def)
  moreover have "slice 0 8 (index_entry b) = put_int64 (bm_FileOffset b)"
    "slice 8 8 (index_entry b) = put_int64 (bm_CompLen b)"
    "slice 16 8 (index_entry b) = put_int64 (bm_UncompLen b)"
    "slice 24 8 (index_entry b) = put_int64 (unix_nano (bm_MinTS b))"
    "slice 32 8 (index_entry b) = put_int64 (unix_nano (bm_MaxTS b))"
    by (simp_all add: slice_def index_entry_def)
  ultimately show ?thesis
    using assms
    by (simp add: read_entry_def get_put_int64 block_in_range_def unix_nano_def unix_time_def)
qed

lemma read_index:
  assumes "\<forall>b \<in> set bs. block_in_range b"
  shows "map (\<lambda>i. read_entry (slice (i * blockIndexEntrySize) blockIndexEntrySize (index_of bs)))
    [0 ..< length bs] = bs"
proof (rule nth_equalityI)
  fix i assume "i < length (map (\<lambda>i. read_entry (slice (i * blockIndexEntrySize) blockIndexEntrySize (index_of bs)))
    [0 ..< length bs])"
  then show "map (\<lambda>i. read_entry (slice (i * blockIndexEntrySize) blockIndexEntrySize (index_of bs)))
    [0 ..< length bs] ! i = bs ! i"
    using assms slice_concat_map [of index_entry blockIndexEntrySize i bs]
    by (simp add: index_of_def read_entry_index_entry)
qed simp


text \<open>The fields of the footer.\<close>

lemma footer_fields:
  fixes a c :: int and b d :: nat and e :: "32 word" and sw :: Writer
  defines "f \<equiv> footer_bytes a b c d e sw"
  shows "slice 0 8 f = put_int64 a" and "slice 8 4 f = be_put 4 b" and "slice 12 8 f = put_int64 c"
    and "slice 20 4 f = be_put 4 d" and "slice 24 8 f = put_int64 (unix_nano (sw_segMin sw))"
    and "slice 32 8 f = put_int64 (unix_nano (sw_segMax sw))" and "slice 40 4 f = be_put 4 (unat e)"
    and "drop (footerSize - 8) f = magicFoot"
  by (simp_all add: f_def slice_def footer_bytes_def footerSize_def)

lemma Open_file:
  assumes fil: "file = file_of sw sc" "length file < 2 ^ 31" and "headerSize \<le> length (sw_out sw)"
    and blocks: "\<forall>b \<in> set (sw_blocks sw). block_in_range b"
    and ts: "in_int64 (sw_segMin sw)" "in_int64 (sw_segMax sw)"
    and sc: "zstd_dec C sc = Inr j" "dec_summary C j = Inr sm"
  shows "Open C file (int (length file)) = Inr \<lparr>rr_file = file, rr_size = int (length file),
    rr_blocks = sw_blocks sw, rr_summary = sm, rr_segMin = sw_segMin sw, rr_segMax = sw_segMax sw\<rparr>"
proof -
  let ?o = "sw_out sw" let ?idx = "index_of (sw_blocks sw)"
  let ?io = "int (length ?o)" let ?so = "int (length ?o + length ?idx)"
  let ?f = "footer_bytes ?io (length (sw_blocks sw)) ?so (length sc) (crc32c (?idx @ sc)) sw"
  have fl: "file = ?o @ ?idx @ sc @ ?f" using fil(1) by (simp add: file_of_def)
  have len: "length file = length ?o + length ?idx + length sc + footerSize" by (simp add: fl)
  with fil(2) have small: "length ?o < 2 ^ 31" "length ?idx < 2 ^ 31" "length sc < 2 ^ 31"
    "length ?o + length ?idx < 2 ^ 31" "length ?o + length ?idx + length sc < 2 ^ 31" by simp_all
  have nb: "length (sw_blocks sw) < 2 ^ 31"
    by (rule le_less_trans [OF _ small(2)]) (simp add: blockIndexEntrySize_def)
  have i64: "wrap64 (int n) = int n" if "n < 2 ^ 31" for n
    using that by (intro wrap64_id in_int64_nonneg) simp_all
  have fl': "file = (?o @ ?idx @ sc) @ ?f @ []" "file = (?o @ ?idx) @ sc @ ?f" by (simp_all only: fl append_assoc append_Nil2)
  have r: "read_at file (int (length file) - int footerSize) (int footerSize) = Inr ?f"
    unfolding len by (subst fl'(1), rule read_at_append) simp_all
  have ri: "read_at file ?io (int (length (sw_blocks sw) * blockIndexEntrySize)) = Inr ?idx"
    unfolding fl by (rule read_at_append) simp_all
  have rs: "read_at file ?so (int (length sc)) = Inr sc"
    by (subst fl'(2), rule read_at_append) simp_all
  have be: "be_get (be_put 4 n) = n" if "n < 2 ^ 32" for n using that by (simp add: be_get_put)
  have crc: "be_get (be_put 4 (unat w)) = unat w" for w :: "32 word"
    by (rule be) (use unsigned_less [of w] in simp)
  have g: "get_int64 (put_int64 ?io) = ?io" "get_int64 (put_int64 ?so) = ?so"
    using small i64 [of "length ?o"] i64 [of "length ?o + length ?idx"] by (simp_all add: get_put_int64)
  have t: "unix_time (get_int64 (put_int64 (unix_nano (sw_segMin sw)))) = sw_segMin sw"
    "unix_time (get_int64 (put_int64 (unix_nano (sw_segMax sw)))) = sw_segMax sw"
    using ts by (simp_all add: get_put_int64 unix_time_def unix_nano_def)
  have w1: "wrap64 (?io + int (length (sw_blocks sw) * blockIndexEntrySize)) = ?so"
    using i64 [OF small(4)] by simp
  have w2: "wrap64 (?so + int (length sc)) = int (length ?o + length ?idx + length sc)"
    using i64 [OF small(5)] by simp
  have "headerSize \<le> length ?o + length ?idx + length sc" using assms(3) by linarith
  then have big: "int headerSize \<le> int (length ?o) + int (length (sw_blocks sw)) * int blockIndexEntrySize + int (length sc)"
    by (simp flip: of_nat_add of_nat_mult)
  show ?thesis
    unfolding Open_def Let_def r rbind.simps footer_fields g t crc be [OF less_trans [OF nb]]
    using nb small assms(3) len ri rs sc read_index [OF blocks] w1 w2
    by (simp add: be big not_less)
qed


text \<open>The view the query cursors have of a reader: the index, and the records of a block.\<close>

definition reader_of :: "codec \<Rightarrow> Reader \<Rightarrow> seg_reader" where
  "reader_of C rd = \<lparr>rd_blocks = Blocks rd,
     rd_read = (\<lambda>i. case ReadBlock C rd (int i) collect [] of
        (Some e, rs) \<Rightarrow> Inl e | (None, rs) \<Rightarrow> Inr rs)\<rparr>"

definition encodable :: "codec \<Rightarrow> log_record \<Rightarrow> bool" where
  "encodable C r \<longleftrightarrow>
     (\<exists>line. enc_record C r = Inr line \<and> line \<noteq> [] \<and> NL \<notin> set line \<and> last line \<noteq> CHR 0x0D \<and>
        length line < max_line \<and> dec_record C line = Inr r)"

lemma split_text_of:
  "\<forall>r \<in> set rs. encodable C r \<Longrightarrow> split_on NL (text_of C rs) = map (line_of C) rs @ [[]]"
proof (induction rs)
  case (Cons r rs)
  then have "NL \<notin> set (line_of C r)" by (auto simp: encodable_def line_of_def)
  moreover have "text_of C (r # rs) = line_of C r @ NL # text_of C rs" by (simp add: text_of_def)
  ultimately show ?case using Cons by (simp add: split_on_append)
qed simp

lemma scan_text_of:
  "\<forall>r \<in> set rs. encodable C r \<Longrightarrow> scan_lines (text_of C rs) = map (line_of C) rs"
  by (simp add: scan_lines_def split_text_of)

lemma read_lines_collect:
  "\<forall>r \<in> set rs. encodable C r \<Longrightarrow> read_lines C collect (map (line_of C) rs) acc = (None, acc @ rs)"
proof (induction rs arbitrary: acc)
  case (Cons r rs)
  then obtain l where "line_of C r = l" "length l < max_line" "drop_cr l = l" "dec_record C l = Inr r"
    by (auto simp: encodable_def line_of_def drop_cr_def)
  with Cons show ?case by (simp add: collect_def)
qed simp

lemma ReadBlock_collect:
  assumes b: "block_ok C out b chunk" and fil: "rr_file rd = out @ rest"
    and i: "i < length (rr_blocks rd)" "rr_blocks rd ! i = b"
    and zstd: "\<forall>x. zstd_dec C (zstd_enc C x) = Inr x" and enc: "\<forall>r \<in> set chunk. encodable C r"
  shows "ReadBlock C rd (int i) collect acc = (None, acc @ chunk)"
proof -
  from b obtain pre post where "out = pre @ zstd_enc C (text_of C chunk) @ post"
    "bm_FileOffset b = int (length pre)" "bm_CompLen b = int (length (zstd_enc C (text_of C chunk)))"
    by (auto simp: block_ok_def)
  then have "read_at (rr_file rd) (bm_FileOffset b) (bm_CompLen b) = Inr (zstd_enc C (text_of C chunk))"
    using read_at_append [of _ pre _ _ "post @ rest"] by (simp add: fil)
  with i zstd enc show ?thesis
    by (simp add: ReadBlock_def scan_text_of read_lines_collect)
qed

lemma block_ok_range:
  assumes "block_ok C out b chunk" and "length out < 2 ^ 31"
    and "\<forall>r \<in> set chunk. encodable C r \<and> in_int64 (rec_Timestamp r)"
  shows "block_in_range b"
proof -
  from assms(1) obtain pre post where out: "out = pre @ zstd_enc C (text_of C chunk) @ post"
    and b: "bm_FileOffset b = int (length pre)" "bm_CompLen b = int (length (zstd_enc C (text_of C chunk)))"
      "bm_UncompLen b = int (length (text_of C chunk))" "bm_RecordCount b = int (length chunk)" "chunk \<noteq> []"
      "length chunk \<le> 1 \<or> int (length (text_of C chunk)) \<le> defaultBlockTargetBytes"
      "spans (bm_MinTS b) (bm_MaxTS b) chunk"
    by (auto simp: block_ok_def)
  have tx: "length (text_of C chunk) < 2 ^ 31"
  proof (cases "length chunk \<le> 1")
    case True
    with b(5) obtain r where "chunk = [r]" by (cases chunk) auto
    with assms(3) show ?thesis by (auto simp: encodable_def text_of_def line_of_def max_line_def)
  next
    case False
    with b(6) show ?thesis by (simp add: defaultBlockTargetBytes_def)
  qed
  then have "length chunk < 2 ^ 31" using length_text_of [of chunk C] by linarith
  moreover have "in_int64 (bm_MinTS b)" "in_int64 (bm_MaxTS b)"
    using b(5,7) assms(3) by (auto simp: spans_def)
  ultimately show ?thesis
    using tx assms(2) by (simp add: block_in_range_def b out in_int64_def)
qed

lemma set_sortedKeys [simp]: "set (sortedKeys m) = set m"
  by (simp add: sortedKeys_def)

lemma writer_meta_names:
  assumes "stats_ok rs sw" and "x \<in> summary_names (meta_summary (writer_meta sw))"
  shows "x \<noteq> [] \<and> (\<exists>r \<in> set rs. x \<in> record_names r)"
  using assms
  by (auto simp: stats_ok_def summary_names_def meta_summary_def writer_meta_def record_names_def)

lemma writer_meta_summarises:
  "stats_ok rs sw \<Longrightarrow> r \<in> set rs \<Longrightarrow> summarises (writer_meta sw) r"
  by (auto simp: stats_ok_def summarises_def writer_meta_def)


section \<open>The round trip\<close>

text \<open>
  Writing a batch of records: the header, the appends, and \<open>Finish\<close>, as \<open>Spool.Seal\<close> does.  The
  result is the metadata and the bytes of the file.
\<close>

definition write_segment ::
  "codec \<Rightarrow> io_writer \<Rightarrow> int \<Rightarrow> log_record list \<Rightarrow> go_error + segment_meta \<times> string" where
  "write_segment C wr created rs =
     rbind (NewWriter wr created) (\<lambda>sw0.
     case append_all C wr rs sw0 of
       (Some e, sw1) \<Rightarrow> Inl e
     | (None, sw1) \<Rightarrow>
         (case Finish C wr sw1 of
            (Inl e, sw2) \<Rightarrow> Inl e
          | (Inr meta, sw2) \<Rightarrow> Inr (meta, sw_out sw2)))"

lemma write_segmentE:
  assumes "write_segment C wr created rs = Inr (meta, file)"
  obtains sw0 sw1 sw2 where "NewWriter wr created = Inr sw0" and "append_all C wr rs sw0 = (None, sw1)"
    and "Finish C wr sw1 = (Inr meta, sw2)" and "file = sw_out sw2"
proof -
  from assms obtain sw0 where n: "NewWriter wr created = Inr sw0" by (auto simp: write_segment_def)
  obtain e1 sw1 where a: "append_all C wr rs sw0 = (e1, sw1)" by (cases "append_all C wr rs sw0")
  obtain e2 sw2 where f: "Finish C wr sw1 = (e2, sw2)" by (cases "Finish C wr sw1")
  from assms n a f have "e1 = None" "e2 = Inr meta" "file = sw_out sw2"
    by (auto simp: write_segment_def split: option.splits sum.splits)
  with n a f that show ?thesis by simp
qed

text \<open>The records a segment can hold: encodable, named within the codec, in the range of \<open>UnixNano\<close>.\<close>

definition storable :: "(log_record \<Rightarrow> bool) \<Rightarrow> (string \<Rightarrow> bool) \<Rightarrow> log_record \<Rightarrow> bool" where
  "storable good_rec good_name r \<longleftrightarrow>
     good_rec r \<and> (\<forall>x \<in> record_names r. x = [] \<or> good_name x) \<and> in_int64 (rec_Timestamp r)"

lemma codec_ok_encodable: "codec_ok C gr gn \<Longrightarrow> gr r \<Longrightarrow> encodable C r"
  by (simp add: codec_ok_def encodable_def)

lemma faithful_reader:
  assumes bl: "list_all2 (block_ok C out) (rr_blocks rd) chunks" and fil: "rr_file rd = out @ rest"
    and zstd: "\<forall>x. zstd_dec C (zstd_enc C x) = Inr x"
    and enc: "\<forall>r \<in> set (concat chunks). encodable C r"
    and meta: "spans (sm_MinTS m) (sm_MaxTS m) (concat chunks)" "\<forall>r \<in> set (concat chunks). summarises m r"
    and sorted: "ts_sorted False (concat chunks)"
  shows "faithful m (reader_of C rd) (concat chunks)"
  unfolding faithful_def
proof (intro conjI exI [of _ chunks] allI impI refl)
  from bl show len: "length chunks = length (rd_blocks (reader_of C rd))"
    by (simp add: reader_of_def Blocks_def list_all2_lengthD)
  fix i assume i: "i < length chunks"
  with bl have ok: "block_ok C out (rr_blocks rd ! i) (chunks ! i)" and ib: "i < length (rr_blocks rd)"
    by (auto simp: list_all2_conv_all_nth)
  have "\<forall>r \<in> set (chunks ! i). encodable C r" using enc nth_mem [OF i] by auto
  from ReadBlock_collect [OF ok fil ib refl zstd this]
  show "rd_read (reader_of C rd) i = Inr (chunks ! i)" by (simp add: reader_of_def)
  from ok show "\<forall>r \<in> set (chunks ! i). bm_MinTS (rd_blocks (reader_of C rd) ! i) \<le> rec_Timestamp r \<and>
      rec_Timestamp r \<le> bm_MaxTS (rd_blocks (reader_of C rd) ! i)"
    by (simp add: block_ok_def spans_def reader_of_def Blocks_def)
qed (use sorted meta in \<open>auto simp: spans_def\<close>)

lemma write_segment_open:
  assumes C: "codec_ok C gr gn" and io: "io_contract wr"
    and ws: "write_segment C wr created rs = Inr (meta, file)" and small: "length file < 2 ^ 31"
    and rs: "rs \<noteq> []" "\<forall>r \<in> set rs. storable gr gn r"
  shows "\<exists>rd chunks out rest. Open C file (int (length file)) = Inr rd \<and>
    Meta rd = meta\<lparr>sm_HasLate := False, sm_SourceOffsets := Map.empty\<rparr> \<and>
    sm_SourceOffsets meta = fold (\<lambda>r. raise_max (rec_key r) (rec_Offset r)) rs Map.empty \<and>
    rs = concat chunks \<and> list_all2 (block_ok C out) (rr_blocks rd) chunks \<and> rr_file rd = out @ rest \<and>
    spans (sm_MinTS meta) (sm_MaxTS meta) rs \<and> (\<forall>r \<in> set rs. summarises meta r) \<and>
    sm_SizeBytes meta = int (length file)"
proof -
  from ws obtain sw0 sw1 sw2 where "NewWriter wr created = Inr sw0" "append_all C wr rs sw0 = (None, sw1)"
    and fin: "Finish C wr sw1 = (Inr meta, sw2)" "file = sw_out sw2"
    by (rule write_segmentE)
  then have "writer_inv C rs sw1" using NewWriter_inv [OF io] append_all_inv [OF io, of C "[]"] by fastforce
  from Finish_file [OF io this fin(1)] obtain sw j where inv: "writer_inv C rs sw" and nil: "sw_curLines sw = []"
    and j: "enc_summary C (meta_summary (writer_meta sw)) = Inr j"
    and out: "file = file_of sw (zstd_enc C j)"
    and meta: "meta = (writer_meta sw)\<lparr>sm_SizeBytes := int (length file)\<rparr>"
    unfolding fin(2) by blast
  from inv nil obtain chunks where chunks: "rs = concat chunks"
    "list_all2 (block_ok C (sw_out sw)) (sw_blocks sw) chunks" and st: "stats_ok rs sw"
    and hd: "headerSize \<le> length (sw_out sw)"
    by (auto simp: writer_inv_def current_ok_def)
  have enc: "\<forall>r \<in> set rs. encodable C r \<and> in_int64 (rec_Timestamp r)"
    using rs(2) codec_ok_encodable [OF C] by (auto simp: storable_def)
  from out small have osmall: "length (sw_out sw) < 2 ^ 31" by (simp add: file_of_def)
  have bs: "\<forall>b \<in> set (sw_blocks sw). block_in_range b"
  proof
    fix b assume "b \<in> set (sw_blocks sw)"
    then obtain i where i: "i < length (sw_blocks sw)" "b = sw_blocks sw ! i" by (metis in_set_conv_nth)
    with chunks(2) have "block_ok C (sw_out sw) b (chunks ! i)" "chunks ! i \<in> set chunks"
      by (auto simp: list_all2_conv_all_nth)
    with enc chunks(1) osmall show "block_in_range b" by (intro block_ok_range) auto
  qed
  from st have sp: "spans (sw_segMin sw) (sw_segMax sw) rs" by (simp add: stats_ok_def)
  with rs(1) enc have ts: "in_int64 (sw_segMin sw)" "in_int64 (sw_segMax sw)" by (auto simp: spans_def)
  have "\<forall>x \<in> summary_names (meta_summary (writer_meta sw)). x \<noteq> [] \<and> gn x"
    using writer_meta_names [OF st] rs(2) unfolding storable_def by metis
  with C j have ds: "dec_summary C j = Inr (meta_summary (writer_meta sw))" and z: "zstd_dec C (zstd_enc C j) = Inr j"
    unfolding codec_ok_def by (metis sum.inject(2))+
  note op = Open_file [OF out small hd bs ts z ds]
  have "sum_list (map bm_RecordCount (sw_blocks sw)) = int (length rs)"
  proof -
    from chunks(2) have "map bm_RecordCount (sw_blocks sw) = map (\<lambda>c. int (length c)) chunks"
      by (induction rule: list_all2_induct) (simp_all add: block_ok_def)
    moreover have "sum_list (map (\<lambda>c. int (length c)) cs) = int (length (concat cs))" for cs :: "log_record list list"
      by (induction cs) simp_all
    ultimately show ?thesis by (simp add: chunks(1))
  qed
  moreover define rd where "rd = \<lparr>rr_file = file, rr_size = int (length file), rr_blocks = sw_blocks sw,
    rr_summary = meta_summary (writer_meta sw), rr_segMin = sw_segMin sw, rr_segMax = sw_segMax sw\<rparr>"
  ultimately have m: "Meta rd = meta\<lparr>sm_HasLate := False, sm_SourceOffsets := Map.empty\<rparr>"
    using st by (simp add: Meta_def writer_meta_def meta_summary_def stats_ok_def meta empty_meta_def)
  obtain rest where f: "rr_file rd = sw_out sw @ rest" by (simp add: rd_def out file_of_def)
  have su: "\<forall>r \<in> set rs. summarises meta r"
    using writer_meta_summarises [OF st] by (simp add: meta summarises_def)
  have s: "sm_SourceOffsets meta = fold (\<lambda>r. raise_max (rec_key r) (rec_Offset r)) rs Map.empty"
    "spans (sm_MinTS meta) (sm_MaxTS meta) rs" "sm_SizeBytes meta = int (length file)"
    using st sp by (simp_all add: meta writer_meta_def stats_ok_def)
  have b: "list_all2 (block_ok C (sw_out sw)) (rr_blocks rd) chunks" by (simp add: rd_def chunks(2))
  show ?thesis
    by (intro exI conjI) (rule op [folded rd_def], rule m, rule s(1), rule chunks(1), rule b, rule f,
      rule s(2), rule su, rule s(3))
qed


section \<open>Properties\<close>

text \<open>
  An instance of the parameters: a codec for two records, zstd as the identity, a writer into
  memory.
\<close>

definition mem_writer :: io_writer where
  "mem_writer out b = (length b, None)"

definition sample_source :: source where
  "sample_source = \<lparr>src_Node = ''n'', src_Path = ''/var/log/pods/d_p_u/c/0.log'', src_Device = 1, src_Inode = 2, src_CreatedUnixNano = 0\<rparr>"

definition sample_record :: log_record where
  "sample_record = empty_record\<lparr>rec_Source := sample_source, rec_Offset := 10, rec_Timestamp := 1700000000000000000, rec_Message := ''hi''\<rparr>"

definition later_record :: log_record where
  "later_record = sample_record\<lparr>rec_Offset := 20, rec_Timestamp := 1700000001000000000\<rparr>"

definition sample_good :: "log_record \<Rightarrow> bool" where
  "sample_good r \<longleftrightarrow> r = sample_record \<or> r = later_record"

lemma sample_records_differ: "later_record \<noteq> sample_record"
proof
  assume "later_record = sample_record"
  then have "rec_Offset later_record = rec_Offset sample_record" by simp
  then show False by (simp add: later_record_def sample_record_def)
qed

definition sample_codec :: codec where
  "sample_codec = \<lparr>enc_record = (\<lambda>r. Inr (if rec_Offset r = 20 then ''[]'' else ''{}'')),
     dec_record = (\<lambda>s. Inr (if s = ''[]'' then later_record else sample_record)),
     enc_summary = (\<lambda>s. Inr ''{}''),
     dec_summary = (\<lambda>s. Inr \<lparr>su_Namespaces = [], su_Pods = [], su_Nodes = [], su_Containers = [],
        su_LabelKeys = [], su_FieldKeys = []\<rparr>),
     zstd_enc = (\<lambda>s. s), zstd_dec = Inr\<rparr>"

lemma sample_codec_ok: "codec_ok sample_codec sample_good (\<lambda>x. False)"
proof -
  have "s = \<lparr>su_Namespaces = [], su_Pods = [], su_Nodes = [], su_Containers = [],
        su_LabelKeys = [], su_FieldKeys = []\<rparr>" if "summary_names s = {}" for s
    using that by (cases s) (simp add: summary_names_def)
  moreover have "rec_Offset later_record = 20" "rec_Offset sample_record = 10"
    by (simp_all add: later_record_def sample_record_def)
  ultimately show ?thesis
    by (auto simp: codec_ok_def sample_codec_def NL_def max_line_def sample_good_def)
qed

lemma mem_writer_ok: "io_contract mem_writer"
  by (simp add: io_contract_def mem_writer_def)

lemma sample_storable: "storable sample_good (\<lambda>x. False) sample_record" "storable sample_good (\<lambda>x. False) later_record"
  by (simp_all add: storable_def record_names_def sample_good_def)
    (simp_all add: later_record_def sample_record_def empty_record_def in_int64_def)

text \<open>A segment of one of them.\<close>

lemma sample_write:
  "\<exists>meta body. write_segment sample_codec mem_writer created [r] = Inr (meta, body) \<and> length body < 2 ^ 31"
proof -
  have "case write_segment sample_codec mem_writer created [r] of
      Inl e \<Rightarrow> False | Inr (meta, file) \<Rightarrow> length file < 2 ^ 31"
    by (simp add: write_segment_def NewWriter_def writeHeader_def emit_def mem_writer_def fresh_writer_def
        Append_def append_line_def flushBlock_def Finish_def writeFooter_def sample_codec_def Let_def
        format_sizes)
  then show ?thesis by (auto split: sum.splits prod.splits)
qed

text \<open>
  C6: a segment is read back as it was written.  When the batch was written without an error, the
  reader opens the file, its metadata is that of the writer but for the two fields the footer does
  not hold (\<open>HasLate\<close> and \<open>SourceOffsets\<close>), and reading the blocks one after the other yields
  the records of the batch in their order.
\<close>

theorem segment_round_trip:
  assumes "codec_ok C good_rec good_name" and "io_contract wr"
    and "write_segment C wr created rs = Inr (meta, file)" and "length file < 2 ^ 31"
    and "rs \<noteq> []" and "\<forall>r \<in> set rs. storable good_rec good_name r"
  shows "\<exists>rd chunks. Open C file (int (length file)) = Inr rd \<and>
    Meta rd = meta\<lparr>sm_HasLate := False, sm_SourceOffsets := Map.empty\<rparr> \<and>
    rs = concat chunks \<and> length chunks = length (Blocks rd) \<and>
    (\<forall>i < length chunks. ReadBlock C rd (int i) collect [] = (None, chunks ! i))"
proof -
  from write_segment_open [OF assms] obtain rd chunks out rest where
    rd: "Open C file (int (length file)) = Inr rd" "Meta rd = meta\<lparr>sm_HasLate := False, sm_SourceOffsets := Map.empty\<rparr>"
    and ch: "rs = concat chunks" "list_all2 (block_ok C out) (rr_blocks rd) chunks" "rr_file rd = out @ rest"
    by blast
  have z: "\<forall>x. zstd_dec C (zstd_enc C x) = Inr x" using assms(1) by (simp add: codec_ok_def)
  have "ReadBlock C rd (int i) collect [] = (None, chunks ! i)" if i: "i < length chunks" for i
  proof -
    from ch(2) i have "i < length (rr_blocks rd)" "block_ok C out (rr_blocks rd ! i) (chunks ! i)"
      by (auto simp: list_all2_conv_all_nth)
    moreover have "\<forall>r \<in> set (chunks ! i). encodable C r"
      using assms(6) codec_ok_encodable [OF assms(1)] nth_mem [OF i] ch(1) by (auto simp: storable_def)
    ultimately show ?thesis using ReadBlock_collect [OF _ ch(3) _ refl z, of i _ "[]"] by simp
  qed
  with rd ch show ?thesis
    by (intro exI [of _ rd] exI [of _ chunks]) (simp add: Blocks_def list_all2_lengthD)
qed

theorem segment_round_trip_witness:
  "\<exists>meta file rd. write_segment sample_codec mem_writer 0 [sample_record] = Inr (meta, file) \<and>
    Open sample_codec file (int (length file)) = Inr rd"
proof -
  obtain meta fil where ws: "write_segment sample_codec mem_writer 0 [sample_record] = Inr (meta, fil)"
    "length fil < 2 ^ 31" using sample_write by blast
  from segment_round_trip [OF sample_codec_ok mem_writer_ok ws] sample_storable ws(1) show ?thesis by auto
qed

end
