(* ===== verification/SegStore.thy ===== *)
theory SegStore
  imports BlobStore Catalog DiskCache SegmentProofs
begin

text \<open>
  The durable-segment layer, \<open>internal/store/store.go\<close>: sealing a segment to the object store,
  recovering the catalog from it, and opening segments through the local cache.  The object
  store, the bbolt database, the codecs and the outcome of file-system calls are parameters,
  gathered in the record \<open>env\<close>.
\<close>


section \<open>Environment and state\<close>

text \<open>
  File-system calls that may fail: the errors of \<open>os.MkdirAll\<close>, of \<open>os.Open\<close> and \<open>os.Rename\<close> beside those of a
  missing file, and for \<open>os.WriteFile\<close> its error and the contents it leaves.
\<close>

record os =
  os_mkdir :: "string \<Rightarrow> go_error option"
  os_open :: "string \<Rightarrow> go_error option"
  os_rename :: "string \<Rightarrow> string \<Rightarrow> go_error option"
  os_write :: "string \<Rightarrow> string \<Rightarrow> go_error option \<times> string"

record ('s, 'd) env =
  env_B :: "'s blobs"
  env_D :: "'d bolt"
  env_M :: meta_codec
  env_C :: codec
  env_os :: os
  env_ManagerID :: string
  env_BaseDir :: string
  env_CacheMaxByte :: int

record ('s, 'd) store =
  st_blobs :: 's
  st_cat :: 'd
  st_cache :: diskCache
  st_fs :: fs

text \<open>\<open>Open\<close>, on an object store and a catalog file (\<open>None\<close>: an empty directory).\<close>

definition Store_Open :: "('s, 'd) env \<Rightarrow> 's \<Rightarrow> string option \<Rightarrow> fs \<Rightarrow> go_error + ('s, 'd) store" where
  "Store_Open E s catfile F =
     (let cap = (if env_CacheMaxByte E \<le> 0 then 2147483648 else env_CacheMaxByte E) in
      case os_mkdir (env_os E) (env_BaseDir E) of
        Some e \<Rightarrow> Inl e
      | None \<Rightarrow>
          rbind (openCatalog (env_D E) catfile) (\<lambda>d.
          rbind (newDiskCache (os_mkdir (env_os E)) (env_BaseDir E @ ''/cache'') cap) (\<lambda>c.
          Inr \<lparr>st_blobs = s, st_cat = d, st_cache = c, st_fs = F\<rparr>)))"


section \<open>Object keys\<close>

definition segPrefix :: "('s, 'd) env \<Rightarrow> string" where
  "segPrefix E = ''segments/'' @ env_ManagerID E @ ''/''"

definition snapPrefix :: "('s, 'd) env \<Rightarrow> string" where
  "snapPrefix E = ''catalog/'' @ env_ManagerID E @ ''/''"

definition metaSuffix :: string where
  "metaSuffix = ''.meta''"

text \<open>
  \<open>Year\<close>, \<open>Month\<close> and \<open>Day\<close> of an instant in UTC: the proleptic Gregorian date of a day number
  since the Unix epoch, by 400-year eras of 146097 days that start on March 1.
\<close>

definition civil :: "int \<Rightarrow> int \<times> int \<times> int" where
  "civil days =
     (let z = days + 719468;
          era = z div 146097;
          doe = z mod 146097;
          yoe = (doe - doe div 1460 + doe div 36524 - doe div 146096) div 365;
          doy = doe - (365 * yoe + yoe div 4 - yoe div 100);
          mp = (5 * doy + 2) div 153;
          day = doy - (153 * mp + 2) div 5 + 1;
          month = (if mp < 10 then mp + 3 else mp - 9)
      in (yoe + era * 400 + (if month \<le> 2 then 1 else 0), month, day))"

definition utc_date :: "time \<Rightarrow> int \<times> int \<times> int" where
  "utc_date t = civil (t div 86400000000000)"

text \<open>The formats \<open>%0wd\<close> and \<open>UnixMilli\<close>.\<close>

definition pad_int :: "nat \<Rightarrow> int \<Rightarrow> string" where
  "pad_int w x =
     (if x < 0
      then CHR ''-'' # replicate (w - 1 - length (format_uint (nat (- x)))) CHR ''0'' @ format_uint (nat (- x))
      else replicate (w - length (format_uint (nat x))) CHR ''0'' @ format_uint (nat x))"

definition unix_milli :: "time \<Rightarrow> int" where
  "unix_milli t = t div 1000000"

definition segKeyFor :: "('s, 'd) env \<Rightarrow> segment_meta \<Rightarrow> string" where
  "segKeyFor E m =
     (case utc_date (sm_MinTS m) of
        (y, mo, d) \<Rightarrow>
          segPrefix E @ pad_int 4 y @ ''/'' @ pad_int 2 mo @ ''/'' @ pad_int 2 d @ ''/'' @
          format_int (unix_milli (sm_MinTS m)) @ ''-'' @ format_int (unix_milli (sm_MaxTS m)) @ ''-'' @
          sm_ID m @ ''.seg'')"

text \<open>\<open>filepath.Base\<close> and \<open>strings.LastIndexByte\<close>, the part after it.\<close>

definition after_last :: "char \<Rightarrow> string \<Rightarrow> string" where
  "after_last c s = rev (takeWhile (\<lambda>x. x \<noteq> c) (rev s))"

definition path_base :: "string \<Rightarrow> string" where
  "path_base s =
     (if s = [] then ''.''
      else
        (let t = rev (dropWhile (\<lambda>x. x = CHR ''/'') (rev s)) in
         if t = [] then ''/'' else after_last CHR ''/'' t))"

definition idFromSegKey :: "string \<Rightarrow> string" where
  "idFromSegKey k =
     (let base = trim_suffix (path_base k) ''.seg'' in
      if CHR ''-'' \<in> set base then after_last CHR ''-'' base else [])"


section \<open>Seal\<close>

definition file_read :: "('s, 'd) env \<Rightarrow> string \<Rightarrow> fs \<Rightarrow> go_error + string" where
  "file_read E p F =
     (case os_open (env_os E) p of
        Some e \<Rightarrow> Inl e
      | None \<Rightarrow> (case F p of None \<Rightarrow> Inl (OtherError ''no such file'') | Some x \<Rightarrow> Inr x))"

text \<open>The move into the cache directory: the path recorded, and the files after it.\<close>

definition move_to_cache :: "('s, 'd) env \<Rightarrow> string \<Rightarrow> string \<Rightarrow> fs \<Rightarrow> string \<times> fs" where
  "move_to_cache E localPath cachePath F =
     (if localPath = cachePath then (cachePath, F)
      else if os_rename (env_os E) localPath cachePath \<noteq> None then (localPath, F)
      else
        (case F localPath of
           None \<Rightarrow> (localPath, F)
         | Some x \<Rightarrow> (cachePath, (F(localPath := None))(cachePath \<mapsto> x))))"

definition Store_Seal ::
  "('s, 'd) env \<Rightarrow> string \<Rightarrow> string \<Rightarrow> segment_meta \<Rightarrow> ('s, 'd) store \<Rightarrow>
    (go_error + segment_meta) \<times> ('s, 'd) store" where
  "Store_Seal E localPath k meta0 st =
     (let meta1 = meta0\<lparr>sm_ID := k\<rparr>;
          meta2 = meta1\<lparr>sm_S3Key := segKeyFor E meta1\<rparr> in
      case file_read E localPath (st_fs st) of
        Inl e \<Rightarrow> (Inl e, st)
      | Inr body \<Rightarrow>
          (case bl_PutReader (env_B E) (sm_S3Key meta2) (Inr body) (st_blobs st) of
             (Some e, s1) \<Rightarrow> (Inl e, st\<lparr>st_blobs := s1\<rparr>)
           | (None, s1) \<Rightarrow>
               (case enc_sidecar (env_M E) meta2 of
                  Inl e \<Rightarrow> (Inl e, st\<lparr>st_blobs := s1\<rparr>)
                | Inr sidecar \<Rightarrow>
                    (case bl_Put (env_B E) (sm_S3Key meta2 @ metaSuffix) sidecar s1 of
                       (Some e, s2) \<Rightarrow> (Inl e, st\<lparr>st_blobs := s2\<rparr>)
                     | (None, s2) \<Rightarrow>
                         (let (cachePath, F1) = move_to_cache E localPath (pathFor (st_cache st) k) (st_fs st);
                              meta3 = meta2\<lparr>sm_LocalPath := cachePath\<rparr> in
                          case cat_put (env_D E) (env_M E) meta3 (st_cat st) of
                            (Some e, d1) \<Rightarrow> (Inl e, st\<lparr>st_blobs := s2, st_cat := d1, st_fs := F1\<rparr>)
                          | (None, d1) \<Rightarrow>
                              (case admit k (sm_SizeBytes meta3) (st_cache st) F1 of
                                 (c1, F2) \<Rightarrow>
                                   (Inr meta3, \<lparr>st_blobs = s2, st_cat = d1, st_cache = c1, st_fs = F2\<rparr>)))))))"


section \<open>Reading\<close>

definition Store_Overlapping ::
  "('s, 'd) env \<Rightarrow> time \<Rightarrow> time \<Rightarrow> ('s, 'd) store \<Rightarrow> go_error + segment_meta list" where
  "Store_Overlapping E start stop st = cat_overlapping (env_D E) (env_M E) start stop (st_cat st)"

text \<open>One segment's offsets merged into the watermarks.\<close>

definition merge_offsets :: "segment_meta \<Rightarrow> (string \<rightharpoonup> int) \<Rightarrow> (string \<rightharpoonup> int)" where
  "merge_offsets m out =
     (\<lambda>key. case sm_SourceOffsets m key of
        None \<Rightarrow> out key
      | Some off \<Rightarrow> if off > get0 out key then Some off else out key)"

definition SourceWatermarks :: "('s, 'd) env \<Rightarrow> ('s, 'd) store \<Rightarrow> go_error + (string \<rightharpoonup> int)" where
  "SourceWatermarks E st =
     rbind (cat_all (env_D E) (env_M E) (st_cat st)) (\<lambda>segs. Inr (fold merge_offsets segs Map.empty))"

definition ensureLocal ::
  "('s, 'd) env \<Rightarrow> segment_meta \<Rightarrow> ('s, 'd) store \<Rightarrow> (go_error + string) \<times> ('s, 'd) store" where
  "ensureLocal E m st0 =
     (case touch (sm_ID m) (st_cache st0) of
        (hit, c0) \<Rightarrow>
          (let st = st0\<lparr>st_cache := c0\<rparr> in
           if (case hit of None \<Rightarrow> False | Some p \<Rightarrow> st_fs st p \<noteq> None)
           then (Inr (the hit), st)
           else
             (case bl_Get (env_B E) (sm_S3Key m) (st_blobs st) of
                (Inl e, s1) \<Rightarrow> (Inl e, st\<lparr>st_blobs := s1\<rparr>)
              | (Inr data, s1) \<Rightarrow>
                  (let path = pathFor c0 (sm_ID m) in
                   case os_write (env_os E) path data of
                     (Some e, left) \<Rightarrow> (Inl e, st\<lparr>st_blobs := s1, st_fs := (st_fs st)(path \<mapsto> left)\<rparr>)
                   | (None, _) \<Rightarrow>
                       (case admit (sm_ID m) (int (length data)) c0 ((st_fs st)(path \<mapsto> data)) of
                          (c1, F1) \<Rightarrow> (Inr path, st\<lparr>st_blobs := s1, st_cache := c1, st_fs := F1\<rparr>))))))"

definition Store_Reader ::
  "('s, 'd) env \<Rightarrow> segment_meta \<Rightarrow> ('s, 'd) store \<Rightarrow> (go_error + Reader) \<times> ('s, 'd) store" where
  "Store_Reader E m st =
     (case ensureLocal E m st of
        (Inl e, st1) \<Rightarrow> (Inl e, st1)
      | (Inr path, st1) \<Rightarrow>
          (case file_read E path (st_fs st1) of
             Inl e \<Rightarrow> (Inl e, st1)
           | Inr x \<Rightarrow> (Open (env_C E) x (int (length x)), st1)))"


section \<open>Recovery\<close>

fun latest_key :: "string list \<Rightarrow> string \<Rightarrow> string" where
  "latest_key [] latest = latest"
| "latest_key (k # ks) latest = latest_key ks (if string_less latest k then k else latest)"

text \<open>The entries of a snapshot that the catalog does not have.\<close>

fun merge_snapshot ::
  "('s, 'd) env \<Rightarrow> segment_meta list \<Rightarrow> 'd \<Rightarrow> go_error option \<times> 'd" where
  "merge_snapshot E [] d = (None, d)"
| "merge_snapshot E (m0 # ms) d =
     (let m = m0\<lparr>sm_LocalPath := []\<rparr> in
      case cat_has (env_D E) (env_M E) (sm_ID m) d of
        Inr False \<Rightarrow>
          (case cat_put (env_D E) (env_M E) m d of
             (Some e, d1) \<Rightarrow> (Some e, d1)
           | (None, d1) \<Rightarrow> merge_snapshot E ms d1)
      | _ \<Rightarrow> merge_snapshot E ms d)"

definition loadLatestSnapshot ::
  "('s, 'd) env \<Rightarrow> string \<Rightarrow> ('s, 'd) store \<Rightarrow> go_error option \<times> ('s, 'd) store" where
  "loadLatestSnapshot E tmpPath st =
     (case bl_List (env_B E) (snapPrefix E) (st_blobs st) of
        (Inl e, s1) \<Rightarrow> (Some e, st\<lparr>st_blobs := s1\<rparr>)
      | (Inr [], s1) \<Rightarrow> (None, st\<lparr>st_blobs := s1\<rparr>)
      | (Inr (k # ks), s1) \<Rightarrow>
          (case bl_Get (env_B E) (latest_key ks k) s1 of
             (Inl e, s2) \<Rightarrow> (if IsNotFound e then None else Some e, st\<lparr>st_blobs := s2\<rparr>)
           | (Inr raw, s2) \<Rightarrow>
               (case os_write (env_os E) tmpPath raw of
                  (Some e, _) \<Rightarrow> (Some e, st\<lparr>st_blobs := s2\<rparr>)
                | (None, _) \<Rightarrow>
                    (case openCatalog (env_D E) (Some raw) of
                       Inl e \<Rightarrow> (Some e, st\<lparr>st_blobs := s2\<rparr>)
                     | Inr other \<Rightarrow>
                         (case cat_all (env_D E) (env_M E) other of
                            Inl e \<Rightarrow> (Some e, st\<lparr>st_blobs := s2\<rparr>)
                          | Inr metas \<Rightarrow>
                              (case merge_snapshot E metas (st_cat st) of
                                 (err, d1) \<Rightarrow> (err, st\<lparr>st_blobs := s2, st_cat := d1\<rparr>)))))))"

text \<open>The loop over the keys of the segments.\<close>

fun recover_loop ::
  "('s, 'd) env \<Rightarrow> string list \<Rightarrow> 's \<Rightarrow> 'd \<Rightarrow> go_error option \<times> 's \<times> 'd" where
  "recover_loop E [] s d = (None, s, d)"
| "recover_loop E (k # ks) s d =
     (if \<not> has_suffix k metaSuffix then recover_loop E ks s d
      else
        (let segk = trim_suffix k metaSuffix; i = idFromSegKey segk in
         if i = [] then recover_loop E ks s d
         else
           (case cat_has (env_D E) (env_M E) i d of
              Inl e \<Rightarrow> (Some e, s, d)
            | Inr True \<Rightarrow> recover_loop E ks s d
            | Inr False \<Rightarrow>
                (case bl_Get (env_B E) k s of
                   (Inl e, s1) \<Rightarrow> if IsNotFound e then recover_loop E ks s1 d else (Some e, s1, d)
                 | (Inr raw, s1) \<Rightarrow>
                     (case dec_sidecar (env_M E) raw of
                        Inl e \<Rightarrow> (Some e, s1, d)
                      | Inr m \<Rightarrow>
                          (case cat_put (env_D E) (env_M E)
                                  (m\<lparr>sm_ID := i, sm_S3Key := segk, sm_LocalPath := []\<rparr>) d of
                             (Some e, d1) \<Rightarrow> (Some e, s1, d1)
                           | (None, d1) \<Rightarrow> recover_loop E ks s1 d1))))))"

definition Recover ::
  "('s, 'd) env \<Rightarrow> string \<Rightarrow> ('s, 'd) store \<Rightarrow> go_error option \<times> ('s, 'd) store" where
  "Recover E tmpPath st =
     (case loadLatestSnapshot E tmpPath st of
        (Some e, st1) \<Rightarrow> (Some e, st1)
      | (None, st1) \<Rightarrow>
          (case bl_List (env_B E) (segPrefix E) (st_blobs st1) of
             (Inl e, s2) \<Rightarrow> (Some e, st1\<lparr>st_blobs := s2\<rparr>)
           | (Inr keys, s2) \<Rightarrow>
               (case recover_loop E keys s2 (st_cat st1) of
                  (err, s3, d3) \<Rightarrow> (err, st1\<lparr>st_blobs := s3, st_cat := d3\<rparr>))))"

text \<open>
  The sidecars that a call of \<open>Recover\<close> asks for and is told do not exist: a trace of the same loop,
  with which the theorem about recovery says what it leaves out.
\<close>

fun recover_skips :: "('s, 'd) env \<Rightarrow> string list \<Rightarrow> 's \<Rightarrow> 'd \<Rightarrow> string list" where
  "recover_skips E [] s d = []"
| "recover_skips E (k # ks) s d =
     (let segk = trim_suffix k metaSuffix; i = idFromSegKey segk in
      if has_suffix k metaSuffix \<and> i \<noteq> [] \<and> cat_has (env_D E) (env_M E) i d = Inr False then
        (case bl_Get (env_B E) k s of
           (Inl e, s1) \<Rightarrow> if IsNotFound e then k # recover_skips E ks s1 d else []
         | (Inr raw, s1) \<Rightarrow>
             (case dec_sidecar (env_M E) raw of
                Inl e \<Rightarrow> []
              | Inr m \<Rightarrow> recover_skips E ks s1
                  (snd (cat_put (env_D E) (env_M E) (m\<lparr>sm_ID := i, sm_S3Key := segk, sm_LocalPath := []\<rparr>) d))))
      else recover_skips E ks s d)"

definition Recover_skips :: "('s, 'd) env \<Rightarrow> string \<Rightarrow> ('s, 'd) store \<Rightarrow> string list" where
  "Recover_skips E tmpPath st =
     (case loadLatestSnapshot E tmpPath st of (_, st1) \<Rightarrow>
        (case bl_List (env_B E) (segPrefix E) (st_blobs st1) of
           (Inl e, s2) \<Rightarrow> []
         | (Inr keys, s2) \<Rightarrow> recover_skips E keys s2 (st_cat st1)))"

definition Store_Snapshot ::
  "('s, 'd) env \<Rightarrow> string \<Rightarrow> ('s, 'd) store \<Rightarrow> go_error option \<times> ('s, 'd) store" where
  "Store_Snapshot E k st =
     (case cat_snapshot (env_D E) (st_cat st) of
        Inl e \<Rightarrow> (Some e, st)
      | Inr buf \<Rightarrow>
          (case bl_PutReader (env_B E) (snapPrefix E @ k @ ''.snap'') (Inr buf) (st_blobs st) of
             (err, s1) \<Rightarrow> (err, st\<lparr>st_blobs := s1\<rparr>)))"

end
