(* ===== verification/StoreProofs.thy ===== *)
theory StoreProofs
  imports SegStore
begin

text \<open>
  Durability of the store.  An object store in good order holds, for every sidecar, the segment
  it describes; sealing keeps it so whatever fails on the way, and recovery rebuilds from it a
  catalog with every sealed segment.  The proofs use the contracts \<open>object_store\<close> and
  \<open>segment_catalog\<close> only, in the locale \<open>durable_store\<close>, which is then interpreted on the store
  over S3 and over the in-memory object store, both with the bbolt catalog.
\<close>


section \<open>Object keys\<close>

lemma takeWhile_rev_all: "c \<notin> set y \<Longrightarrow> takeWhile (\<lambda>x. x \<noteq> c) (rev y) = rev y"
  by (subst takeWhile_eq_all_conv) auto

lemma after_last_append: "c \<notin> set y \<Longrightarrow> after_last c (x @ c # y) = y"
  by (auto simp: after_last_def takeWhile_append takeWhile_rev_all)

lemma path_base_append:
  assumes "b \<noteq> []" and "CHR ''/'' \<notin> set b"
  shows "path_base (p @ CHR ''/'' # b) = b"
proof -
  from assms obtain c cs where b: "rev b = c # cs" by (metis list.exhaust rev_is_Nil_conv)
  with assms have "c \<noteq> CHR ''/''" by (metis list.set_intros(1) set_rev)
  then have "dropWhile (\<lambda>x. x = CHR ''/'') (rev (p @ CHR ''/'' # b)) = rev (p @ CHR ''/'' # b)"
    by (simp add: b)
  then show ?thesis using assms by (simp add: path_base_def Let_def after_last_append)
qed

lemma slash_not_in_format_int: "CHR ''/'' \<notin> set (format_int x)"
  using format_int_chars [of "CHR ''/''" x] by (auto simp: is_digit_char_def)

lemma segKeyFor_split:
  "\<exists>dir. segKeyFor E m = segPrefix E @ dir @ CHR ''/'' # format_int (unix_milli (sm_MinTS m)) @ CHR ''-'' #
     format_int (unix_milli (sm_MaxTS m)) @ CHR ''-'' # sm_ID m @ ''.seg''"
  by (cases "utc_date (sm_MinTS m)")
    (auto simp: segKeyFor_def intro!: exI [of _ "pad_int 4 _ @ CHR ''/'' # pad_int 2 _ @ CHR ''/'' # pad_int 2 _"])

lemma idFromSegKey_segKeyFor:
  assumes "CHR ''-'' \<notin> set (sm_ID m)" and "CHR ''/'' \<notin> set (sm_ID m)"
  shows "idFromSegKey (segKeyFor E m) = sm_ID m"
proof -
  let ?a = "format_int (unix_milli (sm_MinTS m))" let ?b = "format_int (unix_milli (sm_MaxTS m))"
  obtain dir where k: "segKeyFor E m = (segPrefix E @ dir) @ CHR ''/'' # (?a @ CHR ''-'' # ?b @ CHR ''-'' # sm_ID m @ ''.seg'')"
    using segKeyFor_split [of E m] by auto
  have "path_base (segKeyFor E m) = ?a @ CHR ''-'' # ?b @ CHR ''-'' # sm_ID m @ ''.seg''"
    unfolding k using assms(2) by (intro path_base_append) (auto simp: slash_not_in_format_int)
  moreover have "trim_suffix (?a @ CHR ''-'' # ?b @ CHR ''-'' # sm_ID m @ ''.seg'') ''.seg''
      = (?a @ CHR ''-'' # ?b) @ CHR ''-'' # sm_ID m"
    using trim_suffix_append [of "(?a @ CHR ''-'' # ?b) @ CHR ''-'' # sm_ID m" "''.seg''"] by simp
  ultimately show ?thesis
    using assms(1) by (simp add: idFromSegKey_def Let_def after_last_append del: append_assoc)
qed

lemma segKeyFor_prefix: "has_prefix (segKeyFor E m) (segPrefix E)"
  using segKeyFor_split [of E m] by auto

lemma segKeyFor_suffix: "\<exists>k. segKeyFor E m = k @ ''.seg''"
  using segKeyFor_split [of E m] by (metis append.assoc append_Cons)

lemma seg_not_meta: "k @ ''.seg'' \<noteq> j @ metaSuffix"
proof
  assume "k @ ''.seg'' = j @ metaSuffix"
  then have "last (k @ ''.seg'') = last (j @ metaSuffix)" by simp
  then show False by (simp add: metaSuffix_def)
qed


section \<open>Sealed segments\<close>

text \<open>A segment is sealed when its body and its sidecar are in the object store under its key.\<close>

definition sealed_in :: "('s, 'd) env \<Rightarrow> (string \<rightharpoonup> string) \<Rightarrow> segment_meta \<Rightarrow> bool" where
  "sealed_in E Obj m \<longleftrightarrow>
     Obj (sm_S3Key m) \<noteq> None \<and>
     (\<exists>b. Obj (sm_S3Key m @ metaSuffix) = Some b \<and> dec_sidecar (env_M E) b = Inr (no_path m)) \<and>
     has_prefix (sm_S3Key m) (segPrefix E) \<and> (\<exists>k. sm_S3Key m = k @ ''.seg'') \<and>
     idFromSegKey (sm_S3Key m) = sm_ID m \<and> sm_ID m \<noteq> []"

text \<open>
  The objects in good order: every sidecar under the segment prefix belongs to a sealed segment,
  ids are unique, and the snapshots hold sealed segments only.
\<close>

definition objects_ok ::
  "('s, 'd) env \<Rightarrow> ('d \<Rightarrow> bool) \<Rightarrow> (segment_meta \<Rightarrow> bool) \<Rightarrow> ('d \<Rightarrow> segment_meta list) \<Rightarrow> (string \<rightharpoonup> string) \<Rightarrow> bool" where
  "objects_ok E cok good entries Obj \<longleftrightarrow>
     (\<forall>k raw. has_prefix k (segPrefix E) \<longrightarrow> Obj (k @ metaSuffix) = Some raw \<longrightarrow>
        (\<exists>m. dec_sidecar (env_M E) raw = Inr m \<and> good m \<and> no_path m = m \<and> sm_S3Key m = k \<and> sealed_in E Obj m)) \<and>
     (\<forall>m m'. sealed_in E Obj m \<longrightarrow> sealed_in E Obj m' \<longrightarrow> sm_ID m = sm_ID m' \<longrightarrow> no_path m = no_path m') \<and>
     (\<forall>k raw d. has_prefix k (snapPrefix E) \<longrightarrow> Obj k = Some raw \<longrightarrow> db_open (env_D E) (Some raw) = Inr d \<longrightarrow>
        cok d \<and> (\<forall>x \<in> set (entries d). sealed_in E Obj x))"

lemma sealed_in_no_path [simp]: "sealed_in E Obj (m\<lparr>sm_LocalPath := p\<rparr>) = sealed_in E Obj m"
  by (simp add: sealed_in_def no_path_def)

lemma no_path_simps [simp]:
  "no_path (m\<lparr>sm_LocalPath := p\<rparr>) = no_path m" "no_path (no_path m) = no_path m"
  "sm_ID (no_path m) = sm_ID m" "sm_S3Key (no_path m) = sm_S3Key m"
  "sm_SourceOffsets (no_path m) = sm_SourceOffsets m" "sm_MinTS (no_path m) = sm_MinTS m"
  by (simp_all add: no_path_def)

text \<open>A write to a key that no sealed segment uses keeps it sealed.\<close>

lemma sealed_in_upd:
  "sealed_in E Obj m \<Longrightarrow> k \<noteq> sm_S3Key m \<Longrightarrow> k \<noteq> sm_S3Key m @ metaSuffix \<Longrightarrow> sealed_in E (Obj(k \<mapsto> x)) m"
  by (simp add: sealed_in_def)

lemma sealed_in_ids:
  assumes "sealed_in E Obj m" and "segk = j @ ''.seg''" and "idFromSegKey segk \<noteq> sm_ID m"
  shows "segk \<noteq> sm_S3Key m" and "segk \<noteq> sm_S3Key m @ metaSuffix"
    and "segk @ metaSuffix \<noteq> sm_S3Key m" and "segk @ metaSuffix \<noteq> sm_S3Key m @ metaSuffix"
proof -
  from assms(1) obtain i where m: "sm_S3Key m = i @ ''.seg''" "idFromSegKey (sm_S3Key m) = sm_ID m"
    by (auto simp: sealed_in_def)
  with assms(3) show ne: "segk \<noteq> sm_S3Key m" by auto
  then show "segk @ metaSuffix \<noteq> sm_S3Key m @ metaSuffix" by simp
  show "segk \<noteq> sm_S3Key m @ metaSuffix" using seg_not_meta [of j "sm_S3Key m"] assms(2) by simp
  show "segk @ metaSuffix \<noteq> sm_S3Key m" using seg_not_meta [of i segk] m(1) by simp
qed


lemma has_prefix_iff: "has_prefix k p \<longleftrightarrow> (\<exists>x. k = p @ x)"
  by (auto simp: has_prefix_def) (metis append_take_drop_id)

lemma prefixes_differ: "has_prefix k (segPrefix E) \<Longrightarrow> \<not> has_prefix k (snapPrefix E)"
  by (auto simp: has_prefix_iff segPrefix_def snapPrefix_def)

lemma has_prefix_meta: "has_prefix k p \<Longrightarrow> has_prefix (k @ x) p"
  by (auto simp: has_prefix_iff)

lemma meta_key_prefix:
  assumes "has_prefix (segk @ metaSuffix) (segPrefix E)"
  shows "has_prefix segk (segPrefix E)"
proof -
  from assms have "prefix (segPrefix E) (segk @ metaSuffix)" by (auto simp: has_prefix_iff prefix_def)
  then consider "prefix (segPrefix E) segk" | us where "segPrefix E = segk @ us" "prefix us metaSuffix" "us \<noteq> []"
    unfolding prefix_append by (metis append_Nil2 prefix_order.refl)
  then show ?thesis
  proof cases
    case 2
    then have "last us = last (segPrefix E)" and "last us \<in> set us" by auto
    then have "CHR ''/'' \<in> set us" by (simp add: segPrefix_def)
    with set_mono_prefix [OF 2(2)] show ?thesis by (auto simp: metaSuffix_def)
  qed (auto simp: has_prefix_iff prefix_def)
qed

lemmas objects_okD = objects_ok_def [THEN iffD1, THEN conjunct1, rule_format]
  objects_ok_def [THEN iffD1, THEN conjunct2, THEN conjunct1, rule_format]
  objects_ok_def [THEN iffD1, THEN conjunct2, THEN conjunct2, rule_format]

text \<open>Storing the body of a new segment changes no sealed segment.\<close>

lemma objects_ok_body:
  assumes ok: "objects_ok E cok good entries Obj"
    and key: "segk = j @ ''.seg''" "has_prefix segk (segPrefix E)"
    and fresh: "\<And>m. sealed_in E Obj m \<Longrightarrow> sm_ID m \<noteq> idFromSegKey segk"
  shows "sealed_in E (Obj(segk \<mapsto> body)) m = sealed_in E Obj m"
    and "objects_ok E cok good entries (Obj(segk \<mapsto> body))"
proof -
  have same: "sealed_in E (Obj(segk \<mapsto> body)) m = sealed_in E Obj m" for m
  proof
    assume new: "sealed_in E (Obj(segk \<mapsto> body)) m"
    have "sm_S3Key m \<noteq> segk"
    proof
      assume k: "sm_S3Key m = segk"
      with new obtain b where "Obj (segk @ metaSuffix) = Some b"
        by (auto simp: sealed_in_def metaSuffix_def split: if_splits)
      from objects_okD(1) [OF ok key(2) this] obtain m' where "sm_S3Key m' = segk" "sealed_in E Obj m'" by blast
      with fresh [of m'] show False by (simp add: sealed_in_def)
    qed
    moreover have "sm_S3Key m @ metaSuffix \<noteq> segk" using seg_not_meta [of j] key(1) by metis
    ultimately show "sealed_in E Obj m" using new by (simp add: sealed_in_def)
  next
    assume old: "sealed_in E Obj m"
    with fresh [OF this] show "sealed_in E (Obj(segk \<mapsto> body)) m"
      using sealed_in_ids [OF old key(1)] by (metis sealed_in_upd)
  qed
  show "sealed_in E (Obj(segk \<mapsto> body)) m = sealed_in E Obj m" by (rule same)
  show "objects_ok E cok good entries (Obj(segk \<mapsto> body))"
    unfolding objects_ok_def same
  proof (intro conjI allI impI)
    fix k raw assume k: "has_prefix k (segPrefix E)" "(Obj(segk \<mapsto> body)) (k @ metaSuffix) = Some raw"
    have "k @ metaSuffix \<noteq> segk" using seg_not_meta [of j k] key(1) by metis
    with k(2) have "Obj (k @ metaSuffix) = Some raw" by simp
    from objects_okD(1) [OF ok k(1) this]
    show "\<exists>m. dec_sidecar (env_M E) raw = Inr m \<and> good m \<and> no_path m = m \<and> sm_S3Key m = k \<and> sealed_in E Obj m" .
  next
    fix a b assume "sealed_in E Obj a" "sealed_in E Obj b" "sm_ID a = sm_ID b"
    then show "no_path a = no_path b" by (rule objects_okD(2) [OF ok])
  next
    fix k raw d assume k: "has_prefix k (snapPrefix E)" "(Obj(segk \<mapsto> body)) k = Some raw"
      and d: "db_open (env_D E) (Some raw) = Inr d"
    have "k \<noteq> segk" using k(1) key(2) prefixes_differ by blast
    with k(2) have "Obj k = Some raw" by simp
    from objects_okD(3) [OF ok k(1) this d] show "cok d" and "\<forall>x \<in> set (entries d). sealed_in E Obj x" by auto
  qed
qed

text \<open>Storing the sidecar after the body seals that segment.\<close>

lemma objects_ok_sidecar:
  assumes ok: "objects_ok E cok good entries Obj"
    and key: "segk = j @ ''.seg''" "has_prefix segk (segPrefix E)"
    and fresh: "\<And>x. sealed_in E Obj x \<Longrightarrow> sm_ID x \<noteq> idFromSegKey segk"
    and m: "dec_sidecar (env_M E) sc = Inr m" "good m" "no_path m = m" "sm_S3Key m = segk"
      "sm_ID m = idFromSegKey segk" "sm_ID m \<noteq> []"
    and body: "Obj segk \<noteq> None"
  shows "sealed_in E (Obj(segk @ metaSuffix \<mapsto> sc)) x \<longleftrightarrow> sealed_in E Obj x \<or> no_path x = m"
    and "objects_ok E cok good entries (Obj(segk @ metaSuffix \<mapsto> sc))"
proof -
  let ?O = "Obj(segk @ metaSuffix \<mapsto> sc)"
  have iff: "sealed_in E ?O x \<longleftrightarrow> sealed_in E Obj x \<or> no_path x = m" for x
  proof
    assume new: "sealed_in E ?O x"
    then obtain i where i: "sm_S3Key x = i @ ''.seg''" by (auto simp: sealed_in_def)
    then have "sm_S3Key x \<noteq> segk @ metaSuffix" using seg_not_meta by metis
    with new m(1) show "sealed_in E Obj x \<or> no_path x = m"
      by (cases "sm_S3Key x = segk") (auto simp: sealed_in_def)
  next
    assume "sealed_in E Obj x \<or> no_path x = m"
    then show "sealed_in E ?O x"
    proof
      assume old: "sealed_in E Obj x"
      with fresh [OF old] show ?thesis using sealed_in_ids [OF old key(1)] by (metis sealed_in_upd)
    next
      assume x: "no_path x = m"
      then have "sm_S3Key x = segk" "sm_ID x = idFromSegKey segk" using m by auto
      then show ?thesis
        using x m body key seg_not_meta [of j segk] by (auto simp: sealed_in_def metaSuffix_def)
    qed
  qed
  show "sealed_in E ?O x \<longleftrightarrow> sealed_in E Obj x \<or> no_path x = m" by (rule iff)
  show "objects_ok E cok good entries ?O"
    unfolding objects_ok_def
  proof (intro conjI allI impI)
    fix k raw assume k: "has_prefix k (segPrefix E)" "?O (k @ metaSuffix) = Some raw"
    show "\<exists>m. dec_sidecar (env_M E) raw = Inr m \<and> good m \<and> no_path m = m \<and> sm_S3Key m = k \<and> sealed_in E ?O m"
    proof (cases "k = segk")
      case True
      with k m iff [of m] show ?thesis by auto
    next
      case False
      with k have "Obj (k @ metaSuffix) = Some raw" by simp
      from objects_okD(1) [OF ok k(1) this] iff show ?thesis by blast
    qed
  next
    fix a b assume ab: "sealed_in E ?O a" "sealed_in E ?O b" and id: "sm_ID a = sm_ID b"
    have mid: "no_path z = m \<Longrightarrow> sm_ID z = idFromSegKey segk" for z using m(5) by auto
    from ab [unfolded iff] show "no_path a = no_path b"
      using fresh mid id objects_okD(2) [OF ok] by metis
  next
    fix k raw d assume k: "has_prefix k (snapPrefix E)" "?O k = Some raw" and d: "db_open (env_D E) (Some raw) = Inr d"
    have "k \<noteq> segk @ metaSuffix" using k(1) key(2) prefixes_differ has_prefix_meta by blast
    with k have "Obj k = Some raw" by simp
    from objects_okD(3) [OF ok k(1) this d] show "cok d" and "\<forall>x \<in> set (entries d). sealed_in E ?O x"
      using iff by blast+
  qed
qed


section \<open>The store over any object store and catalog\<close>

text \<open>
  The invariant of the store: the objects are in good order, and every entry of the catalog is
  sealed.
\<close>

definition store_inv ::
  "('s, 'd) env \<Rightarrow> ('s \<Rightarrow> bool) \<Rightarrow> ('s \<Rightarrow> string \<rightharpoonup> string) \<Rightarrow> ('d \<Rightarrow> bool) \<Rightarrow> (segment_meta \<Rightarrow> bool) \<Rightarrow>
    ('d \<Rightarrow> segment_meta list) \<Rightarrow> ('s, 'd) store \<Rightarrow> bool" where
  "store_inv E bok objs cok good entries st \<longleftrightarrow>
     bok (st_blobs st) \<and> cok (st_cat st) \<and> objects_ok E cok good entries (objs (st_blobs st)) \<and>
     (\<forall>x \<in> set (entries (st_cat st)). sealed_in E (objs (st_blobs st)) x)"

text \<open>The metadata under which a segment is sealed: with its id and its key.\<close>

definition keyed :: "('s, 'd) env \<Rightarrow> string \<Rightarrow> segment_meta \<Rightarrow> segment_meta" where
  "keyed E k m = m\<lparr>sm_ID := k, sm_S3Key := segKeyFor E (m\<lparr>sm_ID := k\<rparr>)\<rparr>"

definition fresh_id :: "('s, 'd) env \<Rightarrow> (string \<rightharpoonup> string) \<Rightarrow> string \<Rightarrow> bool" where
  "fresh_id E Ob k \<longleftrightarrow> (\<forall>m. sealed_in E Ob m \<longrightarrow> sm_ID m \<noteq> k)"

definition plain_id :: "string \<Rightarrow> bool" where
  "plain_id k \<longleftrightarrow> k \<noteq> [] \<and> CHR ''-'' \<notin> set k \<and> CHR ''/'' \<notin> set k"

lemma keyed_key:
  assumes "plain_id k"
  shows "idFromSegKey (sm_S3Key (keyed E k m)) = k" and "has_prefix (sm_S3Key (keyed E k m)) (segPrefix E)"
    and "\<exists>j. sm_S3Key (keyed E k m) = j @ ''.seg''" and "sm_ID (keyed E k m) = k"
  using assms idFromSegKey_segKeyFor [of "m\<lparr>sm_ID := k\<rparr>" E] segKeyFor_prefix segKeyFor_suffix
  by (simp_all add: keyed_def plain_id_def)

locale durable_store =
  bl: object_store "env_B E" bok objs +
  ct: segment_catalog "cat_put (env_D E) (env_M E)" "cat_has (env_D E) (env_M E)"
    "cat_overlapping (env_D E) (env_M E)" cok good entries
  for E :: "('s, 'd) env" and bok objs cok good entries +
  assumes sidecar_codec: "cok d \<Longrightarrow> good m \<Longrightarrow> enc_sidecar (env_M E) m = Inr b \<Longrightarrow> dec_sidecar (env_M E) b = Inr (no_path m)"
    and good_path: "cok d \<Longrightarrow> good m \<Longrightarrow> good (m\<lparr>sm_LocalPath := p\<rparr>)"
    and snapshot_opens: "cok d \<Longrightarrow> cat_snapshot (env_D E) d = Inr b \<Longrightarrow> db_open (env_D E) (Some b) = Inr d' \<Longrightarrow>
      cok d' \<and> set (entries d') = set (entries d)"
begin

abbreviation Obj :: "('s, 'd) store \<Rightarrow> string \<rightharpoonup> string" where
  "Obj st \<equiv> objs (st_blobs st)"

abbreviation inv :: "('s, 'd) store \<Rightarrow> bool" where
  "inv \<equiv> store_inv E bok objs cok good entries"

text \<open>
  The three writes of a seal, in their order.  Each either took place or not when the call after
  it fails.
\<close>

lemma seal_objects:
  assumes inv: "inv st" and k: "plain_id k" and fresh: "fresh_id E (Obj st) k"
    and good: "good (keyed E k meta)"
    and b: "bl_PutReader (env_B E) (sm_S3Key (keyed E k meta)) (Inr body) (st_blobs st) = (r1, s1)"
  shows "bok s1" and "objects_ok E cok good entries (objs s1)"
    and "sealed_in E (objs s1) m = sealed_in E (Obj st) m"
    and "r1 = None \<Longrightarrow> objs s1 (sm_S3Key (keyed E k meta)) = Some body"
    and "\<lbrakk>r1 = None; enc_sidecar (env_M E) (keyed E k meta) = Inr sc;
      bl_Put (env_B E) (sm_S3Key (keyed E k meta) @ metaSuffix) sc s1 = (r2, s2)\<rbrakk> \<Longrightarrow>
      bok s2 \<and> objects_ok E cok good entries (objs s2) \<and>
      (sealed_in E (Obj st) m \<longrightarrow> sealed_in E (objs s2) m) \<and>
      (r2 = None \<longrightarrow> sealed_in E (objs s2) (keyed E k meta) \<and> objs s2 (sm_S3Key (keyed E k meta)) = Some body)"
proof -
  let ?m = "keyed E k meta" let ?k = "sm_S3Key ?m"
  note kk = keyed_key [OF k, of E meta]
  obtain j where j: "?k = j @ ''.seg''" using kk(3) by blast
  from inv have ok: "objects_ok E cok good entries (Obj st)" and bok: "bok (st_blobs st)"
    and cok: "cok (st_cat st)"
    by (simp_all add: store_inv_def)
  have fr: "\<And>m. sealed_in E (Obj st) m \<Longrightarrow> sm_ID m \<noteq> idFromSegKey ?k"
    using fresh kk(1) by (simp add: fresh_id_def)
  note body_ok = objects_ok_body [OF ok j kk(2) fr]
  have s1: "bok s1" "objs s1 = Obj st \<or> objs s1 = (Obj st)(?k \<mapsto> body)"
    "r1 = None \<Longrightarrow> objs s1 = (Obj st)(?k \<mapsto> body)"
    using bl.putr_None [OF bok, of ?k "Inr body" s1] bl.putr_Some [OF bok, of ?k "Inr body" _ s1] b
    by (cases r1; force)+
  show "bok s1" by fact
  show ok1: "objects_ok E cok good entries (objs s1)" using s1(2) ok body_ok(2) by metis
  have same: "sealed_in E (objs s1) m = sealed_in E (Obj st) m" for m using s1(2) body_ok(1) by metis
  show "sealed_in E (objs s1) m = sealed_in E (Obj st) m" by (rule same)
  show "r1 = None \<Longrightarrow> objs s1 ?k = Some body" using s1(3) by simp
  assume r1: "r1 = None" and sc: "enc_sidecar (env_M E) ?m = Inr sc"
    and p: "bl_Put (env_B E) (?k @ metaSuffix) sc s1 = (r2, s2)"
  have fr1: "\<And>m. sealed_in E (objs s1) m \<Longrightarrow> sm_ID m \<noteq> idFromSegKey ?k" using fr same by simp
  have good': "good (no_path ?m)" unfolding no_path_def by (rule good_path [OF cok good])
  have id: "sm_ID (no_path ?m) = idFromSegKey ?k" "sm_ID (no_path ?m) \<noteq> []"
    using kk(1,4) k by (simp_all add: plain_id_def)
  have bd: "objs s1 ?k \<noteq> None" using s1(3) [OF r1] by simp
  note side = objects_ok_sidecar [OF ok1 j kk(2) fr1 sidecar_codec [OF cok good sc] good' _ _ id bd]
  have s2: "bok s2" "objs s2 = objs s1 \<or> objs s2 = (objs s1)(?k @ metaSuffix \<mapsto> sc)"
    "r2 = None \<Longrightarrow> objs s2 = (objs s1)(?k @ metaSuffix \<mapsto> sc)"
    using bl.put_None [OF s1(1), of "?k @ metaSuffix" sc s2] bl.put_Some [OF s1(1), of "?k @ metaSuffix" sc _ s2] p
    by (cases r2; force)+
  have "objs s2 ?k = Some body" if "r2 = None"
    using s2(3) [OF that] s1(3) [OF r1] by (simp add: metaSuffix_def)
  moreover have "objects_ok E cok good entries (objs s2)" using s2(2) ok1 side(2) by auto
  moreover have "sealed_in E (Obj st) m \<longrightarrow> sealed_in E (objs s2) m" using s2(2) same side(1) by auto
  moreover have "r2 = None \<longrightarrow> sealed_in E (objs s2) ?m" using s2(3) side(1) by auto
  ultimately show "bok s2 \<and> objects_ok E cok good entries (objs s2) \<and>
      (sealed_in E (Obj st) m \<longrightarrow> sealed_in E (objs s2) m) \<and>
      (r2 = None \<longrightarrow> sealed_in E (objs s2) ?m \<and> objs s2 ?k = Some body)" using s2(1) by blast
qed

text \<open>Sealing, whatever its outcome, keeps the invariant and loses no sealed segment.\<close>

lemma Store_Seal_inv:
  assumes inv: "inv st" and k: "plain_id k" and fresh: "fresh_id E (Obj st) k"
    and good: "good (keyed E k meta)" and seal: "Store_Seal E lp k meta st = (r, st')"
  shows "inv st' \<and> (\<forall>m. sealed_in E (Obj st) m \<longrightarrow> sealed_in E (Obj st') m) \<and>
    (\<forall>m'. r = Inr m' \<longrightarrow> no_path m' = no_path (keyed E k meta) \<and> sealed_in E (Obj st') m' \<and>
      set (entries (st_cat st')) = insert m' (set (entries (st_cat st))) \<and>
      (\<exists>body. st_fs st lp = Some body \<and> Obj st' (sm_S3Key m') = Some body))"
proof -
  let ?m = "keyed E k meta"
  from inv have cok: "cok (st_cat st)" and sealed: "\<forall>x \<in> set (entries (st_cat st)). sealed_in E (Obj st) x"
    by (simp_all add: store_inv_def)
  note objects = seal_objects [OF inv k fresh good]
  show ?thesis
  proof (cases "file_read E lp (st_fs st)")
    case (Inl e)
    with seal inv show ?thesis by (auto simp: Store_Seal_def Let_def)
  next
    case body: (Inr body)
    then have fs: "st_fs st lp = Some body" by (auto simp: file_read_def split: option.splits)
    obtain r1 s1 where b: "bl_PutReader (env_B E) (sm_S3Key ?m) (Inr body) (st_blobs st) = (r1, s1)"
      by (cases "bl_PutReader (env_B E) (sm_S3Key ?m) (Inr body) (st_blobs st)")
    note o1 = objects(1-4) [OF b]
    have inv1: "inv (st\<lparr>st_blobs := s1\<rparr>)" using o1 cok sealed by (simp add: store_inv_def)
    show ?thesis
    proof (cases "r1 \<noteq> None \<or> (\<exists>e. enc_sidecar (env_M E) ?m = Inl e)")
      case True
      then have "\<exists>e. r = Inl e" and "st' = st\<lparr>st_blobs := s1\<rparr>"
        using seal body b by (auto simp: Store_Seal_def Let_def keyed_def split: option.splits sum.splits)
      with inv1 o1(3) show ?thesis by auto
    next
      case False
      then obtain sc where r1: "r1 = None" and sc: "enc_sidecar (env_M E) ?m = Inr sc"
        by (cases "enc_sidecar (env_M E) ?m") auto
      obtain r2 s2 where p: "bl_Put (env_B E) (sm_S3Key ?m @ metaSuffix) sc s1 = (r2, s2)"
        by (cases "bl_Put (env_B E) (sm_S3Key ?m @ metaSuffix) sc s1")
      note o2 = objects(5) [OF b r1 sc p]
      have ok2: "bok s2" "objects_ok E cok good entries (objs s2)"
        and keep: "\<And>m. sealed_in E (Obj st) m \<Longrightarrow> sealed_in E (objs s2) m" using o2 by blast+
      show ?thesis
      proof (cases r2)
        case (Some e)
        then have "\<exists>e. r = Inl e" and "st' = st\<lparr>st_blobs := s2\<rparr>"
          using seal body b r1 sc p by (auto simp: Store_Seal_def Let_def keyed_def)
        with ok2 keep cok sealed show ?thesis by (auto simp: store_inv_def)
      next
        case None
        obtain cp F1 where mv: "move_to_cache E lp (pathFor (st_cache st) k) (st_fs st) = (cp, F1)"
          by (cases "move_to_cache E lp (pathFor (st_cache st) k) (st_fs st)")
        let ?m3 = "?m\<lparr>sm_LocalPath := cp\<rparr>"
        obtain r3 d1 where c: "cat_put (env_D E) (env_M E) ?m3 (st_cat st) = (r3, d1)"
          by (cases "cat_put (env_D E) (env_M E) ?m3 (st_cat st)")
        have good3: "good ?m3" by (rule good_path [OF cok good])
        from o2 None have new: "sealed_in E (objs s2) ?m3" "objs s2 (sm_S3Key ?m3) = Some body" by auto
        show ?thesis
        proof (cases r3)
          case (Some e)
          with c have c': "cat_put (env_D E) (env_M E) ?m3 (st_cat st) = (Some e, d1)" by simp
          have "\<exists>e. r = Inl e" and st': "st' = st\<lparr>st_blobs := s2, st_cat := d1, st_fs := F1\<rparr>"
            using seal body b r1 sc p None mv c' by (auto simp: Store_Seal_def Let_def keyed_def)
          moreover from ct.put_failed [OF cok good3 c'] have "cok d1" "set (entries d1) = set (entries (st_cat st))"
            by auto
          ultimately show ?thesis using ok2 keep sealed by (auto simp: store_inv_def)
        next
          case none3: None
          with c have c': "cat_put (env_D E) (env_M E) ?m3 (st_cat st) = (None, d1)" by simp
          obtain c1 F2 where "admit k (sm_SizeBytes ?m3) (st_cache st) F1 = (c1, F2)"
            by (cases "admit k (sm_SizeBytes ?m3) (st_cache st) F1")
          then have r: "r = Inr ?m3" and st': "st' = \<lparr>st_blobs = s2, st_cat = d1, st_cache = c1, st_fs = F2\<rparr>"
            using seal body b r1 sc p None mv c' by (auto simp: Store_Seal_def Let_def keyed_def)
          have "sm_ID ?m3 \<notin> sm_ID ` set (entries (st_cat st))"
            using sealed fresh keyed_key(4) [OF k, of E meta] by (auto simp: fresh_id_def)
          from ct.put_entry [OF cok good3 c'] ct.put_new [OF cok good3 c' this]
          have d1: "cok d1" "set (entries d1) = insert ?m3 (set (entries (st_cat st)))" by auto
          with ok2 keep sealed new have "inv st'" by (auto simp: store_inv_def st')
          with d1 new keep fs show ?thesis by (auto simp: r st')
        qed
      qed
    qed
  qed
qed

text \<open>A snapshot keeps the invariant: it holds the entries of the catalog, which are sealed.\<close>

lemma snap_key_not_segment:
  assumes "has_prefix k (snapPrefix E)" and "sealed_in E Ob m"
  shows "k \<noteq> sm_S3Key m" and "k \<noteq> sm_S3Key m @ metaSuffix"
proof -
  from assms(2) have p: "has_prefix (sm_S3Key m) (segPrefix E)" by (simp add: sealed_in_def)
  from assms(1) prefixes_differ [OF p] prefixes_differ [OF has_prefix_meta [OF p]]
  show "k \<noteq> sm_S3Key m" and "k \<noteq> sm_S3Key m @ metaSuffix" by auto
qed

lemma Store_Snapshot_inv:
  assumes inv: "inv st" and snap: "Store_Snapshot E k st = (r, st')"
  shows "inv st' \<and> (\<forall>m. sealed_in E (Obj st') m = sealed_in E (Obj st) m) \<and>
    entries (st_cat st') = entries (st_cat st)"
proof (cases "cat_snapshot (env_D E) (st_cat st)")
  case (Inl e)
  with snap inv show ?thesis by (auto simp: Store_Snapshot_def)
next
  case (Inr buf)
  let ?key = "snapPrefix E @ k @ ''.snap''"
  from inv have bok: "bok (st_blobs st)" and cok: "cok (st_cat st)" and ok: "objects_ok E cok good entries (Obj st)"
    and sealed: "\<forall>x \<in> set (entries (st_cat st)). sealed_in E (Obj st) x" by (simp_all add: store_inv_def)
  obtain s1 where b: "bl_PutReader (env_B E) ?key (Inr buf) (st_blobs st) = (r, s1)" and st': "st' = st\<lparr>st_blobs := s1\<rparr>"
    using snap Inr by (auto simp: Store_Snapshot_def split: prod.splits)
  have s1: "bok s1" "objs s1 = Obj st \<or> objs s1 = (Obj st)(?key \<mapsto> buf)"
    using bl.putr_None [OF bok, of ?key "Inr buf" s1] bl.putr_Some [OF bok, of ?key "Inr buf" _ s1] b
    by (cases r; force)+
  have pre: "has_prefix ?key (snapPrefix E)" by simp
  have same: "sealed_in E ((Obj st)(?key \<mapsto> buf)) m = sealed_in E (Obj st) m" for m
  proof
    assume new: "sealed_in E ((Obj st)(?key \<mapsto> buf)) m"
    from snap_key_not_segment [OF pre new] new show "sealed_in E (Obj st) m" by (simp add: sealed_in_def)
  next
    assume old: "sealed_in E (Obj st) m"
    from snap_key_not_segment [OF pre old] show "sealed_in E ((Obj st)(?key \<mapsto> buf)) m"
      by (intro sealed_in_upd [OF old]) simp_all
  qed
  have "objects_ok E cok good entries ((Obj st)(?key \<mapsto> buf))"
    unfolding objects_ok_def same
  proof (intro conjI allI impI)
    fix j raw assume j: "has_prefix j (segPrefix E)" "((Obj st)(?key \<mapsto> buf)) (j @ metaSuffix) = Some raw"
    have "j @ metaSuffix \<noteq> ?key" using prefixes_differ [OF has_prefix_meta [OF j(1), of metaSuffix]] pre by metis
    with j(2) have "Obj st (j @ metaSuffix) = Some raw" by simp
    from objects_okD(1) [OF ok j(1) this]
    show "\<exists>m. dec_sidecar (env_M E) raw = Inr m \<and> good m \<and> no_path m = m \<and> sm_S3Key m = j \<and> sealed_in E (Obj st) m" .
  next
    fix a b assume "sealed_in E (Obj st) a" "sealed_in E (Obj st) b" "sm_ID a = sm_ID b"
    then show "no_path a = no_path b" by (rule objects_okD(2) [OF ok])
  next
    fix j raw d assume j: "has_prefix j (snapPrefix E)" "((Obj st)(?key \<mapsto> buf)) j = Some raw"
      and d: "db_open (env_D E) (Some raw) = Inr d"
    have "cok d \<and> (\<forall>x \<in> set (entries d). sealed_in E (Obj st) x)"
    proof (cases "j = ?key")
      case True
      with j d snapshot_opens [OF cok Inr, of d] sealed show ?thesis by simp
    next
      case False
      with j have "Obj st j = Some raw" by simp
      from objects_okD(3) [OF ok j(1) this d] show ?thesis .
    qed
    then show "cok d" and "\<forall>x \<in> set (entries d). sealed_in E (Obj st) x" by auto
  qed
  with s1 ok sealed cok same show ?thesis by (auto simp: store_inv_def st')
qed

text \<open>Merging a snapshot adds sealed segments only.\<close>

lemma merge_snapshot_inv:
  "cok d \<Longrightarrow> (\<forall>x \<in> set ms. good x \<and> P (no_path x)) \<Longrightarrow> merge_snapshot E ms d = (r, d') \<Longrightarrow>
    cok d' \<and> set (entries d) \<subseteq> set (entries d') \<and> (\<forall>x \<in> set (entries d') - set (entries d). P x)"
proof (induction ms arbitrary: d)
  case (Cons m0 ms)
  let ?m = "m0\<lparr>sm_LocalPath := []\<rparr>"
  note has = ct.has_entry [OF Cons.prems(1), of "sm_ID ?m"]
  show ?case
  proof (cases "sm_ID ?m \<in> sm_ID ` set (entries d)")
    case True
    with Cons has show ?thesis by simp
  next
    case False
    with has have h: "cat_has (env_D E) (env_M E) (sm_ID m0) d = Inr False" by simp
    have good: "good ?m" using Cons.prems(2) good_path [OF Cons.prems(1)] by simp
    obtain r1 d1 where c: "cat_put (env_D E) (env_M E) ?m d = (r1, d1)"
      by (cases "cat_put (env_D E) (env_M E) ?m d")
    show ?thesis
    proof (cases r1)
      case None
      with c have c': "cat_put (env_D E) (env_M E) ?m d = (None, d1)" by simp
      with Cons.prems(3) h have "merge_snapshot E ms d1 = (r, d')" by (simp add: Let_def)
      moreover have d1: "cok d1" "set (entries d1) = insert ?m (set (entries d))"
        using ct.put_entry [OF Cons.prems(1) good c'] ct.put_new [OF Cons.prems(1) good c'] False by auto
      moreover have "P ?m" using Cons.prems(2) by (simp add: no_path_def)
      ultimately show ?thesis using Cons.IH [of d1] Cons.prems(2) by auto
    next
      case (Some e)
      with c have c': "cat_put (env_D E) (env_M E) ?m d = (Some e, d1)" by simp
      with Cons.prems(3) h have "d' = d1" by (simp add: Let_def)
      with ct.put_failed [OF Cons.prems(1) good c'] show ?thesis by auto
    qed
  qed
qed simp

text \<open>The catalog after each phase of a recovery: at least what it had, and sealed segments besides.\<close>

definition grows :: "(string \<rightharpoonup> string) \<Rightarrow> 'd \<Rightarrow> 'd \<Rightarrow> bool" where
  "grows Ob d d' \<longleftrightarrow> cok d' \<and> set (entries d) \<subseteq> set (entries d') \<and>
     (\<forall>x \<in> set (entries d') - set (entries d). sealed_in E Ob x)"

lemma grows_refl: "cok d \<Longrightarrow> grows Ob d d"
  by (simp add: grows_def)

lemma grows_trans: "grows Ob d1 d2 \<Longrightarrow> grows Ob d2 d3 \<Longrightarrow> grows Ob d1 d3"
  unfolding grows_def by blast

lemma loadLatestSnapshot_inv:
  assumes inv: "inv st" and load: "loadLatestSnapshot E tmp st = (r, st')"
  shows "bok (st_blobs st') \<and> Obj st' = Obj st \<and> grows (Obj st) (st_cat st) (st_cat st')"
proof -
  from inv have bok: "bok (st_blobs st)" and cok: "cok (st_cat st)" and ok: "objects_ok E cok good entries (Obj st)"
    by (simp_all add: store_inv_def)
  obtain q s1 where ls: "bl_List (env_B E) (snapPrefix E) (st_blobs st) = (q, s1)"
    by (cases "bl_List (env_B E) (snapPrefix E) (st_blobs st)")
  with bl.list_ok [OF bok] have s1: "bok s1" "objs s1 = Obj st" by auto
  note refl = grows_refl [OF cok]
  show ?thesis
  proof (cases q)
    case (Inl e)
    with load ls s1 refl show ?thesis by (auto simp: loadLatestSnapshot_def)
  next
    case (Inr keys)
    show ?thesis
    proof (cases keys)
      case Nil
      with load ls s1 refl Inr show ?thesis by (auto simp: loadLatestSnapshot_def)
    next
      case (Cons k ks)
      let ?k = "latest_key ks k"
      have "latest_key js j \<in> insert j (set js)" for js j by (induction js arbitrary: j) auto
      then have "?k \<in> set keys" using Cons by simp
      with bl.list_Inr [OF bok] ls Inr have pre: "has_prefix ?k (snapPrefix E)" by blast
      obtain g s2 where gt: "bl_Get (env_B E) ?k s1 = (g, s2)" by (cases "bl_Get (env_B E) ?k s1")
      with bl.get_ok [OF s1(1)] s1(2) have s2: "bok s2" "objs s2 = Obj st" by auto
      show ?thesis
      proof (cases "\<exists>raw other metas. g = Inr raw \<and> fst (os_write (env_os E) tmp raw) = None \<and>
          openCatalog (env_D E) (Some raw) = Inr other \<and> cat_all (env_D E) (env_M E) other = Inr metas")
        case True
        then obtain raw other metas where g: "g = Inr raw" "fst (os_write (env_os E) tmp raw) = None"
          and other: "openCatalog (env_D E) (Some raw) = Inr other" and metas: "cat_all (env_D E) (env_M E) other = Inr metas"
          by blast
        from bl.get_Inr [OF s1(1)] gt g s1(2) have "Obj st ?k = Some raw" by auto
        from objects_okD(3) [OF ok pre this] other
        have o: "cok other" "\<forall>x \<in> set (entries other). sealed_in E (Obj st) x" by (auto simp: openCatalog_def)
        from metas ct.all_entries [OF o(1)] have ms: "metas = entries other" by (simp add: cat_all_def)
        obtain err d1 where mg: "merge_snapshot E metas (st_cat st) = (err, d1)"
          by (cases "merge_snapshot E metas (st_cat st)")
        have "\<forall>x \<in> set metas. good x \<and> sealed_in E (Obj st) (no_path x)"
          using o ct.entries_good [OF o(1)] by (simp add: ms no_path_def)
        from merge_snapshot_inv [OF cok this mg] have "grows (Obj st) (st_cat st) d1" by (simp add: grows_def)
        moreover have "st' = st\<lparr>st_blobs := s2, st_cat := d1\<rparr>"
          using load ls Inr Cons gt g other metas mg
          by (cases "os_write (env_os E) tmp raw") (auto simp: loadLatestSnapshot_def)
        ultimately show ?thesis using s2 by simp
      next
        case False
        then have "st' = st\<lparr>st_blobs := s2\<rparr>"
          using load ls Inr Cons gt
          by (auto simp: loadLatestSnapshot_def split: sum.splits prod.splits option.splits)
        with s2 refl show ?thesis by simp
      qed
    qed
  qed
qed

text \<open>The backfill from the sidecars.\<close>

lemma recover_loop_inv:
  "bok s \<Longrightarrow> cok d \<Longrightarrow> objects_ok E cok good entries (objs s) \<Longrightarrow> \<forall>k \<in> set ks. has_prefix k (segPrefix E) \<Longrightarrow>
    recover_loop E ks s d = (r, s', d') \<Longrightarrow>
    bok s' \<and> objs s' = objs s \<and> grows (objs s) d d' \<and>
    (r = None \<longrightarrow> (\<forall>m. sealed_in E (objs s) m \<longrightarrow> sm_S3Key m @ metaSuffix \<in> set ks - set (recover_skips E ks s d) \<longrightarrow>
      sm_ID m \<in> sm_ID ` set (entries d')))"
proof (induction ks arbitrary: s d)
  case Nil
  then show ?case by (auto simp: grows_refl)
next
  case (Cons k ks)
  note bok = Cons.prems(1) and cok = Cons.prems(2) and ok = Cons.prems(3) and loop = Cons.prems(5)
  let ?segk = "trim_suffix k metaSuffix" let ?i = "idFromSegKey (trim_suffix k metaSuffix)"
  have mine: "sm_ID m = ?i" if "sealed_in E (objs s) m" "sm_S3Key m @ metaSuffix = k" for m
  proof -
    have "idFromSegKey (sm_S3Key m) = sm_ID m" using that(1) by (simp add: sealed_in_def)
    then show ?thesis using that(2) [symmetric] by simp
  qed
  have IH: "bok s' \<and> objs s' = objs s \<and> grows (objs s) d1 d' \<and>
      (r = None \<longrightarrow> (\<forall>m. sealed_in E (objs s) m \<longrightarrow> sm_S3Key m @ metaSuffix \<in> set ks - set (recover_skips E ks s1 d1) \<longrightarrow>
        sm_ID m \<in> sm_ID ` set (entries d')))"
    if "bok s1" "cok d1" "objs s1 = objs s" "recover_loop E ks s1 d1 = (r, s', d')" for s1 d1
    using Cons.IH [OF that(1,2) _ _ that(4)] Cons.prems(3,4) that(3) by simp
  show ?case
  proof (cases "has_suffix k metaSuffix \<and> ?i \<noteq> [] \<and> ?i \<notin> sm_ID ` set (entries d)")
    case False
    then have rest: "recover_loop E ks s d = (r, s', d')"
      using loop ct.has_entry [OF cok, of ?i] by (auto simp: Let_def split: if_splits)
    from IH [OF bok cok refl this] have ih: "bok s'" "objs s' = objs s" "grows (objs s) d d'"
      "r = None \<longrightarrow> (\<forall>m. sealed_in E (objs s) m \<longrightarrow> sm_S3Key m @ metaSuffix \<in> set ks - set (recover_skips E ks s d) \<longrightarrow>
        sm_ID m \<in> sm_ID ` set (entries d'))" by auto
    have skips: "recover_skips E (k # ks) s d = recover_skips E ks s d"
      using False ct.has_entry [OF cok, of ?i] by (auto simp: Let_def)
    have "sm_ID m \<in> sm_ID ` set (entries d')" if m: "sealed_in E (objs s) m" "sm_S3Key m @ metaSuffix = k" for m
    proof -
      from m(2) have "has_suffix k metaSuffix" by auto
      with False mine [OF m] m(1) have "sm_ID m \<in> sm_ID ` set (entries d)" by (auto simp: sealed_in_def)
      with ih(3) show ?thesis unfolding grows_def by blast
    qed
    with ih show ?thesis unfolding skips by auto
  next
    case True
    then have step: "recover_loop E (k # ks) s d =
        (case bl_Get (env_B E) k s of
           (Inl e, s1) \<Rightarrow> if IsNotFound e then recover_loop E ks s1 d else (Some e, s1, d)
         | (Inr raw, s1) \<Rightarrow>
             (case dec_sidecar (env_M E) raw of
                Inl e \<Rightarrow> (Some e, s1, d)
              | Inr m \<Rightarrow>
                  (case cat_put (env_D E) (env_M E) (m\<lparr>sm_ID := ?i, sm_S3Key := ?segk, sm_LocalPath := []\<rparr>) d of
                     (Some e, d1) \<Rightarrow> (Some e, s1, d1)
                   | (None, d1) \<Rightarrow> recover_loop E ks s1 d1)))"
      using ct.has_entry [OF cok, of ?i] by (simp add: Let_def)
    have has: "cat_has (env_D E) (env_M E) ?i d = Inr False" using True ct.has_entry [OF cok, of ?i] by simp
    obtain g s1 where gt: "bl_Get (env_B E) k s = (g, s1)" by (cases "bl_Get (env_B E) k s")
    with bl.get_ok [OF bok] have s1: "bok s1" "objs s1 = objs s" by auto
    from True obtain segk where k: "k = segk @ metaSuffix" and sk: "?segk = segk"
      by (auto simp: has_suffix_def trim_suffix_def) (metis append_take_drop_id)
    have pre: "has_prefix segk (segPrefix E)" using Cons.prems(4) k by (simp add: meta_key_prefix)
    show ?thesis
    proof (cases g)
      case (Inl e)
      show ?thesis
      proof (cases "IsNotFound e")
        case nf: True
        then have skips: "recover_skips E (k # ks) s d = k # recover_skips E ks s1 d"
          using True has gt Inl by (simp add: Let_def)
        from loop step gt Inl nf have "recover_loop E ks s1 d = (r, s', d')" by simp
        from IH [OF s1(1) cok s1(2) this] show ?thesis unfolding skips by auto
      next
        case False
        with loop step gt Inl s1 grows_refl [OF cok] show ?thesis by auto
      qed
    next
      case (Inr raw)
      with bl.get_Inr [OF bok] gt have raw: "objs s (segk @ metaSuffix) = Some raw" by (simp add: k)
      from objects_okD(1) [OF ok pre this] obtain m where m: "dec_sidecar (env_M E) raw = Inr m" "good m"
        "no_path m = m" "sm_S3Key m = segk" "sealed_in E (objs s) m" by blast
      have put_m: "m\<lparr>sm_ID := ?i, sm_S3Key := ?segk, sm_LocalPath := []\<rparr> = m"
        using m sk by (cases m) (auto simp: sealed_in_def no_path_def)
      obtain r1 d1 where c: "cat_put (env_D E) (env_M E) m d = (r1, d1)"
        by (cases "cat_put (env_D E) (env_M E) m d")
      show ?thesis
      proof (cases r1)
        case None
        with c have c': "cat_put (env_D E) (env_M E) m d = (None, d1)" by simp
        have id: "sm_ID m = ?i" using m sk by (simp add: sealed_in_def)
        from ct.put_entry [OF cok m(2) c'] ct.put_new [OF cok m(2) c'] True id
        have d1: "cok d1" "set (entries d1) = insert m (set (entries d))" by auto
        then have g1: "grows (objs s) d d1" using m(5) by (auto simp: grows_def)
        from loop step gt Inr m(1) c' put_m have "recover_loop E ks s1 d1 = (r, s', d')" by simp
        from IH [OF s1(1) d1(1) s1(2) this] have ih: "bok s'" "objs s' = objs s" "grows (objs s) d1 d'"
          "r = None \<longrightarrow> (\<forall>m. sealed_in E (objs s) m \<longrightarrow> sm_S3Key m @ metaSuffix \<in> set ks - set (recover_skips E ks s1 d1) \<longrightarrow>
            sm_ID m \<in> sm_ID ` set (entries d'))" by auto
        have skips: "recover_skips E (k # ks) s d = recover_skips E ks s1 d1"
          using True has gt Inr m(1) put_m c' by (simp add: Let_def)
        have "m \<in> set (entries d')" using ih(3) d1(2) unfolding grows_def by blast
        then have "sm_ID x \<in> sm_ID ` set (entries d')" if "sealed_in E (objs s) x" "sm_S3Key x @ metaSuffix = k" for x
          using mine [OF that] id by (metis imageI)
        with ih grows_trans [OF g1 ih(3)] show ?thesis unfolding skips by auto
      next
        case (Some e)
        with c have c': "cat_put (env_D E) (env_M E) m d = (Some e, d1)" by simp
        from ct.put_failed [OF cok m(2) c'] have "grows (objs s) d d1" by (auto simp: grows_def)
        moreover from loop step gt Inr m(1) c' put_m have "r = Some e" "s' = s1" "d' = d1" by simp_all
        ultimately show ?thesis using s1 by simp
      qed
    qed
  qed
qed

text \<open>After a recovery the catalog has every sealed segment, but for those whose sidecar read as missing.\<close>

lemma Recover_inv:
  assumes inv: "inv st" and rec: "Recover E tmp st = (r, st')"
  shows "inv st' \<and> Obj st' = Obj st \<and> set (entries (st_cat st)) \<subseteq> set (entries (st_cat st'))"
    and "r = None \<Longrightarrow> sealed_in E (Obj st) m \<Longrightarrow> sm_S3Key m @ metaSuffix \<notin> set (Recover_skips E tmp st) \<Longrightarrow>
      \<exists>x \<in> set (entries (st_cat st')). no_path x = no_path m"
proof -
  obtain r1 st1 where l: "loadLatestSnapshot E tmp st = (r1, st1)" by (cases "loadLatestSnapshot E tmp st")
  from loadLatestSnapshot_inv [OF inv l] have bok1: "bok (st_blobs st1)" and o1: "Obj st1 = Obj st"
    and g1: "grows (Obj st) (st_cat st) (st_cat st1)" by auto
  from inv have ok: "objects_ok E cok good entries (Obj st)"
    and sealed: "\<forall>x \<in> set (entries (st_cat st)). sealed_in E (Obj st) x" by (simp_all add: store_inv_def)
  have inv_of: "inv st2 \<and> Obj st2 = Obj st \<and> set (entries (st_cat st)) \<subseteq> set (entries (st_cat st2))"
    if "bok (st_blobs st2)" "Obj st2 = Obj st" "grows (Obj st) (st_cat st) (st_cat st2)" for st2
    using that ok sealed unfolding store_inv_def grows_def by auto
  obtain q s2 where ls: "bl_List (env_B E) (segPrefix E) (st_blobs st1) = (q, s2)"
    by (cases "bl_List (env_B E) (segPrefix E) (st_blobs st1)")
  with bl.list_ok [OF bok1] o1 have s2: "bok s2" "objs s2 = Obj st" by auto
  consider e where "r1 = Some e" | e where "r1 = None" "q = Inl e" | keys where "r1 = None" "q = Inr keys"
    by (cases r1; cases q) auto
  then have "(inv st' \<and> Obj st' = Obj st \<and> set (entries (st_cat st)) \<subseteq> set (entries (st_cat st'))) \<and>
    (r = None \<longrightarrow> sealed_in E (Obj st) m \<longrightarrow> sm_S3Key m @ metaSuffix \<notin> set (Recover_skips E tmp st) \<longrightarrow> (\<exists>x \<in> set (entries (st_cat st')). no_path x = no_path m))"
  proof cases
    case 1
    with rec l have "r \<noteq> None" "st' = st1" by (auto simp: Recover_def)
    with inv_of [OF bok1 o1 g1] show ?thesis by auto
  next
    case 2
    with rec l ls have "r \<noteq> None" "st' = st1\<lparr>st_blobs := s2\<rparr>" by (auto simp: Recover_def)
    with inv_of [of "st1\<lparr>st_blobs := s2\<rparr>"] s2 g1 show ?thesis by auto
  next
    case 3
    obtain r3 s3 d3 where rl: "recover_loop E keys s2 (st_cat st1) = (r3, s3, d3)"
      by (cases "recover_loop E keys s2 (st_cat st1)")
    with rec l ls 3 have st': "r = r3" "st' = st1\<lparr>st_blobs := s3, st_cat := d3\<rparr>" by (auto simp: Recover_def)
    have keys: "set keys = {k \<in> dom (Obj st). has_prefix k (segPrefix E)}"
      using bl.list_Inr [OF bok1] ls 3 o1 by auto
    have "cok (st_cat st1)" using g1 by (simp add: grows_def)
    from recover_loop_inv [OF s2(1) this _ _ rl] ok s2(2) keys
    have r3: "bok s3" "objs s3 = Obj st" "grows (Obj st) (st_cat st1) d3"
      and cover: "r3 = None \<Longrightarrow> sealed_in E (Obj st) m \<Longrightarrow>
        sm_S3Key m @ metaSuffix \<in> set keys - set (recover_skips E keys s2 (st_cat st1)) \<Longrightarrow>
        sm_ID m \<in> sm_ID ` set (entries d3)" for m by auto
    have i3: "inv st' \<and> Obj st' = Obj st \<and> set (entries (st_cat st)) \<subseteq> set (entries (st_cat st'))"
      using inv_of [of st'] r3 grows_trans [OF g1 r3(3)] st' by simp
    moreover have "\<exists>x \<in> set (entries (st_cat st')). no_path x = no_path m"
      if "r = None" and m: "sealed_in E (Obj st) m" and found: "sm_S3Key m @ metaSuffix \<notin> set (Recover_skips E tmp st)"
    proof -
      have "Recover_skips E tmp st = recover_skips E keys s2 (st_cat st1)" using l ls 3 by (simp add: Recover_skips_def)
      moreover have "sm_S3Key m @ metaSuffix \<in> set keys"
        using m unfolding keys sealed_in_def by (auto intro: has_prefix_meta)
      ultimately have "sm_S3Key m @ metaSuffix \<in> set keys - set (recover_skips E keys s2 (st_cat st1))" using found by simp
      with cover [of m] that st' obtain x where x: "x \<in> set (entries d3)" "sm_ID x = sm_ID m" by auto
      from i3 have "Obj st' = Obj st" "x \<in> set (entries (st_cat st'))" using x st' by auto
      with i3 have "sealed_in E (Obj st) x" unfolding store_inv_def by metis
      with objects_okD(2) [OF ok _ m x(2)] x st' show ?thesis by auto
    qed
    ultimately show ?thesis by blast
  qed
  then show "inv st' \<and> Obj st' = Obj st \<and> set (entries (st_cat st)) \<subseteq> set (entries (st_cat st'))"
    and "r = None \<Longrightarrow> sealed_in E (Obj st) m \<Longrightarrow> sm_S3Key m @ metaSuffix \<notin> set (Recover_skips E tmp st) \<Longrightarrow>
      \<exists>x \<in> set (entries (st_cat st')). no_path x = no_path m"
    by blast+
qed

text \<open>The watermarks are the per-source maxima over the catalog, at least 0.\<close>

lemma SourceWatermarks_entries:
  "inv st \<Longrightarrow> SourceWatermarks E st = Inr (fold merge_offsets (entries (st_cat st)) Map.empty)"
  using ct.all_entries by (simp add: SourceWatermarks_def cat_all_def store_inv_def del: rbind_Inr_iff)

end

lemma get0_merge_offsets: "get0 (merge_offsets m out) k = max (get0 out k) (get0 (sm_SourceOffsets m) k)"
  if "0 \<le> get0 out k"
  using that by (auto simp: merge_offsets_def get0_def max_def split: option.splits)

lemma watermarks_max:
  "0 \<le> get0 out k \<Longrightarrow>
    get0 (fold merge_offsets ms out) k = foldr (\<lambda>m v. max (get0 (sm_SourceOffsets m) k) v) ms (get0 out k)"
proof (induction ms arbitrary: out)
  case (Cons m ms)
  have "foldr (\<lambda>m v. max (get0 (sm_SourceOffsets m) k) v) ms (max a b)
      = max b (foldr (\<lambda>m v. max (get0 (sm_SourceOffsets m) k) v) ms a)" for a b
    by (induction ms) (simp_all add: max.left_commute max.commute)
  with Cons show ?case by (simp add: get0_merge_offsets)
qed simp

lemma watermark_ge:
  "m \<in> set ms \<Longrightarrow> get0 (sm_SourceOffsets m) k \<le> get0 (fold merge_offsets ms Map.empty) k"
proof -
  assume m: "m \<in> set ms"
  have "get0 (sm_SourceOffsets m) k \<le> foldr (\<lambda>m v. max (get0 (sm_SourceOffsets m) k) v) ms v" for v
    using m by (induction ms) auto
  then show ?thesis by (simp add: watermarks_max)
qed


section \<open>The two stores of the program\<close>

lemma bolt_snapshot_opens:
  assumes "cat_ok D M good d" and "cat_snapshot D d = Inr b" and "db_open D (Some b) = Inr d'"
  shows "cat_ok D M good d' \<and> set (cat_metas D M d') = set (cat_metas D M d)"
proof -
  from assms(1,2) obtain d1 where "db_open D (Some b) = Inr d1" "db_scan D d1 = db_scan D d"
    unfolding cat_ok_def bolt_ok_def cat_snapshot_def by metis
  with assms show ?thesis by (auto simp: cat_ok_def cat_metas_def)
qed

lemma durable_store_catalog:
  assumes "object_store (env_B E) bok objs"
  shows "durable_store E bok objs (cat_ok (env_D E) (env_M E) good) good (cat_metas (env_D E) (env_M E))"
proof (intro durable_store.intro durable_store_axioms.intro)
  show "object_store (env_B E) bok objs" by fact
  show "segment_catalog (cat_put (env_D E) (env_M E)) (cat_has (env_D E) (env_M E))
     (cat_overlapping (env_D E) (env_M E)) (cat_ok (env_D E) (env_M E) good) good (cat_metas (env_D E) (env_M E))"
    by (rule bolt_catalog.segment_catalog_axioms)
  fix d d' m b p
  assume ok: "cat_ok (env_D E) (env_M E) good d"
  show "cat_snapshot (env_D E) d = Inr b \<Longrightarrow> db_open (env_D E) (Some b) = Inr d' \<Longrightarrow>
      cat_ok (env_D E) (env_M E) good d' \<and>
      set (cat_metas (env_D E) (env_M E) d') = set (cat_metas (env_D E) (env_M E) d)"
    using ok by (rule bolt_snapshot_opens)
  show "good m \<Longrightarrow> enc_sidecar (env_M E) m = Inr b \<Longrightarrow> dec_sidecar (env_M E) b = Inr (no_path m)"
    and "good m \<Longrightarrow> good (m\<lparr>sm_LocalPath := p\<rparr>)"
    using ok unfolding cat_ok_def meta_codec_ok_def by blast+
qed

text \<open>The manager's store: S3 through go-s3, and the bbolt catalog.\<close>

interpretation s3_store: durable_store "E\<lparr>env_B := S3Blobs K\<rparr>" "\<lambda>c. s3_ok K bucket key_of staged" bucket
    "cat_ok (env_D E) (env_M E) good" good "cat_metas (env_D E) (env_M E)"
  for E :: "('c, 'd) env" and K :: "('c, 'u) s3_client" and bucket key_of staged good
  using durable_store_catalog [of "E\<lparr>env_B := S3Blobs K\<rparr>" "\<lambda>c. s3_ok K bucket key_of staged" bucket good]
    s3.object_store_axioms [of K bucket key_of staged] by simp

text \<open>The store of the tests: objects in memory.\<close>

interpretation mem_store: durable_store "E\<lparr>env_B := MemBlobs\<rparr>" "\<lambda>m. True" map_of
    "cat_ok (env_D E) (env_M E) good" good "cat_metas (env_D E) (env_M E)"
  for E :: "(mem, 'd) env" and good
  using durable_store_catalog [of "E\<lparr>env_B := MemBlobs\<rparr>" "\<lambda>m. True" map_of good] mem.object_store_axioms by simp

end
