(* ===== verification/StoreQuery.thy ===== *)
theory StoreQuery
  imports StoreProofs
begin

text \<open>
  Queries over the store: the store is the \<open>SegmentStore\<close> the executor works on.  In a state in
  which the catalog's segments are in the object store and the calls to it and to the file system
  succeed, opening a segment through the cache yields its records, so the contract
  \<open>segment_source\<close> of the executor holds.
\<close>


section \<open>The store as a segment source\<close>

definition store_source :: "('s, 'd) env \<Rightarrow> ('s, 'd) store segment_store" where
  "store_source E = \<lparr>ss_Overlapping = Store_Overlapping E,
     ss_Reader = (\<lambda>m st. case Store_Reader E m st of
        (Inl e, st1) \<Rightarrow> (Inl e, st1)
      | (Inr rd, st1) \<Rightarrow> (Inr (reader_of (env_C E) rd), st1))\<rparr>"

text \<open>The records of a segment file: those of its blocks, one after the other.\<close>

definition seg_records :: "codec \<Rightarrow> string \<Rightarrow> log_record list" where
  "seg_records C body =
     (case Open C body (int (length body)) of
        Inl e \<Rightarrow> []
      | Inr rd \<Rightarrow> concat (map (\<lambda>i. case rd_read (reader_of C rd) i of Inl e \<Rightarrow> [] | Inr rs \<Rightarrow> rs)
          [0 ..< length (Blocks rd)]))"

text \<open>A file that opens as the segment the metadata \<open>m\<close> describe.\<close>

definition segment_body :: "codec \<Rightarrow> segment_meta \<Rightarrow> string \<Rightarrow> bool" where
  "segment_body C m body \<longleftrightarrow>
     (\<exists>rd. Open C body (int (length body)) = Inr rd \<and> faithful m (reader_of C rd) (seg_records C body))"

lemma faithful_records:
  assumes "Open C body (int (length body)) = Inr rd" and "faithful m (reader_of C rd) rs"
  shows "seg_records C body = rs"
proof -
  from assms(2) obtain chunks where ch: "rs = concat chunks" "length chunks = length (Blocks rd)"
    "\<forall>i < length chunks. rd_read (reader_of C rd) i = Inr (chunks ! i)"
    by (auto simp: faithful_def reader_of_def)
  then have "map (\<lambda>i. case rd_read (reader_of C rd) i of Inl e \<Rightarrow> [] | Inr rs \<Rightarrow> rs) [0 ..< length (Blocks rd)]
      = chunks"
    by (intro nth_equalityI) auto
  with assms(1) ch show ?thesis by (simp add: seg_records_def)
qed

lemma faithful_segment_body:
  "Open C body (int (length body)) = Inr rd \<Longrightarrow> faithful m (reader_of C rd) rs \<Longrightarrow>
    segment_body C m body \<and> seg_records C body = rs"
  using faithful_records [of C body rd m rs] by (auto simp: segment_body_def)

text \<open>What the writer produces from a sorted batch is such a file.\<close>

lemma write_segment_body:
  assumes C: "codec_ok C gr gn" and io: "io_contract wr"
    and ws: "write_segment C wr created rs = Inr (meta, body)" and small: "length body < 2 ^ 31"
    and rs: "rs \<noteq> []" "\<forall>r \<in> set rs. storable gr gn r" and sorted: "ts_sorted False rs"
  shows "segment_body C meta body" and "seg_records C body = rs"
    and "sm_SourceOffsets meta = fold (\<lambda>r. raise_max (rec_key r) (rec_Offset r)) rs Map.empty"
    and "sm_SizeBytes meta = int (length body)"
proof -
  from write_segment_open [OF C io ws small rs] obtain rd chunks out rest where
    rd: "Open C body (int (length body)) = Inr rd"
    and off: "sm_SourceOffsets meta = fold (\<lambda>r. raise_max (rec_key r) (rec_Offset r)) rs Map.empty"
    and ch: "rs = concat chunks" "list_all2 (block_ok C out) (rr_blocks rd) chunks" "rr_file rd = out @ rest"
    and sp: "spans (sm_MinTS meta) (sm_MaxTS meta) rs" "\<forall>r \<in> set rs. summarises meta r"
    and sz: "sm_SizeBytes meta = int (length body)"
    by blast
  have z: "\<forall>x. zstd_dec C (zstd_enc C x) = Inr x" using C by (simp add: codec_ok_def)
  have enc: "\<forall>r \<in> set rs. encodable C r" using rs(2) codec_ok_encodable [OF C] by (auto simp: storable_def)
  have "faithful meta (reader_of C rd) rs"
    using faithful_reader [OF ch(2,3) z] enc sp sorted ch(1) by simp
  from faithful_segment_body [OF rd this] show "segment_body C meta body" and "seg_records C body = rs" by auto
  show "sm_SourceOffsets meta = fold (\<lambda>r. raise_max (rec_key r) (rec_Offset r)) rs Map.empty"
    and "sm_SizeBytes meta = int (length body)" by (fact off, fact sz)
qed

lemma segment_body_cong:
  "sm_MinTS m = sm_MinTS m' \<Longrightarrow> sm_MaxTS m = sm_MaxTS m' \<Longrightarrow> (\<And>r. summarises m r = summarises m' r) \<Longrightarrow>
    segment_body C m body = segment_body C m' body"
  by (simp add: segment_body_def faithful_def)

definition store_content :: "('s, 'd) env \<Rightarrow> ('s \<Rightarrow> string \<rightharpoonup> string) \<Rightarrow> ('s, 'd) store \<Rightarrow> segment_meta \<Rightarrow> log_record list" where
  "store_content E objs st m =
     (case objs (st_blobs st) (sm_S3Key m) of None \<Rightarrow> [] | Some body \<Rightarrow> seg_records (env_C E) body)"

text \<open>
  A state in which queries succeed: the catalog lists sealed segments whose bodies open, none
  larger than the cache; files in the cache are those bodies; and the object store and the file
  system serve their calls.
\<close>

definition gets_serve :: "('s, 'd) env \<Rightarrow> ('s \<Rightarrow> bool) \<Rightarrow> ('s \<Rightarrow> string \<rightharpoonup> string) \<Rightarrow> bool" where
  "gets_serve E bok objs \<longleftrightarrow>
     (\<forall>s k d. bok s \<longrightarrow> objs s k = Some d \<longrightarrow> (\<exists>s'. bl_Get (env_B E) k s = (Inr d, s')))"

definition files_serve :: "('s, 'd) env \<Rightarrow> bool" where
  "files_serve E \<longleftrightarrow> (\<forall>p. os_open (env_os E) p = None) \<and> (\<forall>p x. fst (os_write (env_os E) p x) = None)"

definition cache_sync :: "('s \<Rightarrow> string \<rightharpoonup> string) \<Rightarrow> segment_meta list \<Rightarrow> ('s, 'd) store \<Rightarrow> bool" where
  "cache_sync objs metas st \<longleftrightarrow> cache_ok (st_cache st) \<and>
     (\<forall>x \<in> set metas. \<forall>b. st_fs st (pathFor (st_cache st) (sm_ID x)) = Some b \<longrightarrow>
        objs (st_blobs st) (sm_S3Key x) = Some b)"

definition bodies_ok :: "('s, 'd) env \<Rightarrow> (string \<rightharpoonup> string) \<Rightarrow> int \<Rightarrow> segment_meta list \<Rightarrow> bool" where
  "bodies_ok E Ob cap metas \<longleftrightarrow>
     (\<forall>x \<in> set metas. \<exists>b. Ob (sm_S3Key x) = Some b \<and> segment_body (env_C E) x b \<and> int (length b) \<le> cap)"

definition ready ::
  "('s, 'd) env \<Rightarrow> ('s \<Rightarrow> bool) \<Rightarrow> ('s \<Rightarrow> string \<rightharpoonup> string) \<Rightarrow> ('d \<Rightarrow> bool) \<Rightarrow> (segment_meta \<Rightarrow> bool) \<Rightarrow>
    ('d \<Rightarrow> segment_meta list) \<Rightarrow> ('s, 'd) store \<Rightarrow> bool" where
  "ready E bok objs cok good entries st \<longleftrightarrow>
     store_inv E bok objs cok good entries st \<and> gets_serve E bok objs \<and> files_serve E \<and>
     cache_sync objs (entries (st_cat st)) st \<and>
     bodies_ok E (objs (st_blobs st)) (dc_maxByte (st_cache st)) (entries (st_cat st))"

lemma touch_max [simp]: "dc_maxByte (snd (touch k c)) = dc_maxByte c"
  by (simp add: touch_def split: option.split)

lemma admit_max [simp]: "cache_ok c \<Longrightarrow> 0 \<le> sz \<Longrightarrow> dc_maxByte (fst (admit k sz c F)) = dc_maxByte c"
  using evictLocked_spec [OF addLocked_ok, of c sz k F] by (auto simp: admit_def)

lemma cache_sync_touch: "cache_sync objs ms st \<Longrightarrow> cache_sync objs ms (st\<lparr>st_cache := snd (touch k (st_cache st))\<rparr>)"
  by (simp add: cache_sync_def touch_ok pathFor_def)

text \<open>Writing the body of a segment to its cache path and admitting it.\<close>

lemma cache_sync_admit:
  assumes sync: "cache_sync objs ms st" and c: "c = st_cache st"
    and ids: "\<And>x. x \<in> set ms \<Longrightarrow> sm_ID x = k \<Longrightarrow> objs s1 (sm_S3Key x) = Some d"
    and same: "objs s1 = objs (st_blobs st)"
    and F: "F = st_fs st" and adm: "admit k (int (length d)) c (F(pathFor c k \<mapsto> d)) = (c1, F1)"
  shows "cache_sync objs ms (st\<lparr>st_blobs := s1, st_cache := c1, st_fs := F1\<rparr>)"
proof -
  let ?F = "F(pathFor c k \<mapsto> d)"
  have ok: "cache_ok c" using sync c by (simp add: cache_sync_def)
  have c1: "c1 = fst (admit k (int (length d)) c ?F)" and F1: "F1 = snd (admit k (int (length d)) c ?F)"
    using adm by simp_all
  have dir: "pathFor c1 i = pathFor c i" for i unfolding c1 using ok by (intro pathFor_cong) simp
  have "objs s1 (sm_S3Key x) = Some b" if x: "x \<in> set ms" and b: "F1 (pathFor c1 (sm_ID x)) = Some b" for x b
  proof -
    from b have "?F (pathFor c (sm_ID x)) = Some b"
      using admit_removes [OF ok, of "int (length d)" k ?F] unfolding dir F1 by simp
    then show ?thesis
      using ids [OF x] sync x same c F by (cases "sm_ID x = k") (auto simp: pathFor_inj cache_sync_def)
  qed
  moreover have "cache_ok c1" unfolding c1 using ok by (simp add: admit_ok)
  ultimately show ?thesis by (simp add: cache_sync_def)
qed

context durable_store
begin

abbreviation rdy :: "('s, 'd) store \<Rightarrow> bool" where
  "rdy \<equiv> ready E bok objs cok good entries"

text \<open>Ids determine the object keys of the cataloged segments.\<close>

lemma entry_key:
  assumes "inv st" and "x \<in> set (entries (st_cat st))" and "y \<in> set (entries (st_cat st))" and "sm_ID x = sm_ID y"
  shows "sm_S3Key x = sm_S3Key y"
proof -
  from assms have "no_path x = no_path y"
    using objects_okD(2) [of E cok good entries "Obj st" x y] by (auto simp: store_inv_def)
  then show ?thesis by (metis no_path_simps(4))
qed

lemma ensureLocal_ready:
  assumes rdy: "rdy st" and m: "m \<in> set (entries (st_cat st))"
  shows "\<exists>p st1. ensureLocal E m st = (Inr p, st1) \<and> rdy st1 \<and> st_cat st1 = st_cat st \<and> Obj st1 = Obj st \<and>
    st_fs st1 p = Obj st (sm_S3Key m)"
proof -
  let ?c0 = "snd (touch (sm_ID m) (st_cache st))" let ?st = "st\<lparr>st_cache := ?c0\<rparr>"
  from rdy have inv: "inv st" and sync: "cache_sync objs (entries (st_cat st)) st"
    and bodies: "bodies_ok E (Obj st) (dc_maxByte (st_cache st)) (entries (st_cat st))"
    and serve: "gets_serve E bok objs" "files_serve E" by (simp_all add: ready_def)
  have sync0: "cache_sync objs (entries (st_cat st)) ?st" by (rule cache_sync_touch [OF sync])
  have ok0: "cache_ok ?c0" using sync0 by (simp add: cache_sync_def)
  have rdy0: "rdy ?st" using rdy sync0 by (simp add: ready_def store_inv_def)
  from bodies m obtain d where d: "Obj st (sm_S3Key m) = Some d" "int (length d) \<le> dc_maxByte (st_cache st)"
    by (auto simp: bodies_ok_def)
  show ?thesis
  proof (cases "\<exists>p b. fst (touch (sm_ID m) (st_cache st)) = Some p \<and> st_fs st p = Some b")
    case True
    then obtain p b where p: "fst (touch (sm_ID m) (st_cache st)) = Some p" "st_fs st p = Some b" by blast
    have "p = pathFor (st_cache st) (sm_ID m)" using sync p by (intro touch_path) (simp_all add: cache_sync_def)
    with sync m p have "Obj st (sm_S3Key m) = Some b" by (auto simp: cache_sync_def)
    moreover have "touch (sm_ID m) (st_cache st) = (Some p, ?c0)" using p(1) by (metis prod.collapse)
    then have "ensureLocal E m st = (Inr p, ?st)"
      using p(2) by (cases "touch (sm_ID m) (st_cache st)") (simp add: ensureLocal_def)
    ultimately show ?thesis using rdy0 p by (intro exI [of _ p] exI [of _ ?st]) simp
  next
    case False
    let ?p = "pathFor ?c0 (sm_ID m)"
    obtain s1 where g: "bl_Get (env_B E) (sm_S3Key m) (st_blobs st) = (Inr d, s1)"
      using serve(1) d inv unfolding gets_serve_def store_inv_def by blast
    with bl.get_ok inv have s1: "bok s1" "objs s1 = Obj st" by (auto simp: store_inv_def)
    obtain c1 F1 where a: "admit (sm_ID m) (int (length d)) ?c0 ((st_fs st)(?p \<mapsto> d)) = (c1, F1)"
      by (cases "admit (sm_ID m) (int (length d)) ?c0 ((st_fs st)(?p \<mapsto> d))")
    let ?st1 = "st\<lparr>st_blobs := s1, st_cache := c1, st_fs := F1\<rparr>"
    have "fst (os_write (env_os E) ?p d) = None" using serve(2) by (simp add: files_serve_def)
    then obtain left where w: "os_write (env_os E) ?p d = (None, left)" by (metis prod.collapse)
    obtain hit where t: "touch (sm_ID m) (st_cache st) = (hit, ?c0)" by (metis prod.collapse)
    then have "fst (touch (sm_ID m) (st_cache st)) = hit" by (metis fst_conv)
    with False have "\<not> (case hit of None \<Rightarrow> False | Some p \<Rightarrow> st_fs st p \<noteq> None)"
      by (cases hit) auto
    then have e: "ensureLocal E m st = (Inr ?p, ?st1)"
      using t g w a by (cases "touch (sm_ID m) (st_cache st)"; cases hit) (simp_all add: ensureLocal_def Let_def)
    have "cache_sync objs (entries (st_cat st)) (?st\<lparr>st_blobs := s1, st_cache := c1, st_fs := F1\<rparr>)"
    proof (rule cache_sync_admit [OF sync0 _ _ _ _ a])
      fix x assume "x \<in> set (entries (st_cat st))" "sm_ID x = sm_ID m"
      then show "objs s1 (sm_S3Key x) = Some d" using entry_key [OF inv _ m] d s1 by simp
    qed (simp_all add: s1)
    moreover have "dc_maxByte c1 = dc_maxByte (st_cache st)"
      using admit_max [OF ok0, of "int (length d)" "sm_ID m" "(st_fs st)(?p \<mapsto> d)"] a by simp
    ultimately have "rdy ?st1" using rdy s1 by (simp add: ready_def store_inv_def bodies_ok_def)
    moreover have "F1 ?p = Some d"
      using admit_keeps [OF ok0, of "int (length d)" "sm_ID m" "(st_fs st)(?p \<mapsto> d)"] a d by simp
    ultimately show ?thesis using e s1 d by (intro exI [of _ ?p] exI [of _ ?st1]) simp
  qed
qed

lemma Store_Reader_ready:
  assumes rdy: "rdy st" and m: "m \<in> set (entries (st_cat st))"
  shows "\<exists>rd st1. Store_Reader E m st = (Inr rd, st1) \<and> rdy st1 \<and> st_cat st1 = st_cat st \<and> Obj st1 = Obj st \<and>
    faithful m (reader_of (env_C E) rd) (store_content E objs st m)"
proof -
  from ensureLocal_ready [OF assms] obtain p st1 where e: "ensureLocal E m st = (Inr p, st1)" "rdy st1"
    "st_cat st1 = st_cat st" "Obj st1 = Obj st" "st_fs st1 p = Obj st (sm_S3Key m)" by blast
  from rdy m obtain d where d: "Obj st (sm_S3Key m) = Some d" "segment_body (env_C E) m d"
    by (auto simp: ready_def bodies_ok_def)
  then obtain rd where rd: "Open (env_C E) d (int (length d)) = Inr rd"
    "faithful m (reader_of (env_C E) rd) (seg_records (env_C E) d)" by (auto simp: segment_body_def)
  have "os_open (env_os E) p = None" using rdy by (simp add: ready_def files_serve_def)
  with e d rd have "Store_Reader E m st = (Inr rd, st1)" by (simp add: Store_Reader_def file_read_def)
  with e d rd show ?thesis by (simp add: store_content_def)
qed

end

text \<open>The steps of a successful seal.\<close>

lemma Store_Seal_InrE:
  assumes "Store_Seal E lp k meta st = (Inr m, st')"
  obtains body s1 sc s2 cp F1 d1 c1 F2 where "file_read E lp (st_fs st) = Inr body"
    and "bl_PutReader (env_B E) (sm_S3Key (keyed E k meta)) (Inr body) (st_blobs st) = (None, s1)"
    and "enc_sidecar (env_M E) (keyed E k meta) = Inr sc"
    and "bl_Put (env_B E) (sm_S3Key (keyed E k meta) @ metaSuffix) sc s1 = (None, s2)"
    and "move_to_cache E lp (pathFor (st_cache st) k) (st_fs st) = (cp, F1)"
    and "m = (keyed E k meta)\<lparr>sm_LocalPath := cp\<rparr>"
    and "cat_put (env_D E) (env_M E) m (st_cat st) = (None, d1)"
    and "admit k (sm_SizeBytes meta) (st_cache st) F1 = (c1, F2)"
    and "st' = \<lparr>st_blobs = s2, st_cat = d1, st_cache = c1, st_fs = F2\<rparr>"
  using assms
  by (auto simp: Store_Seal_def Let_def keyed_def split: sum.splits prod.splits option.splits)

text \<open>Where the file of a sealed segment goes.\<close>

lemma move_to_cache_files:
  assumes "move_to_cache E lp cp F = (p, F')" and "F lp = Some body" and "F cp = None \<or> lp = cp"
  shows "F' q = Some b \<Longrightarrow> (q = cp \<and> b = body) \<or> (q \<noteq> cp \<and> F q = Some b)"
  using assms by (auto simp: move_to_cache_def split: if_splits option.splits)

context durable_store
begin

text \<open>A query over a store that was ready before a seal finds it ready after it.\<close>

lemma Store_Seal_ready:
  assumes rdy: "rdy st" and k: "plain_id k" and fresh: "fresh_id E (Obj st) k"
    and good: "good (keyed E k meta)" and seal: "Store_Seal E lp k meta st = (Inr m, st')"
    and body: "st_fs st lp = Some body" "segment_body (env_C E) meta body" "int (length body) \<le> dc_maxByte (st_cache st)"
    and size: "0 \<le> sm_SizeBytes meta"
    and path: "st_fs st (pathFor (st_cache st) k) = None \<or> lp = pathFor (st_cache st) k"
  shows "rdy st'" and "Obj st' (sm_S3Key m) = Some body"
proof -
  from rdy have inv: "inv st" and sync: "cache_sync objs (entries (st_cat st)) st"
    and bodies: "bodies_ok E (Obj st) (dc_maxByte (st_cache st)) (entries (st_cat st))" by (simp_all add: ready_def)
  from Store_Seal_inv [OF inv k fresh good seal] have inv': "inv st'" and mk: "no_path m = no_path (keyed E k meta)"
    and ents: "set (entries (st_cat st')) = insert m (set (entries (st_cat st)))"
    and obj: "Obj st' (sm_S3Key m) = Some body" using body(1) by auto
  show "Obj st' (sm_S3Key m) = Some body" by (fact obj)
  from seal obtain b0 s1 sc s2 cp F1 d1 c1 F2 where
    b0: "bl_PutReader (env_B E) (sm_S3Key (keyed E k meta)) (Inr b0) (st_blobs st) = (None, s1)"
    and p: "bl_Put (env_B E) (sm_S3Key (keyed E k meta) @ metaSuffix) sc s1 = (None, s2)"
    and mv: "move_to_cache E lp (pathFor (st_cache st) k) (st_fs st) = (cp, F1)"
    and m: "m = (keyed E k meta)\<lparr>sm_LocalPath := cp\<rparr>"
    and adm: "admit k (sm_SizeBytes meta) (st_cache st) F1 = (c1, F2)"
    and st': "st' = \<lparr>st_blobs = s2, st_cat = d1, st_cache = c1, st_fs = F2\<rparr>"
    by (rule Store_Seal_InrE)
  have bok: "bok (st_blobs st)" "bok s1" using inv bl.putr_None [OF _ b0] by (simp_all add: store_inv_def)
  have other: "Obj st' (sm_S3Key x) = Obj st (sm_S3Key x)" if x: "x \<in> set (entries (st_cat st))" for x
  proof -
    note kk = keyed_key [OF k, of E meta]
    have sx: "sealed_in E (Obj st) x" using inv x by (simp add: store_inv_def)
    with fresh have ne: "idFromSegKey (sm_S3Key (keyed E k meta)) \<noteq> sm_ID x" by (simp add: fresh_id_def kk(1)) blast
    from kk(3) obtain j where j: "sm_S3Key (keyed E k meta) = j @ ''.seg''" by blast
    from sealed_in_ids [OF sx j ne] show ?thesis
      using bl.put_other [OF bok(2) p] bl.putr_other [OF bok(1) b0] by (metis st' store.select_convs(1))
  qed
  have ok: "cache_ok (st_cache st)" using sync by (simp add: cache_sync_def)
  have c1: "c1 = fst (admit k (sm_SizeBytes meta) (st_cache st) F1)"
    and F2: "F2 = snd (admit k (sm_SizeBytes meta) (st_cache st) F1)" using adm by simp_all
  have dir: "pathFor c1 i = pathFor (st_cache st) i" for i unfolding c1 using ok size by (intro pathFor_cong) simp
  have id: "sm_ID m = k" using m by (simp add: keyed_def)
  have "Obj st' (sm_S3Key x) = Some b"
    if x: "x \<in> set (entries (st_cat st'))" and b: "F2 (pathFor c1 (sm_ID x)) = Some b" for x b
  proof -
    from b have "F1 (pathFor (st_cache st) (sm_ID x)) = Some b"
      using admit_removes [OF ok size] unfolding dir F2 by simp
    from move_to_cache_files [OF mv body(1) path this]
    have "sm_ID x = k \<and> b = body \<or> sm_ID x \<noteq> k \<and> st_fs st (pathFor (st_cache st) (sm_ID x)) = Some b"
      by (simp add: pathFor_inj)
    then show ?thesis
    proof
      assume "sm_ID x = k \<and> b = body"
      moreover have "m \<in> set (entries (st_cat st'))" using ents by simp
      ultimately show ?thesis using entry_key [OF inv' x, of m] id obj by simp
    next
      assume old: "sm_ID x \<noteq> k \<and> st_fs st (pathFor (st_cache st) (sm_ID x)) = Some b"
      with x ents id have "x \<in> set (entries (st_cat st))" by auto
      with old sync other show ?thesis by (auto simp: cache_sync_def)
    qed
  qed
  then have sync': "cache_sync objs (entries (st_cat st')) st'"
    using ok size by (simp add: cache_sync_def st' c1 admit_ok)
  have mx: "dc_maxByte (st_cache st') = dc_maxByte (st_cache st)" using ok size by (simp add: st' c1)
  have "segment_body (env_C E) m body"
    using body(2) segment_body_cong [of m meta] by (simp add: m keyed_def summarises_def)
  with body(3) obj bodies other have "bodies_ok E (Obj st') (dc_maxByte (st_cache st')) (entries (st_cat st'))"
    unfolding bodies_ok_def mx ents by auto
  with inv' sync' rdy show "rdy st'" by (simp add: ready_def)
qed

end

sublocale durable_store \<subseteq> src: segment_source "store_source E" "ready E bok objs cok good entries"
    "\<lambda>st. entries (st_cat st)" "store_content E objs"
proof
  fix st start stop
  assume "ready E bok objs cok good entries st"
  then show "ss_Overlapping (store_source E) start stop st
      = Inr (filter (\<lambda>m. segment_overlaps m start stop) (entries (st_cat st)))"
    using ct.overlapping_entries by (simp add: store_source_def Store_Overlapping_def ready_def store_inv_def)
next
  fix st m
  assume "ready E bok objs cok good entries st" and "m \<in> set (entries (st_cat st))"
  from Store_Reader_ready [OF this] obtain rd st1 where "Store_Reader E m st = (Inr rd, st1)" "rdy st1"
    "st_cat st1 = st_cat st" "Obj st1 = Obj st" "faithful m (reader_of (env_C E) rd) (store_content E objs st m)" by blast
  then show "\<exists>rd st'. ss_Reader (store_source E) m st = (Inr rd, st') \<and> ready E bok objs cok good entries st' \<and>
      entries (st_cat st') = entries (st_cat st) \<and> store_content E objs st' = store_content E objs st \<and>
      faithful m rd (store_content E objs st m)"
    by (intro exI [of _ "reader_of (env_C E) rd"] exI [of _ st1]) (auto simp: store_source_def store_content_def)
qed

end
