(* ===== verification/StoreSamples.thy ===== *)
theory StoreSamples
  imports StoreQuery
begin

text \<open>
  Small instances of the parameters of the store, which show that the hypotheses on them can
  hold: an S3 client over an association list, a database over a sorted scan of one, a metadata
  codec for a single segment, and a file system without errors.
\<close>


section \<open>An S3 client\<close>

text \<open>The state is the bucket and the data staged by uploads; a handle is its key.\<close>

definition sample_s3 :: "(mem \<times> mem, string) s3_client" where
  "sample_s3 = \<lparr>
     s3_Get = (\<lambda>k (b, u). case map_of b k of
        None \<Rightarrow> (Inl ''NoSuchKey'', (b, u)) | Some d \<Rightarrow> (Inr (Inr d), (b, u))),
     s3_NewUpload = (\<lambda>k c. (Inr k, c)),
     s3_Stream = (\<lambda>k x n (b, u). case x of
        Inl e \<Rightarrow> (Some ''read error'', (b, u)) | Inr d \<Rightarrow> (None, (b, AList.update k d u))),
     s3_Done = (\<lambda>k (b, u). case map_of u k of
        None \<Rightarrow> (Some ''no upload'', (b, u)) | Some d \<Rightarrow> (None, (AList.update k d b, u))),
     s3_List = (\<lambda>(b, u). (Inr (map fst b), (b, u))),
     s3_Delete = (\<lambda>k (b, u). (None, (AList.delete k b, u)))\<rparr>"

abbreviation sample_bucket :: "mem \<times> mem \<Rightarrow> string \<rightharpoonup> string" where
  "sample_bucket c \<equiv> map_of (fst c)"

abbreviation sample_staged :: "mem \<times> mem \<Rightarrow> string \<Rightarrow> string option" where
  "sample_staged c \<equiv> map_of (snd c)"

lemma sample_s3_ok: "s3_ok sample_s3 sample_bucket (\<lambda>k. k) sample_staged"
proof -
  have "s3_get_ok sample_s3 sample_bucket"
    by (auto simp: s3_get_ok_def sample_s3_def split: option.splits)
  moreover have "s3_list_ok sample_s3 sample_bucket"
    by (auto simp: s3_list_ok_def sample_s3_def dom_map_of_conv_image_fst)
  moreover have "s3_upload_ok sample_s3 sample_bucket (\<lambda>k. k) sample_staged"
    by (auto simp: s3_upload_ok_def sample_s3_def update_conv' split: option.splits sum.splits)
  ultimately show ?thesis by (simp add: s3_ok_def)
qed

lemma sample_s3_serves:
  "gets_serve (E\<lparr>env_B := S3Blobs sample_s3\<rparr>) (\<lambda>c. s3_ok sample_s3 sample_bucket (\<lambda>k. k) sample_staged) sample_bucket"
  by (auto simp: gets_serve_def S3Blobs_def S3_Get_def sample_s3_def)


section \<open>A database\<close>

definition sample_scan :: "mem \<Rightarrow> (string \<times> string) list" where
  "sample_scan d = map (\<lambda>k. (k, the (map_of d k))) (sort_strings (remdups (map fst d)))"

definition sample_bolt :: "mem bolt" where
  "sample_bolt = \<lparr>db_put = (\<lambda>k v d. (None, AList.update k v d)), db_delete = (\<lambda>k d. (None, AList.delete k d)),
     db_scan = sample_scan, db_dump = (\<lambda>d. Inl (OtherError ''unsupported'')),
     db_open = (\<lambda>f. case f of None \<Rightarrow> Inr [] | Some b \<Rightarrow> Inl (OtherError ''unsupported''))\<rparr>"

lemma sorted_insort_string:
  "sorted_wrt string_less xs \<Longrightarrow> k \<notin> set xs \<Longrightarrow> sorted_wrt string_less (insort_string k xs)"
proof (induction xs)
  case (Cons x xs)
  have set: "set (insort_string k xs) = insert k (set xs)" for xs by (induction xs) auto
  from Cons show ?case
    using string_less_linear [of k x] by (auto simp: set intro: string_less_trans)
qed simp

lemma sorted_sort_strings: "distinct xs \<Longrightarrow> sorted_wrt string_less (sort_strings xs)"
proof (induction xs)
  case (Cons x xs)
  have "set (foldr insort_string xs []) = set xs" using set_sort_strings [of xs] by (simp add: sort_strings_def)
  with Cons show ?case by (simp add: sort_strings_def sorted_insort_string)
qed (simp add: sort_strings_def)

lemma sample_scan_keys: "map fst (sample_scan d) = sort_strings (remdups (map fst d))"
  by (simp add: sample_scan_def comp_def)

lemma map_of_sample_scan: "map_of (sample_scan d) = map_of d"
proof
  fix k
  show "map_of (sample_scan d) k = map_of d k"
  proof (cases "k \<in> set (map fst d)")
    case True
    then obtain v where "map_of d k = Some v" by (metis list.set_map map_of_eq_None_iff option.exhaust)
    with True show ?thesis by (simp add: sample_scan_def map_of_map_restrict)
  next
    case False
    then have "map_of d k = None" "k \<notin> fst ` set (sample_scan d)"
      by (simp_all add: map_of_eq_None_iff sample_scan_def image_image)
    then show ?thesis using map_of_eq_None_iff [of "sample_scan d" k] by simp
  qed
qed

lemma sample_scan_Nil [simp]: "sample_scan [] = []"
  by (simp add: sample_scan_def sort_strings_def)

lemma sample_bolt_ok: "bolt_ok sample_bolt"
  by (auto simp: bolt_ok_def sample_bolt_def sample_scan_keys map_of_sample_scan sorted_sort_strings
      update_conv' delete_conv')


section \<open>A metadata codec\<close>

text \<open>It knows a single segment: an entry is its local path, the sidecar is empty.\<close>

definition sample_meta_codec :: "segment_meta \<Rightarrow> meta_codec" where
  "sample_meta_codec m = \<lparr>enc_entry = (\<lambda>x p. Inr p), dec_entry = (\<lambda>b. Inr (no_path m, b)),
     enc_sidecar = (\<lambda>x. Inr []), dec_sidecar = (\<lambda>b. Inr (no_path m))\<rparr>"

definition same_meta :: "segment_meta \<Rightarrow> segment_meta \<Rightarrow> bool" where
  "same_meta m x \<longleftrightarrow> no_path x = no_path m"

lemma sample_meta_codec_ok: "meta_codec_ok (sample_meta_codec m) (same_meta m)"
  by (simp add: meta_codec_ok_def sample_meta_codec_def same_meta_def)


section \<open>A store\<close>

definition sample_os :: os where
  "sample_os = \<lparr>os_mkdir = (\<lambda>p. None), os_open = (\<lambda>p. None), os_rename = (\<lambda>p q. None),
     os_write = (\<lambda>p x. (None, x))\<rparr>"

definition sample_env :: "segment_meta \<Rightarrow> (mem \<times> mem, mem) env" where
  "sample_env m = \<lparr>env_B = S3Blobs sample_s3, env_D = sample_bolt, env_M = sample_meta_codec m,
     env_C = sample_codec, env_os = sample_os, env_ManagerID = ''m'', env_BaseDir = ''/d'',
     env_CacheMaxByte = 0\<rparr>"

lemma sample_env_B [simp]: "(sample_env m)\<lparr>env_B := S3Blobs sample_s3\<rparr> = sample_env m"
  by (simp add: sample_env_def)

lemma sample_env_simps [simp]:
  "env_B (sample_env m) = S3Blobs sample_s3" "env_D (sample_env m) = sample_bolt"
  "env_M (sample_env m) = sample_meta_codec m" "env_C (sample_env m) = sample_codec"
  "env_os (sample_env m) = sample_os" "env_ManagerID (sample_env m) = ''m''"
  by (simp_all add: sample_env_def)

text \<open>The store of an empty directory, with a segment file ready to be sealed.\<close>

definition sample_lp :: string where
  "sample_lp = ''/w/A.tmp''"

definition sample_store :: "string \<Rightarrow> (mem \<times> mem, mem) store" where
  "sample_store body = \<lparr>st_blobs = ([], []), st_cat = [],
     st_cache = \<lparr>dc_dir = ''/d/cache'', dc_maxByte = 2147483648, dc_ll = [], dc_curByt = 0\<rparr>,
     st_fs = [sample_lp \<mapsto> body]\<rparr>"

lemma sample_store_sel [simp]:
  "st_fs (sample_store body) sample_lp = Some body" "st_blobs (sample_store body) = ([], [])"
  "st_cat (sample_store body) = []"
  by (simp_all add: sample_store_def)

text \<open>The metadata of the segment under the id \<open>A\<close>.\<close>

definition sample_keyed :: "segment_meta \<Rightarrow> segment_meta" where
  "sample_keyed meta = keyed (sample_env meta) ''A'' meta"

lemma keyed_sample [simp]: "keyed (sample_env m) ''A'' meta = sample_keyed meta"
  by (simp add: sample_keyed_def keyed_def segKeyFor_def segPrefix_def)

abbreviation sample_meta_good :: "segment_meta \<Rightarrow> segment_meta \<Rightarrow> bool" where
  "sample_meta_good meta \<equiv> same_meta (sample_keyed meta)"

lemma sample_cat_ok: "cat_ok sample_bolt (sample_meta_codec m) (same_meta m) []"
  by (simp add: cat_ok_def sample_bolt_ok sample_meta_codec_ok) (simp add: sample_bolt_def)

lemma sample_store_inv:
  "store_inv (sample_env (sample_keyed meta)) (\<lambda>c. s3_ok sample_s3 sample_bucket (\<lambda>k. k) sample_staged) sample_bucket
     (cat_ok sample_bolt (sample_meta_codec (sample_keyed meta)) (sample_meta_good meta)) (sample_meta_good meta)
     (cat_metas sample_bolt (sample_meta_codec (sample_keyed meta))) (sample_store body)"
proof -
  have "cat_metas sample_bolt (sample_meta_codec (sample_keyed meta)) [] = []"
    by (simp add: cat_metas_def sample_bolt_def)
  then show ?thesis
    by (simp add: store_inv_def sample_store_def sample_s3_ok sample_cat_ok objects_ok_def sealed_in_def)
qed

lemma sample_fresh: "fresh_id E (sample_bucket (st_blobs (sample_store body))) k"
  by (simp add: fresh_id_def sealed_in_def sample_store_def)

lemma sample_plain: "plain_id ''A''"
  by (simp add: plain_id_def)

text \<open>Sealing it succeeds.\<close>

lemma sample_seal:
  assumes "st_fs st lp = Some body"
  shows "\<exists>m st1. Store_Seal (sample_env (sample_keyed meta)) lp ''A'' meta st = (Inr m, st1)"
  using assms by (cases "st_blobs st") (simp add: Store_Seal_def Let_def file_read_def sample_os_def sample_store_def sample_lp_def S3Blobs_def
      S3_Put_def S3_PutReader_def sample_s3_def sample_meta_codec_def cat_put_def sample_bolt_def
      update_conv' split: prod.split)

text \<open>
  The bucket after it: the body and the sidecar.  A store opened over them recovers.
\<close>

lemma sample_seal_bucket:
  assumes "Store_Seal (sample_env (sample_keyed meta)) lp ''A'' meta st = (Inr m, st1)"
    and "st_blobs st = ([], [])" and "st_fs st lp = Some body"
  shows "fst (st_blobs st1) = [(sm_S3Key (sample_keyed meta), body), (sm_S3Key (sample_keyed meta) @ metaSuffix, [])]"
proof -
  have k: "sm_S3Key (sample_keyed meta) = segKeyFor (sample_env (sample_keyed meta)) (meta\<lparr>sm_ID := ''A''\<rparr>)"
    by (simp add: sample_keyed_def keyed_def segKeyFor_def segPrefix_def)
  show ?thesis using assms unfolding k
    by (simp add: Store_Seal_def Let_def file_read_def sample_os_def sample_store_def sample_lp_def S3Blobs_def
      S3_Put_def S3_PutReader_def sample_s3_def sample_meta_codec_def cat_put_def sample_bolt_def metaSuffix_def
      update_conv' split: prod.splits) auto
qed

lemma has_suffix_iff: "has_suffix k s \<longleftrightarrow> (\<exists>x. k = x @ s)"
proof
  assume "has_suffix k s"
  then have "k = take (length k - length s) k @ s"
    using append_take_drop_id [of "length k - length s" k] by (simp add: has_suffix_def)
  then show "\<exists>x. k = x @ s" ..
qed (auto simp: has_suffix_def)

lemma sample_key:
  "has_prefix (sm_S3Key (sample_keyed meta)) (segPrefix (sample_env m))"
  "\<not> has_prefix (sm_S3Key (sample_keyed meta)) (snapPrefix (sample_env m))"
  "\<not> has_suffix (sm_S3Key (sample_keyed meta)) metaSuffix"
  "idFromSegKey (sm_S3Key (sample_keyed meta)) = ''A''"
proof -
  have p: "segPrefix (sample_env m) = segPrefix (sample_env meta)" "snapPrefix (sample_env m) = snapPrefix (sample_env meta)"
    by (simp_all add: segPrefix_def snapPrefix_def)
  note kk = keyed_key [OF sample_plain, of "sample_env meta" meta, folded sample_keyed_def]
  show "has_prefix (sm_S3Key (sample_keyed meta)) (segPrefix (sample_env m))" and "idFromSegKey (sm_S3Key (sample_keyed meta)) = ''A''"
    using kk(1,2) p by simp_all
  show "\<not> has_prefix (sm_S3Key (sample_keyed meta)) (snapPrefix (sample_env m))"
    using kk(2) prefixes_differ p by metis
  from kk(3) obtain j where "sm_S3Key (sample_keyed meta) = j @ ''.seg''" by blast
  then show "\<not> has_suffix (sm_S3Key (sample_keyed meta)) metaSuffix"
    using seg_not_meta [of j] by (auto simp: has_suffix_iff)
qed

lemma sample_recover:
  assumes "fst (st_blobs st) = [(sm_S3Key (sample_keyed meta), body), (sm_S3Key (sample_keyed meta) @ metaSuffix, [])]"
    and "st_cat st = []"
  shows "fst (Recover (sample_env (sample_keyed meta)) tmp st) = None" and "Recover_skips (sample_env (sample_keyed meta)) tmp st = []"
proof -
  obtain b u where bu: "st_blobs st = (b, u)" by (cases "st_blobs st")
  note key = sample_key [of meta]
  have meta: "\<not> has_prefix (sm_S3Key (sample_keyed meta) @ metaSuffix) (snapPrefix (sample_env m))" for m
    using prefixes_differ [OF has_prefix_meta [OF key(1)]] .
  have "has_suffix (k @ metaSuffix) metaSuffix" for k by (simp add: has_suffix_def)
  with assms key meta show "fst (Recover (sample_env (sample_keyed meta)) tmp st) = None"
    and "Recover_skips (sample_env (sample_keyed meta)) tmp st = []"
    by (simp_all add: bu Recover_def Recover_skips_def loadLatestSnapshot_def S3Blobs_def S3_List_def S3_Get_def sample_s3_def
        has_prefix_meta trim_suffix_append cat_has_def sample_bolt_def sample_meta_codec_def cat_put_def Let_def)
qed

lemma sample_reopen:
  "\<exists>st. Store_Open (sample_env m) s None F = Inr st \<and> st_blobs st = s \<and> st_cat st = []"
  by (simp add: Store_Open_def openCatalog_def sample_bolt_def sample_os_def newDiskCache_def)

end
