(* ===== verification/Checkpoint.thy ===== *)
theory Checkpoint
  imports Catalog StoreSamples
begin

text \<open>
  \<open>internal/tailer/checkpoint.go\<close>: the committed offset of each source in a bbolt bucket on the
  node, as eight big-endian bytes.
\<close>


section \<open>Operations\<close>

definition OpenCheckpoint :: "'d bolt \<Rightarrow> string option \<Rightarrow> go_error + 'd" where
  "OpenCheckpoint D f = db_open D f"

definition Checkpoint_Get :: "'d bolt \<Rightarrow> string \<Rightarrow> 'd \<Rightarrow> int" where
  "Checkpoint_Get D key d =
     (case map_of (db_scan D d) key of
        None \<Rightarrow> 0
      | Some v \<Rightarrow> if length v = 8 then get_int64 v else 0)"

definition Advance :: "'d bolt \<Rightarrow> string \<Rightarrow> int \<Rightarrow> 'd \<Rightarrow> go_error option \<times> 'd" where
  "Advance D key offset d =
     (case map_of (db_scan D d) key of
        None \<Rightarrow> db_put D key (put_int64 offset) d
      | Some v \<Rightarrow>
          if length v = 8 \<and> get_int64 v \<ge> offset then (None, d)
          else db_put D key (put_int64 offset) d)"


section \<open>The watermark of a source\<close>

lemma Checkpoint_Get_put:
  assumes "bolt_ok D" and "db_put D key (put_int64 off) d = (res, d')" and "in_int64 off"
  shows "Checkpoint_Get D k d' = (if res = None \<and> k = key then off else Checkpoint_Get D k d)"
proof -
  from assms have "map_of (db_scan D d') = (if res = None then (map_of (db_scan D d))(key \<mapsto> put_int64 off) else map_of (db_scan D d))"
    unfolding bolt_ok_def by blast
  with assms(3) show ?thesis by (simp add: Checkpoint_Get_def get_put_int64)
qed

lemma Advance_spec:
  assumes "bolt_ok D" and "Advance D key off d = (res, d')" and "in_int64 off" and "0 \<le> off"
  shows "Checkpoint_Get D k d' = (if res = None \<and> k = key then max (Checkpoint_Get D k d) off else Checkpoint_Get D k d)"
proof (cases "\<exists>v. map_of (db_scan D d) key = Some v \<and> length v = 8 \<and> get_int64 v \<ge> off")
  case True
  with assms(2) show ?thesis by (auto simp: Advance_def Checkpoint_Get_def)
next
  case False
  then have "Advance D key off d = db_put D key (put_int64 off) d" by (auto simp: Advance_def split: option.split)
  moreover have "Checkpoint_Get D key d \<le> off" using False assms(4) by (auto simp: Checkpoint_Get_def split: option.split)
  moreover from calculation(1) assms(2) have "db_put D key (put_int64 off) d = (res, d')" by simp
  from Checkpoint_Get_put [OF assms(1) this assms(3)]
  have "Checkpoint_Get D k d' = (if res = None \<and> k = key then off else Checkpoint_Get D k d)" .
  ultimately show ?thesis by (simp add: max_def)
qed

definition advance_all :: "'d bolt \<Rightarrow> (string \<times> int) list \<Rightarrow> 'd \<Rightarrow> 'd" where
  "advance_all D = fold (\<lambda>(k, off) d. snd (Advance D k off d))"

lemma advance_all_bounds:
  assumes "bolt_ok D" and "\<forall>c \<in> set calls. in_int64 (snd c) \<and> 0 \<le> snd c"
  shows "Checkpoint_Get D k (advance_all D calls d) \<in> insert (Checkpoint_Get D k d) {off. (k, off) \<in> set calls} \<and>
    Checkpoint_Get D k d \<le> Checkpoint_Get D k (advance_all D calls d)"
  using assms(2)
proof (induction calls arbitrary: d)
  case (Cons c calls)
  obtain key off where c: "c = (key, off)" by (cases c)
  obtain res d' where a: "Advance D key off d = (res, d')" by (cases "Advance D key off d")
  have "Checkpoint_Get D k d' = (if res = None \<and> k = key then max (Checkpoint_Get D k d) off else Checkpoint_Get D k d)"
    using Advance_spec [OF assms(1) a] Cons.prems c by simp
  moreover have "Checkpoint_Get D k (advance_all D calls d') \<in> insert (Checkpoint_Get D k d') {off. (k, off) \<in> set calls} \<and>
      Checkpoint_Get D k d' \<le> Checkpoint_Get D k (advance_all D calls d')"
    using Cons.prems by (intro Cons.IH) simp
  ultimately show ?case using a c by (auto simp: advance_all_def max_def split: if_splits)
qed (simp add: advance_all_def)

lemma advance_all_reaches:
  assumes "bolt_ok D" and "\<forall>c \<in> set calls. in_int64 (snd c) \<and> 0 \<le> snd c"
    and puts: "\<And>k v d. fst (db_put D k v d) = None" and "(k, off) \<in> set calls"
  shows "off \<le> Checkpoint_Get D k (advance_all D calls d)"
  using assms(2,4)
proof (induction calls arbitrary: d)
  case (Cons c calls)
  obtain key o' where c: "c = (key, o')" by (cases c)
  obtain res d' where a: "Advance D key o' d = (res, d')" by (cases "Advance D key o' d")
  have "res = None" using a puts [of key "put_int64 o'" d] by (auto simp: Advance_def split: option.splits if_splits)
  then have g: "Checkpoint_Get D key d' = max (Checkpoint_Get D key d) o'"
    using Advance_spec [OF assms(1) a] Cons.prems c by simp
  have step: "advance_all D (c # calls) d = advance_all D calls d'" using a c by (simp add: advance_all_def)
  show ?case
  proof (cases "(k, off) = c")
    case True
    with g c advance_all_bounds [OF assms(1), of calls k d'] Cons.prems(1) show ?thesis
      unfolding step by (simp add: max_def split: if_splits)
  next
    case False
    then show ?thesis unfolding step using Cons by simp
  qed
qed simp


section \<open>Properties\<close>

text \<open>
  C32: the checkpoint only moves forward.  After any sequence of commits, in any order and with
  database errors in between, the offset of a source is the one it had or one that was committed
  for it, and not below the former; without errors it is the greatest of them.
\<close>

theorem checkpoint_is_maximum:
  assumes "bolt_ok D" and "list_all (\<lambda>(k, off). 0 \<le> off \<and> off < 2 ^ 63) calls"
  shows "Checkpoint_Get D k d \<le> Checkpoint_Get D k (advance_all D calls d) \<and>
    Checkpoint_Get D k (advance_all D calls d) \<in> insert (Checkpoint_Get D k d) {off. (k, off) \<in> set calls} \<and>
    ((\<forall>k v d. fst (db_put D k v d) = None) \<longrightarrow>
      Checkpoint_Get D k (advance_all D calls d) = Max (insert (Checkpoint_Get D k d) {off. (k, off) \<in> set calls}))"
proof -
  have ok: "\<forall>c \<in> set calls. in_int64 (snd c) \<and> 0 \<le> snd c"
    using assms(2) by (auto simp: list_all_iff in_int64_def)
  have fin: "finite {off. (k, off) \<in> set calls}"
    by (rule finite_subset [of _ "snd ` set calls"]) force+
  note b = advance_all_bounds [OF assms(1) ok, of k d]
  have "Checkpoint_Get D k (advance_all D calls d) = Max (insert (Checkpoint_Get D k d) {off. (k, off) \<in> set calls})"
    if "\<forall>k v d. fst (db_put D k v d) = None"
  proof (rule Max_eqI [symmetric])
    fix y assume "y \<in> insert (Checkpoint_Get D k d) {off. (k, off) \<in> set calls}"
    then show "y \<le> Checkpoint_Get D k (advance_all D calls d)"
      using b that advance_all_reaches [OF assms(1) ok, of k y d] by auto
  qed (use b fin in auto)
  with b show ?thesis by blast
qed

theorem checkpoint_is_maximum_witness:
  "Checkpoint_Get sample_bolt ''k'' (advance_all sample_bolt [(''k'', 30), (''j'', 50), (''k'', 20)] [])
    \<in> insert (Checkpoint_Get sample_bolt ''k'' []) {off. off = 30 \<or> off = 20}"
  using checkpoint_is_maximum [OF sample_bolt_ok, of "[(''k'', 30), (''j'', 50), (''k'', 20)]" "''k''" "[]"]
  by simp

end
