(* ===== verification/Enrich.thy ===== *)
theory Enrich
  imports LogModel
begin

text \<open>
  \<open>internal/enrich/enrich.go\<close>: the cache of pod metadata that the informer feeds, and what it adds
  to a record.  The informer of client-go is its list of events.  The locale \<open>record_enricher\<close>
  is what the pipeline relies on: enrichment leaves alone what identifies and orders a record.
\<close>


section \<open>State\<close>

record podMeta =
  pm_labels :: "(string \<times> string) list"
  pm_annotations :: "(string \<times> string) list"
  pm_node :: string
  pm_images :: "string \<rightharpoonup> string"

record Enricher =
  er_byUID :: "string \<rightharpoonup> podMeta"
  er_excludeAnno :: string

text \<open>The fields of a \<open>corev1.Pod\<close> that are read; an object of another type is \<open>None\<close>.\<close>

record pod =
  po_UID :: string
  po_Labels :: "(string \<times> string) list"
  po_Annotations :: "(string \<times> string) list"
  po_NodeName :: string
  po_Containers :: "(string \<times> string) list"
  po_ContainerStatuses :: "(string \<times> string) list"


section \<open>Operations\<close>

definition Enricher_New :: "string \<Rightarrow> Enricher" where
  "Enricher_New excludeAnno = \<lparr>er_byUID = Map.empty, er_excludeAnno = excludeAnno\<rparr>"

definition Ready :: "string \<Rightarrow> Enricher \<Rightarrow> bool" where
  "Ready uid e \<longleftrightarrow> er_byUID e uid \<noteq> None"

definition ShouldIngest :: "string \<Rightarrow> Enricher \<Rightarrow> bool" where
  "ShouldIngest uid e =
     (if er_excludeAnno e = [] then True
      else
        (case er_byUID e uid of
           None \<Rightarrow> True
         | Some m \<Rightarrow> map_of (pm_annotations m) (er_excludeAnno e) \<noteq> Some ''false''))"

definition images_of :: "pod \<Rightarrow> (string \<rightharpoonup> string)" where
  "images_of p =
     fold (\<lambda>(n, img) m. if img \<noteq> [] then m(n \<mapsto> img) else m) (po_ContainerStatuses p)
       (fold (\<lambda>(n, img) m. m(n \<mapsto> img)) (po_Containers p) Map.empty)"

definition upsert :: "pod option \<Rightarrow> Enricher \<Rightarrow> Enricher" where
  "upsert obj e =
     (case obj of
        None \<Rightarrow> e
      | Some p \<Rightarrow> e\<lparr>er_byUID := (er_byUID e)(po_UID p \<mapsto> \<lparr>pm_labels = po_Labels p,
          pm_annotations = po_Annotations p, pm_node = po_NodeName p, pm_images = images_of p\<rparr>)\<rparr>)"

definition remove_pod :: "pod option \<Rightarrow> Enricher \<Rightarrow> Enricher" where
  "remove_pod obj e = (case obj of None \<Rightarrow> e | Some p \<Rightarrow> e\<lparr>er_byUID := (er_byUID e)(po_UID p := None)\<rparr>)"

text \<open>
  What the informer delivers, and \<open>New\<close>: the events up to the synchronisation of the informer's
  cache, unless registering the handlers or that synchronisation fails.
\<close>

datatype informer_event = AddFunc "pod option" | UpdateFunc "pod option" | DeleteFunc "pod option"

fun on_event :: "informer_event \<Rightarrow> Enricher \<Rightarrow> Enricher" where
  "on_event (AddFunc obj) e = upsert obj e"
| "on_event (UpdateFunc obj) e = upsert obj e"
| "on_event (DeleteFunc obj) e = remove_pod obj e"

definition New_Enricher :: "string \<Rightarrow> go_error option \<Rightarrow> informer_event list \<Rightarrow> go_error option \<Rightarrow> go_error + Enricher" where
  "New_Enricher excludeAnno handlers evs sync =
     (case handlers of
        Some err \<Rightarrow> Inl err
      | None \<Rightarrow> (case sync of Some err \<Rightarrow> Inl err | None \<Rightarrow> Inr (fold on_event evs (Enricher_New excludeAnno))))"

definition Enrich :: "Enricher \<Rightarrow> log_record \<Rightarrow> string \<Rightarrow> log_record" where
  "Enrich e rec uid =
     (case er_byUID e uid of
        None \<Rightarrow> rec
      | Some m \<Rightarrow>
          (let r1 = (if pm_labels m \<noteq> [] then rec\<lparr>rec_Labels := pm_labels m\<rparr> else rec);
               r2 = (if pm_annotations m \<noteq> [] then r1\<lparr>rec_Annotations := pm_annotations m\<rparr> else r1);
               r3 = (if pm_node m \<noteq> [] then r2\<lparr>rec_Node := pm_node m\<rparr> else r2) in
           case pm_images m (rec_Container r3) of
             None \<Rightarrow> r3
           | Some img \<Rightarrow> if img \<noteq> [] then r3\<lparr>rec_Image := img\<rparr> else r3))"


section \<open>The cache\<close>

text \<open>
  The cache knows the pods whose last event is not a deletion, with the metadata of that event.  An
  object of another type changes nothing: the tombstone of a deletion that the informer missed
  leaves the pod in the cache.
\<close>

definition pod_meta :: "pod \<Rightarrow> podMeta" where
  "pod_meta p = \<lparr>pm_labels = po_Labels p, pm_annotations = po_Annotations p, pm_node = po_NodeName p, pm_images = images_of p\<rparr>"

fun event_of :: "string \<Rightarrow> informer_event \<Rightarrow> podMeta option option" where
  "event_of uid (AddFunc (Some p)) = (if po_UID p = uid then Some (Some (pod_meta p)) else None)"
| "event_of uid (UpdateFunc (Some p)) = (if po_UID p = uid then Some (Some (pod_meta p)) else None)"
| "event_of uid (DeleteFunc (Some p)) = (if po_UID p = uid then Some None else None)"
| "event_of uid ev = None"

lemma on_event_cache: "er_byUID (on_event ev e) uid = (case event_of uid ev of None \<Rightarrow> er_byUID e uid | Some m \<Rightarrow> m)"
  by (cases "(uid, ev)" rule: event_of.cases) (simp_all add: upsert_def remove_pod_def pod_meta_def)

lemma enricher_tracks_last_event:
  "er_byUID (fold on_event evs e) uid =
    (case List.map_filter (event_of uid) (rev evs) of [] \<Rightarrow> er_byUID e uid | m # ms \<Rightarrow> m)"
proof (induction evs rule: rev_induct)
  case (snoc ev evs)
  then show ?case by (cases "event_of uid ev") (simp_all add: on_event_cache List.map_filter_simps)
qed (simp add: List.map_filter_simps)


section \<open>What the pipeline relies on\<close>

definition same_line :: "log_record \<Rightarrow> log_record \<Rightarrow> bool" where
  "same_line a b \<longleftrightarrow> rec_Source a = rec_Source b \<and> rec_Offset a = rec_Offset b \<and> rec_Timestamp a = rec_Timestamp b \<and>
     rec_Stream a = rec_Stream b \<and> rec_Message a = rec_Message b \<and> rec_Body a = rec_Body b \<and>
     rec_Namespace a = rec_Namespace b \<and> rec_Pod a = rec_Pod b \<and> rec_Container a = rec_Container b"

text \<open>
  \<open>enr\<close> is \<open>Enricher.Enrich\<close> at the times it is called: the metadata may change between two
  records.
\<close>

locale record_enricher =
  fixes enr :: "'e \<Rightarrow> log_record \<Rightarrow> string \<Rightarrow> log_record"
  assumes enr_line: "same_line (enr e r uid) r"
begin

lemma enr_key: "rec_key (enr e r uid) = rec_key r" and enr_offset: "rec_Offset (enr e r uid) = rec_Offset r"
  using enr_line [of e r uid] by (simp_all add: same_line_def)

lemma enriched_order:
  assumes "sorted_wrt (\<lambda>a b. rec_key a = rec_key b \<longrightarrow> rec_Offset a < rec_Offset b) rs" and "length es = length rs"
  shows "sorted_wrt (\<lambda>a b. rec_key a = rec_key b \<longrightarrow> rec_Offset a < rec_Offset b) (map2 (\<lambda>e r. enr e r uid) es rs)"
  using assms
proof (induction rs arbitrary: es)
  case (Cons r rs)
  then obtain e es' where es: "es = e # es'" "length es' = length rs" by (cases es) auto
  have "\<exists>a e'. q = enr e' a uid \<and> a \<in> set rs" if "q \<in> set (map2 (\<lambda>e r. enr e r uid) es' rs)" for q
    using that by (auto dest: set_zip_rightD)
  with Cons es show ?case by (fastforce simp: enr_key enr_offset)
qed simp

end

lemma Enrich_line: "same_line (Enrich e r uid) r"
  by (simp add: same_line_def Enrich_def Let_def split: option.split)

interpretation pod_enricher: record_enricher Enrich
  by unfold_locales (rule Enrich_line)

text \<open>Without Kubernetes metadata the tailer has no enricher and sends the record as it is.\<close>

interpretation no_enricher: record_enricher "\<lambda>e r uid. r"
  by unfold_locales (simp add: same_line_def)

end
