(* ===== verification/QueryHub.thy ===== *)
theory QueryHub
  imports QueryEval
begin

text \<open>
  The live-tail hub, \<open>internal/query/hub.go\<close>: \<open>Publish\<close> hands a record to the buffered channel of
  every matching subscriber without blocking, and drops a subscriber whose buffer is full.  The
  channels are a store indexed by the subscription number, since the hub and the holder of a
  \<open>Sub\<close> share them and a channel outlives its registration.
\<close>


section \<open>State\<close>

record channel =
  ch_buf :: "log_record list"
  ch_cap :: nat
  ch_closed :: bool

record subscriber =
  sb_expr :: "node option"
  sb_dropped :: bool

record hub =
  h_subs :: "nat \<rightharpoonup> subscriber"
  h_nextID :: nat
  h_bufSize :: int
  h_chans :: "nat \<rightharpoonup> channel"

definition NewHub :: "int \<Rightarrow> hub" where
  "NewHub bufSize =
     \<lparr>h_subs = Map.empty, h_nextID = 0, h_bufSize = (if bufSize \<le> 0 then 1024 else bufSize),
      h_chans = Map.empty\<rparr>"


section \<open>Operations\<close>

text \<open>\<open>close(ch)\<close>: it panics on a closed channel.\<close>

definition chan_close :: "nat \<Rightarrow> hub \<Rightarrow> hub option" where
  "chan_close i h =
     (case h_chans h i of
        None \<Rightarrow> None
      | Some c \<Rightarrow>
          if ch_closed c then None
          else Some (h\<lparr>h_chans := (h_chans h)(i \<mapsto> c\<lparr>ch_closed := True\<rparr>)\<rparr>))"

text \<open>
  The \<open>select\<close> with a default case: \<open>Some (Some h)\<close> when the send succeeds, \<open>Some None\<close> when the
  buffer is full, \<open>None\<close> for the panic of a send on a closed channel.
\<close>

definition chan_try_send :: "nat \<Rightarrow> log_record \<Rightarrow> hub \<Rightarrow> hub option option" where
  "chan_try_send i r h =
     (case h_chans h i of
        None \<Rightarrow> Some None
      | Some c \<Rightarrow>
          if ch_closed c then None
          else if length (ch_buf c) < ch_cap c
          then Some (Some (h\<lparr>h_chans := (h_chans h)(i \<mapsto> c\<lparr>ch_buf := ch_buf c @ [r]\<rparr>)\<rparr>))
          else Some None)"

text \<open>One turn of the loop of \<open>Publish\<close>; \<open>None\<close> is a panic.\<close>

definition publish_one :: "runtime \<Rightarrow> log_record \<Rightarrow> nat \<Rightarrow> hub \<Rightarrow> hub option" where
  "publish_one rt r i h =
     (case h_subs h i of
        None \<Rightarrow> Some h
      | Some s \<Rightarrow>
          (case (case sb_expr s of None \<Rightarrow> Some True | Some n \<Rightarrow> Match rt n r) of
             None \<Rightarrow> None
           | Some False \<Rightarrow> Some h
           | Some True \<Rightarrow>
               (case chan_try_send i r h of
                  None \<Rightarrow> None
                | Some (Some h1) \<Rightarrow> Some h1
                | Some None \<Rightarrow>
                    map_option (\<lambda>h1. h1\<lparr>h_subs := (h_subs h1)(i := None)\<rparr>) (chan_close i h))))"

text \<open>\<open>Publish\<close>, for the order \<open>ids\<close> in which the runtime visits the subscribers.\<close>

fun Publish :: "runtime \<Rightarrow> log_record \<Rightarrow> nat list \<Rightarrow> hub \<Rightarrow> hub option" where
  "Publish rt r [] h = Some h"
| "Publish rt r (i # ids) h =
     (case publish_one rt r i h of None \<Rightarrow> None | Some h1 \<Rightarrow> Publish rt r ids h1)"

definition Subscribe :: "node option \<Rightarrow> hub \<Rightarrow> nat \<times> hub" where
  "Subscribe expr h =
     (let i = h_nextID h in
      (i, h\<lparr>h_nextID := i + 1,
             h_subs := (h_subs h)(i \<mapsto> \<lparr>sb_expr = expr, sb_dropped = False\<rparr>),
             h_chans := (h_chans h)(i \<mapsto> \<lparr>ch_buf = [], ch_cap = nat (h_bufSize h), ch_closed = False\<rparr>)\<rparr>))"

definition Sub_Close :: "nat \<Rightarrow> hub \<Rightarrow> hub option" where
  "Sub_Close i h =
     (case h_subs h i of
        None \<Rightarrow> Some h
      | Some s \<Rightarrow> map_option (\<lambda>h1. h1\<lparr>h_subs := (h_subs h1)(i := None)\<rparr>) (chan_close i h))"

text \<open>The receive \<open>rec, ok := <-sub.C\<close> of the follower, when a record is buffered.\<close>

definition chan_recv :: "nat \<Rightarrow> hub \<Rightarrow> (log_record \<times> hub) option" where
  "chan_recv i h =
     (case h_chans h i of
        None \<Rightarrow> None
      | Some c \<Rightarrow>
          (case ch_buf c of
             [] \<Rightarrow> None
           | r # rs \<Rightarrow> Some (r, h\<lparr>h_chans := (h_chans h)(i \<mapsto> c\<lparr>ch_buf := rs\<rparr>)\<rparr>)))"


section \<open>Invariant\<close>

text \<open>
  A registered subscriber has an open channel and an expression that can be evaluated; no buffer
  exceeds its capacity; numbers are handed out once.
\<close>

definition hub_ok :: "hub \<Rightarrow> bool" where
  "hub_ok h \<longleftrightarrow>
     (\<forall>i s. h_subs h i = Some s \<longrightarrow>
        (\<exists>c. h_chans h i = Some c \<and> \<not> ch_closed c) \<and> (\<forall>n. sb_expr s = Some n \<longrightarrow> wf_node n)) \<and>
     (\<forall>i c. h_chans h i = Some c \<longrightarrow> i < h_nextID h \<and> length (ch_buf c) \<le> ch_cap c)"

lemma hub_ok_sub:
  assumes "hub_ok h" and "h_subs h i = Some s"
  obtains c where "h_chans h i = Some c" and "\<not> ch_closed c" and "length (ch_buf c) \<le> ch_cap c"
    and "\<And>n. sb_expr s = Some n \<Longrightarrow> wf_node n"
  using assms unfolding hub_ok_def by metis

lemma hub_ok_put:
  assumes "hub_ok h" and "h_chans h i = Some c0" and "length (ch_buf c) \<le> ch_cap c"
    and "ch_closed c \<Longrightarrow> ch_closed c0"
  shows "hub_ok (h\<lparr>h_chans := (h_chans h)(i \<mapsto> c)\<rparr>)"
  using assms unfolding hub_ok_def by (simp, metis option.inject)

lemma hub_ok_drop:
  assumes "hub_ok h" and "h_chans h i = Some c0" and "length (ch_buf c) \<le> ch_cap c"
  shows "hub_ok (h\<lparr>h_chans := (h_chans h)(i \<mapsto> c), h_subs := (h_subs h)(i := None)\<rparr>)"
  using assms unfolding hub_ok_def by simp

lemma hub_ok_New [inv_intros]: "hub_ok (NewHub n)"
  by (simp add: hub_ok_def NewHub_def)

lemma hub_ok_Subscribe [inv_intros]:
  "hub_ok h \<Longrightarrow> (\<And>n. expr = Some n \<Longrightarrow> wf_node n) \<Longrightarrow> hub_ok (snd (Subscribe expr h))"
  by (auto simp: hub_ok_def Subscribe_def Let_def less_Suc_eq)

lemma Sub_Close_ok [inv_intros]: "hub_ok h \<Longrightarrow> \<exists>h'. Sub_Close i h = Some h' \<and> hub_ok h'"
proof (cases "h_subs h i")
  case (Some s)
  assume ok: "hub_ok h"
  from ok Some obtain c where "h_chans h i = Some c" "\<not> ch_closed c" "length (ch_buf c) \<le> ch_cap c"
    by (rule hub_ok_sub)
  with ok Some show ?thesis by (simp add: Sub_Close_def chan_close_def hub_ok_drop)
qed (simp add: Sub_Close_def)

lemma chan_recv_ok [inv_intros]: "hub_ok h \<Longrightarrow> chan_recv i h = Some (r, h') \<Longrightarrow> hub_ok h'"
proof -
  assume ok: "hub_ok h" and recv: "chan_recv i h = Some (r, h')"
  then obtain c rs where c: "h_chans h i = Some c" "ch_buf c = r # rs"
    and h': "h' = h\<lparr>h_chans := (h_chans h)(i \<mapsto> c\<lparr>ch_buf := rs\<rparr>)\<rparr>"
    by (auto simp: chan_recv_def split: option.splits list.splits)
  moreover from ok c(1) have "length (ch_buf c) \<le> ch_cap c" unfolding hub_ok_def by blast
  ultimately show ?thesis using hub_ok_put [OF ok c(1), of "c\<lparr>ch_buf := rs\<rparr>"] by simp
qed

text \<open>What a subscriber wants.\<close>

definition sub_wants :: "runtime \<Rightarrow> subscriber \<Rightarrow> log_record \<Rightarrow> bool" where
  "sub_wants rt s r \<longleftrightarrow> (case sb_expr s of None \<Rightarrow> True | Some n \<Rightarrow> selects rt n r)"

text \<open>The effect of one turn on the subscriber visited; all others are untouched.\<close>

lemma publish_one_step:
  assumes "hub_ok h" and "h_subs h i = Some s" and "h_chans h i = Some c"
  shows "publish_one rt r i h = Some (
      if \<not> sub_wants rt s r then h
      else if length (ch_buf c) < ch_cap c
      then h\<lparr>h_chans := (h_chans h)(i \<mapsto> c\<lparr>ch_buf := ch_buf c @ [r]\<rparr>)\<rparr>
      else h\<lparr>h_chans := (h_chans h)(i \<mapsto> c\<lparr>ch_closed := True\<rparr>), h_subs := (h_subs h)(i := None)\<rparr>)"
proof -
  from assms have open_c: "\<not> ch_closed c" and wf: "\<And>n. sb_expr s = Some n \<Longrightarrow> wf_node n"
    by (auto elim!: hub_ok_sub)
  have "(case sb_expr s of None \<Rightarrow> Some True | Some n \<Rightarrow> Match rt n r) = Some (sub_wants rt s r)"
    using wf by (auto simp: sub_wants_def Match_total split: option.split)
  with assms open_c show ?thesis
    by (auto simp: publish_one_def chan_try_send_def chan_close_def split: bool.split)
qed

lemma publish_one_ok [inv_intros]:
  assumes "hub_ok h"
  shows "\<exists>h'. publish_one rt r i h = Some h' \<and> hub_ok h'"
proof (cases "h_subs h i")
  case (Some s)
  from assms Some obtain c where c: "h_chans h i = Some c" "\<not> ch_closed c" "length (ch_buf c) \<le> ch_cap c"
    by (rule hub_ok_sub)
  then show ?thesis
    using assms hub_ok_put [OF assms c(1), of "c\<lparr>ch_buf := ch_buf c @ [r]\<rparr>"]
      hub_ok_drop [OF assms c(1), of "c\<lparr>ch_closed := True\<rparr>"]
    by (simp add: publish_one_step [OF assms Some c(1)])
qed (simp add: publish_one_def assms)

lemma publish_one_other:
  "publish_one rt r i h = Some h' \<Longrightarrow> j \<noteq> i \<Longrightarrow> h_subs h' j = h_subs h j \<and> h_chans h' j = h_chans h j"
  by (auto simp: publish_one_def chan_try_send_def chan_close_def
      split: option.splits bool.splits if_splits)

lemma publish_one_gone: "h_subs h i = None \<Longrightarrow> publish_one rt r i h = Some h"
  by (simp add: publish_one_def)

text \<open>\<open>Publish\<close> visits each subscriber once, so the order does not matter.\<close>

definition published :: "runtime \<Rightarrow> log_record \<Rightarrow> nat \<Rightarrow> hub \<Rightarrow> subscriber option \<times> channel option" where
  "published rt r i h =
     (case publish_one rt r i h of None \<Rightarrow> (None, None) | Some h' \<Rightarrow> (h_subs h' i, h_chans h' i))"

lemma publish_one_local:
  assumes "h_subs g i = h_subs h i" and "h_chans g i = h_chans h i"
  shows "published rt r i g = published rt r i h"
  using assms
  by (auto simp: published_def publish_one_def chan_try_send_def chan_close_def
      split: option.split bool.split)

lemma Publish_effect:
  assumes "hub_ok h" and "distinct ids"
  shows "\<exists>h'. Publish rt r ids h = Some h' \<and> hub_ok h' \<and>
    (\<forall>j. (h_subs h' j, h_chans h' j) =
      (if j \<in> set ids then published rt r j h else (h_subs h j, h_chans h j)))"
  using assms
proof (induction ids arbitrary: h)
  case (Cons i ids)
  from publish_one_ok [OF Cons.prems(1)] obtain h1 where h1: "publish_one rt r i h = Some h1" "hub_ok h1"
    by blast
  from Cons.IH [OF h1(2)] Cons.prems(2) obtain h' where h': "Publish rt r ids h1 = Some h'" "hub_ok h'"
    "\<forall>j. (h_subs h' j, h_chans h' j) =
      (if j \<in> set ids then published rt r j h1 else (h_subs h1 j, h_chans h1 j))" by auto
  have "(h_subs h1 i, h_chans h1 i) = published rt r i h" by (simp add: published_def h1)
  moreover have "published rt r j h1 = published rt r j h"
    and "(h_subs h1 j, h_chans h1 j) = (h_subs h j, h_chans h j)" if "j \<noteq> i" for j
    using publish_one_other [OF h1(1) that] publish_one_local [of h1 j h] by auto
  ultimately have "(h_subs h' j, h_chans h' j) =
      (if j \<in> set (i # ids) then published rt r j h else (h_subs h j, h_chans h j))" for j
    using h'(3) Cons.prems(2) by (cases "j = i") auto
  with h1 h' show ?case by auto
qed simp


section \<open>Runs of the hub\<close>

text \<open>
  A run: the calls of the manager and of the followers in any order, \<open>Publish\<close> visiting the
  subscribers in any order.  Beside the hub it records, per subscription, the records that
  matched since it was made and while it was registered (\<open>w_due\<close>), and those received from its
  channel (\<open>w_got\<close>).
\<close>

record world =
  w_hub :: hub
  w_due :: "nat \<Rightarrow> log_record list"
  w_got :: "nat \<Rightarrow> log_record list"

inductive hub_step :: "runtime \<Rightarrow> world \<Rightarrow> world \<Rightarrow> bool" for rt where
  step_publish: "distinct ids \<Longrightarrow> set ids = dom (h_subs (w_hub w)) \<Longrightarrow>
    Publish rt r ids (w_hub w) = Some h' \<Longrightarrow>
    hub_step rt w (w\<lparr>w_hub := h', w_due := (\<lambda>i. w_due w i @
      (case h_subs (w_hub w) i of
         Some s \<Rightarrow> if sub_wants rt s r then [r] else [] | None \<Rightarrow> []))\<rparr>)"
| step_subscribe: "(\<And>n. expr = Some n \<Longrightarrow> wf_node n) \<Longrightarrow> Subscribe expr (w_hub w) = (i, h') \<Longrightarrow>
    hub_step rt w (w\<lparr>w_hub := h'\<rparr>)"
| step_close: "Sub_Close i (w_hub w) = Some h' \<Longrightarrow> hub_step rt w (w\<lparr>w_hub := h'\<rparr>)"
| step_recv: "chan_recv i (w_hub w) = Some (r, h') \<Longrightarrow>
    hub_step rt w (w\<lparr>w_hub := h', w_got := (w_got w)(i := w_got w i @ [r])\<rparr>)"

definition world_start :: "int \<Rightarrow> world" where
  "world_start n = \<lparr>w_hub = NewHub n, w_due = (\<lambda>_. []), w_got = (\<lambda>_. [])\<rparr>"

definition hub_reachable :: "runtime \<Rightarrow> int \<Rightarrow> world \<Rightarrow> bool" where
  "hub_reachable rt n w \<longleftrightarrow> (hub_step rt)\<^sup>*\<^sup>* (world_start n) w"

text \<open>What has been sent on a channel: received, then buffered.\<close>

definition sent :: "world \<Rightarrow> nat \<Rightarrow> log_record list" where
  "sent w i = w_got w i @ (case h_chans (w_hub w) i of None \<Rightarrow> [] | Some c \<Rightarrow> ch_buf c)"

definition in_step :: "world \<Rightarrow> nat \<Rightarrow> bool" where
  "in_step w i \<longleftrightarrow>
     (if h_subs (w_hub w) i \<noteq> None then sent w i = w_due w i else prefix (sent w i) (w_due w i))"

definition delivered :: "world \<Rightarrow> bool" where
  "delivered w \<longleftrightarrow>
     (\<forall>i. in_step w i) \<and>
     (\<forall>i \<ge> h_nextID (w_hub w). w_due w i = [] \<and> w_got w i = [])"


lemma publish_one_nextID: "publish_one rt r i h = Some h' \<Longrightarrow> h_nextID h' = h_nextID h"
  by (auto simp: publish_one_def chan_try_send_def chan_close_def
      split: option.splits bool.splits if_splits)

lemma Publish_nextID: "Publish rt r ids h = Some h' \<Longrightarrow> h_nextID h' = h_nextID h"
  by (induction ids arbitrary: h) (auto dest: publish_one_nextID split: option.splits)

lemma published_sub:
  assumes "hub_ok h" and "h_subs h i = Some s"
  obtains c where "h_chans h i = Some c" and "published rt r i h =
    (if \<not> sub_wants rt s r then (Some s, Some c)
     else if length (ch_buf c) < ch_cap c then (Some s, Some (c\<lparr>ch_buf := ch_buf c @ [r]\<rparr>))
     else (None, Some (c\<lparr>ch_closed := True\<rparr>)))"
proof -
  from assms obtain c where c: "h_chans h i = Some c" by (rule hub_ok_sub)
  with assms publish_one_step [OF assms c] that show ?thesis by (simp add: published_def)
qed

lemma delivered_publish:
  assumes "hub_ok (w_hub w)" and "delivered w" and "distinct ids" "set ids = dom (h_subs (w_hub w))"
    and pub: "Publish rt r ids (w_hub w) = Some h'"
  shows "delivered (w\<lparr>w_hub := h', w_due := (\<lambda>i. w_due w i @
      (case h_subs (w_hub w) i of
         Some s \<Rightarrow> if sub_wants rt s r then [r] else [] | None \<Rightarrow> []))\<rparr>)" (is "delivered ?w")
  unfolding delivered_def
proof (intro conjI allI impI)
  let ?h = "w_hub w"
  from Publish_effect [OF assms(1,3), of rt r] pub assms(4)
  have eff: "(h_subs h' j, h_chans h' j) =
      (if h_subs ?h j \<noteq> None then published rt r j ?h else (h_subs ?h j, h_chans ?h j))" for j
    by (auto simp: domIff)
  have sub_lt: "h_subs ?h i = None" if "h_nextID ?h \<le> i" for i
    using assms(1) that unfolding hub_ok_def by (metis not_less not_Some_eq)
  fix i
  from assms(2) have i: "in_step w i" by (simp add: delivered_def)
  show "in_step ?w i"
  proof (cases "h_subs ?h i")
    case None
    with eff [of i] i show ?thesis by (simp add: in_step_def sent_def)
  next
    case (Some s)
    obtain c where c: "h_chans ?h i = Some c" and "published rt r i ?h =
      (if \<not> sub_wants rt s r then (Some s, Some c)
       else if length (ch_buf c) < ch_cap c then (Some s, Some (c\<lparr>ch_buf := ch_buf c @ [r]\<rparr>))
       else (None, Some (c\<lparr>ch_closed := True\<rparr>)))"
      by (rule published_sub [OF assms(1) Some])
    with eff [of i] Some have e: "(h_subs h' i, h_chans h' i) =
      (if \<not> sub_wants rt s r then (Some s, Some c)
       else if length (ch_buf c) < ch_cap c then (Some s, Some (c\<lparr>ch_buf := ch_buf c @ [r]\<rparr>))
       else (None, Some (c\<lparr>ch_closed := True\<rparr>)))" by simp
    with i Some c show ?thesis by (auto simp: in_step_def sent_def split: if_splits)
  qed
next
  fix i assume "h_nextID (w_hub ?w) \<le> i"
  with Publish_nextID [OF pub] have le: "h_nextID (w_hub w) \<le> i" by simp
  have "h_subs (w_hub w) i = None"
    using assms(1) le unfolding hub_ok_def by (metis not_less not_Some_eq)
  with assms(2) le show "w_due ?w i = []" and "w_got ?w i = []" by (auto simp: delivered_def)
qed

lemma hub_step_inv:
  assumes "hub_step rt w w'" and ok: "hub_ok (w_hub w)" and del: "delivered w"
  shows "hub_ok (w_hub w') \<and> delivered w'"
  using assms(1)
proof cases
  case (step_publish ids r h')
  with Publish_effect [OF ok step_publish(2), of rt r] delivered_publish [OF ok del step_publish(2,3,4)]
  show ?thesis by auto
next
  case (step_subscribe expr i h')
  from step_subscribe ok have "hub_ok h'" using hub_ok_Subscribe [of "w_hub w" expr] by simp
  moreover have "h_chans (w_hub w) (h_nextID (w_hub w)) = None"
    using ok unfolding hub_ok_def by (metis less_irrefl not_Some_eq)
  moreover from step_subscribe have h': "h_nextID h' = Suc (h_nextID (w_hub w))"
    "\<And>j. j \<noteq> h_nextID (w_hub w) \<Longrightarrow> h_subs h' j = h_subs (w_hub w) j \<and> h_chans h' j = h_chans (w_hub w) j"
    "map_option ch_buf (h_chans h' (h_nextID (w_hub w))) = Some []"
    by (auto simp: Subscribe_def Let_def)
  moreover have "in_step w' j" for j
  proof (cases "j = h_nextID (w_hub w)")
    case True
    with del h'(3) step_subscribe show ?thesis by (auto simp: in_step_def delivered_def sent_def)
  next
    case False
    from del have "in_step w j" by (simp add: delivered_def)
    moreover from h'(2) [OF False] step_subscribe have "sent w' j = sent w j" by (simp add: sent_def)
    ultimately show ?thesis using h'(2) [OF False] step_subscribe by (simp add: in_step_def)
  qed
  ultimately show ?thesis using step_subscribe del by (auto simp: delivered_def)
next
  case (step_close i h')
  from Sub_Close_ok [OF ok, of i] step_close have "hub_ok h'" by auto
  moreover from step_close have "h_nextID h' = h_nextID (w_hub w)"
    and "\<And>j. h_subs h' j = (if j = i then None else h_subs (w_hub w) j)"
    and "\<And>j. map_option ch_buf (h_chans h' j) = map_option ch_buf (h_chans (w_hub w) j)"
    by (auto simp: Sub_Close_def chan_close_def split: option.splits if_splits)
  moreover have "sent (w\<lparr>w_hub := h'\<rparr>) j = sent w j" for j
    using calculation(4) [of j] by (auto simp: sent_def split: option.splits)
  moreover from del have "prefix (sent w i) (w_due w i)"
    unfolding delivered_def in_step_def by (metis prefix_order.refl)
  ultimately show ?thesis using step_close del by (auto simp: delivered_def in_step_def)
next
  case (step_recv i r h')
  from chan_recv_ok [OF ok step_recv(2)] have "hub_ok h'" .
  moreover from step_recv(2) have "h_nextID h' = h_nextID (w_hub w)" and "h_subs h' = h_subs (w_hub w)"
    by (auto simp: chan_recv_def split: option.splits list.splits)
  moreover have "sent w' j = sent w j" for j
    using step_recv by (auto simp: sent_def chan_recv_def split: option.splits list.splits)
  moreover have "i < h_nextID (w_hub w)"
    using ok step_recv(2) unfolding hub_ok_def chan_recv_def by (auto split: option.splits)
  ultimately show ?thesis using step_recv(1) del by (auto simp: delivered_def in_step_def)
qed

lemma hub_reachable_inv: "hub_reachable rt n w \<Longrightarrow> hub_ok (w_hub w) \<and> delivered w"
  unfolding hub_reachable_def
proof (induction rule: rtranclp_induct)
  case base
  have "h_subs (NewHub n) i = None" and "h_chans (NewHub n) i = None" for i by (simp_all add: NewHub_def)
  then show ?case by (simp add: world_start_def hub_ok_New delivered_def in_step_def sent_def)
next
  case (step w w')
  then show ?case using hub_step_inv by blast
qed


section \<open>Properties\<close>

text \<open>
  C17: the hub never panics and never blocks.  In every reachable state, for every order in which
  the runtime visits the subscribers, \<open>Publish\<close> returns, and so does \<open>Close\<close>: no channel is closed
  twice, no record is sent on a closed one, and no buffer holds more than its capacity.
\<close>

theorem hub_never_panics:
  assumes "hub_reachable rt n w" and "distinct ids"
  shows "(\<exists>h'. Publish rt r ids (w_hub w) = Some h') \<and> (\<exists>h'. Sub_Close i (w_hub w) = Some h') \<and>
    (\<forall>c. h_chans (w_hub w) i = Some c \<longrightarrow> length (ch_buf c) \<le> ch_cap c)"
proof -
  from hub_reachable_inv [OF assms(1)] have ok: "hub_ok (w_hub w)" ..
  with Publish_effect [OF ok assms(2), of rt r] Sub_Close_ok [OF ok, of i] show ?thesis
    unfolding hub_ok_def by blast
qed

theorem hub_never_panics_witness:
  "\<exists>h'. Publish bare_runtime empty_record [0, 1] (w_hub (world_start 4)) = Some h'"
proof -
  have "hub_reachable bare_runtime 4 (world_start 4)" by (simp add: hub_reachable_def)
  from hub_never_panics [OF this, of "[0, 1]"] show ?thesis by simp
qed

text \<open>
  C9: live tailing has no gaps.  What a subscriber has received, followed by what its channel still
  buffers, is the list of the matching records published since it subscribed, in their order and
  each once, for as long as it is registered; for one that was dropped or closed it is a prefix
  of that list.
\<close>

theorem live_tail_without_gaps:
  assumes "hub_reachable rt n w"
  shows "if h_subs (w_hub w) i \<noteq> None then sent w i = w_due w i else prefix (sent w i) (w_due w i)"
  using hub_reachable_inv [OF assms] unfolding delivered_def in_step_def by blast

theorem live_tail_without_gaps_witness:
  "let w = (world_start 1)\<lparr>w_hub := snd (Subscribe None (NewHub 1))\<rparr>
   in if h_subs (w_hub w) 0 \<noteq> None then sent w 0 = w_due w 0 else prefix (sent w 0) (w_due w 0)"
  unfolding Let_def
proof (rule live_tail_without_gaps [where rt = bare_runtime and n = 1])
  have "hub_step bare_runtime (world_start 1) ((world_start 1)\<lparr>w_hub := snd (Subscribe None (NewHub 1))\<rparr>)"
    by (rule step_subscribe [where expr = None and i = 0]) (simp_all add: world_start_def Subscribe_def NewHub_def)
  then show "hub_reachable bare_runtime 1 ((world_start 1)\<lparr>w_hub := snd (Subscribe None (NewHub 1))\<rparr>)"
    unfolding hub_reachable_def by simp
qed

end
