(* ===== verification/Spool.thy ===== *)
theory Spool
  imports StoreQuery QueryHub
begin

text \<open>
  The open segment of the manager, \<open>internal/manager/spool.go\<close>: it accepts records without
  duplicates, serves them to queries, and seals them to the store.  \<open>Seal\<close> holds the lock only
  around its first and last part, so these are operations of their own: \<open>seal_take\<close>,
  \<open>seal_segment\<close>, and \<open>seal_commit\<close> or \<open>requeue\<close>.
\<close>


section \<open>State\<close>

record SpoolConfig =
  sc_WorkDir :: string
  sc_MaxSegBytes :: int
  sc_MaxSegAge :: int

definition SpoolConfig_defaults :: "SpoolConfig \<Rightarrow> SpoolConfig" where
  "SpoolConfig_defaults c = c\<lparr>
     sc_MaxSegBytes := (if sc_MaxSegBytes c \<le> 0 then 67108864 else sc_MaxSegBytes c),
     sc_MaxSegAge := (if sc_MaxSegAge c \<le> 0 then 300000000000 else sc_MaxSegAge c)\<rparr>"

record spool =
  sp_cfg :: SpoolConfig
  sp_buf :: "log_record list"
  sp_bufBytes :: int
  sp_openSince :: time
  sp_received :: "string \<rightharpoonup> int"
  sp_committed :: "string \<rightharpoonup> int"

definition NewSpool :: "SpoolConfig \<Rightarrow> ('s, 'd) env \<Rightarrow> ('s, 'd) store \<Rightarrow> go_error + spool" where
  "NewSpool cfg0 E st =
     (let cfg = SpoolConfig_defaults cfg0 in
      case os_mkdir (env_os E) (sc_WorkDir cfg) of
        Some e \<Rightarrow> Inl e
      | None \<Rightarrow>
          rbind (SourceWatermarks E st) (\<lambda>watermarks.
          Inr \<lparr>sp_cfg = cfg, sp_buf = [], sp_bufBytes = 0, sp_openSince = zero_time,
               sp_received = watermarks, sp_committed = watermarks\<rparr>))"


section \<open>Operations\<close>

definition estimateSize :: "log_record \<Rightarrow> int" where
  "estimateSize r =
     int (length (rec_Message r) + length (rec_Namespace r) + length (rec_Pod r) + length (rec_Container r) +
       length (rec_Node r) + 64) +
     sum_list (map (\<lambda>(k, v). int (length k + length v)) (rec_Labels r)) +
     sum_list (map (\<lambda>(k, v). int (length k + length v)) (rec_Body r))"

text \<open>Whether the record is a duplicate, and the locked part of \<open>Accept\<close> for one that is not.\<close>

definition duplicate :: "log_record \<Rightarrow> spool \<Rightarrow> bool" where
  "duplicate r s = (case sp_received s (rec_key r) of None \<Rightarrow> False | Some hw \<Rightarrow> rec_Offset r \<le> hw)"

definition accept_new :: "time \<Rightarrow> log_record \<Rightarrow> spool \<Rightarrow> spool" where
  "accept_new now r s = s\<lparr>
     sp_received := (sp_received s)(rec_key r \<mapsto> rec_Offset r),
     sp_buf := sp_buf s @ [r],
     sp_bufBytes := sp_bufBytes s + estimateSize r,
     sp_openSince := (if length (sp_buf s @ [r]) = 1 then now else sp_openSince s)\<rparr>"

text \<open>
  \<open>Accept\<close>, with the order \<open>ids\<close> in which \<open>Publish\<close> visits the subscribers; a panic of the hub is
  \<open>None\<close>.
\<close>

definition Accept :: "runtime \<Rightarrow> nat list \<Rightarrow> time \<Rightarrow> log_record \<Rightarrow> spool \<times> hub option \<Rightarrow> (spool \<times> hub option) option" where
  "Accept rt ids now r = (\<lambda>(s, h).
     if duplicate r s then Some (s, h)
     else
       (case h of
          None \<Rightarrow> Some (accept_new now r s, None)
        | Some h0 \<Rightarrow> map_option (\<lambda>h1. (accept_new now r s, Some h1)) (Publish rt r ids h0)))"

definition Committed :: "spool \<Rightarrow> (string \<rightharpoonup> int)" where
  "Committed s = sp_committed s"

text \<open>
  \<open>sort.Slice\<close> by timestamp: some sorted permutation, as it is not stable.
\<close>

definition sort_slice_ok :: "(log_record list \<Rightarrow> log_record list) \<Rightarrow> bool" where
  "sort_slice_ok srt \<longleftrightarrow> (\<forall>rs. mset (srt rs) = mset rs \<and> ts_sorted False (srt rs))"

definition Spool_Snapshot ::
  "(log_record list \<Rightarrow> log_record list) \<Rightarrow> spool \<Rightarrow> time \<Rightarrow> time \<Rightarrow> log_record list" where
  "Spool_Snapshot srt s start stop =
     srt (filter (\<lambda>r. \<not> (\<not> is_zero start \<and> rec_Timestamp r < start) \<and>
                      \<not> (\<not> is_zero stop \<and> rec_Timestamp r > stop)) (sp_buf s))"

definition shouldSeal :: "time \<Rightarrow> spool \<Rightarrow> bool" where
  "shouldSeal now s =
     (if sp_buf s = [] then False
      else if sp_bufBytes s \<ge> sc_MaxSegBytes (sp_cfg s) then True
      else now - sp_openSince s \<ge> sc_MaxSegAge (sp_cfg s))"

definition seal_take :: "spool \<Rightarrow> log_record list \<times> spool" where
  "seal_take s = (sp_buf s, s\<lparr>sp_buf := [], sp_bufBytes := 0\<rparr>)"

definition requeue :: "time \<Rightarrow> log_record list \<Rightarrow> spool \<Rightarrow> spool" where
  "requeue now batch s = s\<lparr>
     sp_buf := batch @ sp_buf s,
     sp_bufBytes := fold (\<lambda>r n. n + estimateSize r) batch (sp_bufBytes s),
     sp_openSince := (if is_zero (sp_openSince s) then now else sp_openSince s)\<rparr>"

text \<open>The greatest offset per source of a batch, and the last part of a successful seal.\<close>

definition max_offsets :: "log_record list \<Rightarrow> (string \<rightharpoonup> int)" where
  "max_offsets batch = fold (\<lambda>r. raise_max (rec_key r) (rec_Offset r)) batch Map.empty"

definition seal_commit :: "(string \<rightharpoonup> int) \<Rightarrow> spool \<Rightarrow> spool" where
  "seal_commit maxOff s = s\<lparr>sp_committed := (\<lambda>key.
     case maxOff key of
       None \<Rightarrow> sp_committed s key
     | Some off \<Rightarrow> if off > get0 (sp_committed s) key then Some off else sp_committed s key)\<rparr>"

text \<open>
  The surroundings of one \<open>Seal\<close>: the ULID, the outcome of \<open>os.Create\<close> and of closing the file, the
  file as a writer, and the clock.
\<close>

record seal_io =
  io_id :: string
  io_create :: "go_error option"
  io_writer :: io_writer
  io_close :: "go_error option"
  io_now :: time

definition tmp_path :: "spool \<Rightarrow> seal_io \<Rightarrow> string" where
  "tmp_path s io = sc_WorkDir (sp_cfg s) @ ''/'' @ io_id io @ ''.seg.tmp''"

text \<open>
  The unlocked middle of \<open>Seal\<close>: write the sorted batch to a file and seal it to the store.  Each
  error removes the file again.
\<close>

definition seal_segment ::
  "('s, 'd) env \<Rightarrow> seal_io \<Rightarrow> string \<Rightarrow> log_record list \<Rightarrow> ('s, 'd) store \<Rightarrow> go_error option \<times> ('s, 'd) store" where
  "seal_segment E io tmpPath batch st =
     (case io_create io of
        Some e \<Rightarrow> (Some e, st)
      | None \<Rightarrow>
          (case write_segment (env_C E) (io_writer io) (unix_nano (io_now io)) batch of
             Inl e \<Rightarrow> (Some e, st\<lparr>st_fs := (st_fs st)(tmpPath := None)\<rparr>)
           | Inr (meta, body) \<Rightarrow>
               (case io_close io of
                  Some e \<Rightarrow> (Some e, st\<lparr>st_fs := (st_fs st)(tmpPath := None)\<rparr>)
                | None \<Rightarrow>
                    (case Store_Seal E tmpPath (io_id io) meta (st\<lparr>st_fs := (st_fs st)(tmpPath \<mapsto> body)\<rparr>) of
                       (Inl e, st1) \<Rightarrow> (Some e, st1\<lparr>st_fs := (st_fs st1)(tmpPath := None)\<rparr>)
                     | (Inr m, st1) \<Rightarrow> (None, st1)))))"

definition Spool_Seal ::
  "(log_record list \<Rightarrow> log_record list) \<Rightarrow> ('s, 'd) env \<Rightarrow> seal_io \<Rightarrow> spool \<Rightarrow> ('s, 'd) store \<Rightarrow>
    (go_error + nat) \<times> spool \<times> ('s, 'd) store" where
  "Spool_Seal srt E io s st =
     (if sp_buf s = [] then (Inr 0, s, st)
      else
        (let (taken, s1) = seal_take s; batch = srt taken in
         case seal_segment E io (tmp_path s1 io) batch st of
           (Some e, st1) \<Rightarrow> (Inl e, requeue (io_now io) batch s1, st1)
         | (None, st1) \<Rightarrow> (Inr (length batch), seal_commit (max_offsets batch) s1, st1)))"

end
