(* ===== verification/ManagerRun.thy ===== *)
theory ManagerRun
  imports Spool
begin

text \<open>
  The life of the manager, \<open>internal/manager/manager.go\<close> with the spool: records arrive while
  seals run in the background and the process may be killed at any point.  The machine is a step
  relation over what it needs of the store, so the argument about acknowledgements rests on the
  contract \<open>batch_store\<close> only.
\<close>


section \<open>The machine\<close>

text \<open>
  The parameters of a run: one upload of a batch (\<open>'u\<close> its surroundings, \<open>'w\<close> the world with the
  store), when an upload is within the bounds of the model, other activity on the world, a
  restart with the spool it creates, given the batches that were being uploaded when the process
  was killed, the sorting function, the records that occur, and how many calls of \<open>Seal\<close> may run
  at a time.
\<close>

record ('u, 'w) machine =
  mc_upload :: "'u \<Rightarrow> log_record list \<Rightarrow> 'w \<Rightarrow> go_error option \<times> 'w"
  mc_allowed :: "'u \<Rightarrow> log_record list \<Rightarrow> 'w \<Rightarrow> bool"
  mc_other :: "'w \<Rightarrow> 'w \<Rightarrow> bool"
  mc_restart :: "log_record list list \<Rightarrow> 'w \<Rightarrow> 'w \<times> spool \<Rightarrow> bool"
  mc_sort :: "log_record list \<Rightarrow> log_record list"
  mc_record :: "log_record \<Rightarrow> bool"
  mc_seals :: nat

text \<open>
  A call of \<open>Seal\<close> in flight is its batch with the outcome of the upload once there is one.
  \<open>mg_accepted\<close> is a ghost: the records \<open>Accept\<close> took since the process started.
\<close>

record 'w mgr =
  mg_spool :: spool
  mg_hub :: "hub option"
  mg_world :: 'w
  mg_flight :: "(log_record list \<times> bool option) list"
  mg_accepted :: "log_record set"

text \<open>The batches that occur: not empty, sorted, of records that occur.\<close>

definition batch_ok :: "('u, 'w) machine \<Rightarrow> log_record list \<Rightarrow> bool" where
  "batch_ok M b \<longleftrightarrow> b \<noteq> [] \<and> ts_sorted False b \<and> (\<forall>r \<in> set b. mc_record M r)"

definition drop_nth :: "nat \<Rightarrow> 'a list \<Rightarrow> 'a list" where
  "drop_nth i xs = take i xs @ drop (Suc i) xs"

definition uploading :: "'w mgr \<Rightarrow> log_record list list" where
  "uploading w = map fst (filter (\<lambda>(b, q). q = None) (mg_flight w))"

inductive mgr_step :: "('u, 'w) machine \<Rightarrow> 'w mgr \<Rightarrow> 'w mgr \<Rightarrow> bool" for M where
  accept: "Accept rt ids now r (mg_spool w, mg_hub w) = Some (s, h) \<Longrightarrow> mc_record M r \<Longrightarrow>
    mgr_step M w (w\<lparr>mg_spool := s, mg_hub := h,
      mg_accepted := (if duplicate r (mg_spool w) then mg_accepted w else insert r (mg_accepted w))\<rparr>)"
| take: "length (mg_flight w) < mc_seals M \<Longrightarrow> sp_buf (mg_spool w) \<noteq> [] \<Longrightarrow> seal_take (mg_spool w) = (taken, s) \<Longrightarrow>
    mgr_step M w (w\<lparr>mg_spool := s, mg_flight := mg_flight w @ [(mc_sort M taken, None)]\<rparr>)"
| upload: "i < length (mg_flight w) \<Longrightarrow> mg_flight w ! i = (b, None) \<Longrightarrow> mc_allowed M u b (mg_world w) \<Longrightarrow>
    mc_upload M u b (mg_world w) = (res, w1) \<Longrightarrow>
    mgr_step M w (w\<lparr>mg_world := w1, mg_flight := (mg_flight w)[i := (b, Some (res = None))]\<rparr>)"
| commit: "i < length (mg_flight w) \<Longrightarrow> mg_flight w ! i = (b, Some True) \<Longrightarrow>
    mgr_step M w (w\<lparr>mg_spool := seal_commit (max_offsets b) (mg_spool w), mg_flight := drop_nth i (mg_flight w)\<rparr>)"
| requeue: "i < length (mg_flight w) \<Longrightarrow> mg_flight w ! i = (b, Some False) \<Longrightarrow>
    mgr_step M w (w\<lparr>mg_spool := requeue now b (mg_spool w), mg_flight := drop_nth i (mg_flight w)\<rparr>)"
| other: "mc_other M (mg_world w) w1 \<Longrightarrow> mgr_step M w (w\<lparr>mg_world := w1\<rparr>)"
| restart: "mc_restart M (uploading w) (mg_world w) (w1, s) \<Longrightarrow>
    mgr_step M w \<lparr>mg_spool = s, mg_hub = Some (NewHub 4096), mg_world = w1, mg_flight = [], mg_accepted = {}\<rparr>"

abbreviation mgr_steps :: "('u, 'w) machine \<Rightarrow> 'w mgr \<Rightarrow> 'w mgr \<Rightarrow> bool" where
  "mgr_steps M \<equiv> (mgr_step M)\<^sup>*\<^sup>*"

inductive mgr_reachable :: "('u, 'w) machine \<Rightarrow> 'w \<Rightarrow> 'w mgr \<Rightarrow> bool" for M w0 where
  start: "mc_restart M [] w0 (w1, s) \<Longrightarrow>
    mgr_reachable M w0 \<lparr>mg_spool = s, mg_hub = Some (NewHub 4096), mg_world = w1, mg_flight = [], mg_accepted = {}\<rparr>"
| step: "mgr_reachable M w0 w \<Longrightarrow> mgr_step M w w' \<Longrightarrow> mgr_reachable M w0 w'"

text \<open>Whether an acknowledgement of the committed offsets covers a record.\<close>

definition acked :: "spool \<Rightarrow> log_record \<Rightarrow> bool" where
  "acked s r = (case Committed s (rec_key r) of None \<Rightarrow> False | Some off \<Rightarrow> rec_Offset r \<le> off)"


section \<open>Watermarks\<close>

lemma max_offsets_mem: "max_offsets b k = Some v \<Longrightarrow> \<exists>r \<in> set b. rec_key r = k \<and> rec_Offset r = v"
proof -
  have "fold (\<lambda>r. raise_max (rec_key r) (rec_Offset r)) b m k = Some v \<Longrightarrow>
      m k = Some v \<or> (\<exists>r \<in> set b. rec_key r = k \<and> rec_Offset r = v)" for m
  proof (induction b arbitrary: m)
    case (Cons r b)
    from Cons.prems have "raise_max (rec_key r) (rec_Offset r) m k = Some v \<or> (\<exists>r \<in> set b. rec_key r = k \<and> rec_Offset r = v)"
      by (intro Cons.IH) simp
    then show ?case by (auto simp: raise_max_def split: if_splits)
  qed simp
  then show "max_offsets b k = Some v \<Longrightarrow> \<exists>r \<in> set b. rec_key r = k \<and> rec_Offset r = v"
    unfolding max_offsets_def by (metis not_None_eq option.distinct(1))
qed

lemma seal_commit_mem:
  "sp_committed (seal_commit (max_offsets b) s) k = Some v \<Longrightarrow>
    sp_committed s k = Some v \<or> (\<exists>r \<in> set b. rec_key r = k \<and> rec_Offset r = v)"
  by (auto simp: seal_commit_def split: option.splits if_splits dest: max_offsets_mem)

lemma seal_commit_sel [simp]:
  "sp_buf (seal_commit m s) = sp_buf s" "sp_received (seal_commit m s) = sp_received s"
  by (simp_all add: seal_commit_def)

lemma requeue_sel [simp]:
  "sp_buf (requeue now b s) = b @ sp_buf s" "sp_received (requeue now b s) = sp_received s"
  "sp_committed (requeue now b s) = sp_committed s"
  by (simp_all add: requeue_def)


text \<open>
  The records not yet sealed, those of the seals in flight, and whether the received offset of its
  source bounds a record.
\<close>

definition pending :: "'w mgr \<Rightarrow> log_record set" where
  "pending w = set (sp_buf (mg_spool w)) \<union> (\<Union>(b, q) \<in> set (mg_flight w). if q = Some True then {} else set b)"

definition in_flight :: "'w mgr \<Rightarrow> log_record set" where
  "in_flight w = (\<Union>(b, q) \<in> set (mg_flight w). set b)"

definition seen_below :: "spool \<Rightarrow> log_record \<Rightarrow> bool" where
  "seen_below s r \<longleftrightarrow> (\<exists>v. sp_received s (rec_key r) = Some v \<and> rec_Offset r \<le> v)"


section \<open>The contract of the store\<close>

locale batch_store =
  fixes M :: "('u, 'w) machine"
    and wok :: "'w \<Rightarrow> bool"
    and durable :: "'w \<Rightarrow> log_record set"
  assumes upload_ok: "wok w \<Longrightarrow> batch_ok M b \<Longrightarrow> mc_allowed M u b w \<Longrightarrow> mc_upload M u b w = (res, w') \<Longrightarrow>
      wok w' \<and> durable w \<subseteq> durable w' \<and> (res = None \<longrightarrow> set b \<subseteq> durable w')"
    and other_ok: "wok w \<Longrightarrow> mc_other M w w' \<Longrightarrow> wok w' \<and> durable w \<subseteq> durable w'"
    and restart_ok: "wok w \<Longrightarrow> \<forall>b \<in> set bs. batch_ok M b \<Longrightarrow> mc_restart M bs w (w', s) \<Longrightarrow>
      wok w' \<and> durable w \<subseteq> durable w' \<and> sp_buf s = [] \<and> sp_committed s = sp_received s"
    and sort_ok: "wok w \<Longrightarrow> sort_slice_ok (mc_sort M)"
begin

text \<open>What holds with any number of seals: the batches in flight are sorted lists of accepted records.\<close>

definition mgr_wf :: "'w mgr \<Rightarrow> bool" where
  "mgr_wf w \<longleftrightarrow> wok (mg_world w) \<and> (\<forall>r \<in> set (sp_buf (mg_spool w)). mc_record M r) \<and>
     (\<forall>(b, q) \<in> set (mg_flight w). batch_ok M b)"

lemma sort_set: "wok w \<Longrightarrow> set (mc_sort M rs) = set rs"
  using sort_ok unfolding sort_slice_ok_def by (metis set_mset_mset)

lemma batch_ok_sort: "wok w \<Longrightarrow> rs \<noteq> [] \<Longrightarrow> \<forall>r \<in> set rs. mc_record M r \<Longrightarrow> batch_ok M (mc_sort M rs)"
  using sort_ok sort_set [of w rs] unfolding batch_ok_def sort_slice_ok_def by (metis set_empty)

lemma mgr_wf_start:
  assumes "wok w" and "\<forall>b \<in> set bs. batch_ok M b" and "mc_restart M bs w (w1, s)"
  shows "mgr_wf \<lparr>mg_spool = s, mg_hub = h, mg_world = w1, mg_flight = [], mg_accepted = A\<rparr>"
  using restart_ok [OF assms] by (simp add: mgr_wf_def)

lemma mgr_wf_step:
  assumes "mgr_step M w w'" and wf: "mgr_wf w"
  shows "mgr_wf w' \<and> durable (mg_world w) \<subseteq> durable (mg_world w')"
proof -
  from wf have wok: "wok (mg_world w)" and buf: "\<forall>r \<in> set (sp_buf (mg_spool w)). mc_record M r"
    and fl: "\<forall>(b, q) \<in> set (mg_flight w). batch_ok M b" by (simp_all add: mgr_wf_def)
  have at: "batch_ok M b" if "i < length (mg_flight w)" "mg_flight w ! i = (b, q)" for i b q
    using fl nth_mem [OF that(1)] that(2) by fastforce
  from assms(1) show ?thesis
  proof cases
    case (accept rt ids now r s h)
    then have "sp_buf s = sp_buf (mg_spool w) \<or> sp_buf s = sp_buf (mg_spool w) @ [r]"
      by (auto simp: Accept_def accept_new_def split: if_splits option.splits)
    with accept wok buf fl show ?thesis by (auto simp: mgr_wf_def)
  next
    case (take taken s)
    then have "sp_buf s = []" "batch_ok M (mc_sort M taken)"
      using batch_ok_sort [OF wok] buf by (auto simp: seal_take_def)
    with take wok fl show ?thesis by (simp add: mgr_wf_def)
  next
    case (upload i b u res w1)
    from upload_ok [OF wok at [OF upload(2,3)] upload(4,5)] at [OF upload(2,3)] fl upload(1) buf show ?thesis
      by (auto simp: mgr_wf_def dest!: set_update_subset_insert [THEN subsetD])
  next
    case (commit i b)
    with wok buf fl show ?thesis
      by (auto simp: mgr_wf_def drop_nth_def dest!: in_set_takeD in_set_dropD)
  next
    case (requeue i b now)
    then have "\<forall>r \<in> set b. mc_record M r" using at by (simp add: batch_ok_def)
    with requeue wok buf fl show ?thesis
      by (auto simp: mgr_wf_def drop_nth_def dest!: in_set_takeD in_set_dropD)
  next
    case (other w1)
    with other_ok [OF wok other(2)] buf fl show ?thesis by (simp add: mgr_wf_def)
  next
    case (restart w1 s)
    have "\<forall>b \<in> set (uploading w). batch_ok M b" using fl by (auto simp: uploading_def)
    with mgr_wf_start [OF wok _ restart(2)] restart_ok [OF wok _ restart(2)] restart(1) show ?thesis by simp
  qed
qed

lemma mgr_wf_steps:
  "mgr_steps M w w' \<Longrightarrow> mgr_wf w \<Longrightarrow> mgr_wf w' \<and> durable (mg_world w) \<subseteq> durable (mg_world w')"
  by (induction rule: rtranclp_induct) (auto dest: mgr_wf_step)

lemma mgr_wf_reachable: "mgr_reachable M w0 w \<Longrightarrow> wok w0 \<Longrightarrow> mgr_wf w"
  by (induction rule: mgr_reachable.induct) (auto intro: mgr_wf_start [of _ "[]"] dest: mgr_wf_step)

text \<open>
  The invariant with at most one seal in flight: what was accepted is durable or pending; pending
  records lie above the committed offset of their source, and the open buffer above the batch in
  flight; the received offsets bound all of them.
\<close>

definition mgr_inv :: "'w mgr \<Rightarrow> bool" where
  "mgr_inv w \<longleftrightarrow> wok (mg_world w) \<and> length (mg_flight w) \<le> 1 \<and>
     mg_accepted w \<subseteq> durable (mg_world w) \<union> pending w \<and>
     (\<forall>(b, q) \<in> set (mg_flight w). q = Some True \<longrightarrow> set b \<subseteq> durable (mg_world w)) \<and>
     (\<forall>r \<in> set (sp_buf (mg_spool w)) \<union> in_flight w. seen_below (mg_spool w) r) \<and>
     (\<forall>r \<in> set (sp_buf (mg_spool w)). \<forall>q \<in> in_flight w. rec_key q = rec_key r \<longrightarrow> rec_Offset q < rec_Offset r) \<and>
     (\<forall>r \<in> pending w. \<forall>v. sp_committed (mg_spool w) (rec_key r) = Some v \<longrightarrow> v < rec_Offset r) \<and>
     (\<forall>k v. sp_committed (mg_spool w) k = Some v \<longrightarrow> (\<exists>u. sp_received (mg_spool w) k = Some u \<and> v \<le> u))"

lemma flight_cases:
  assumes "length xs \<le> 1" and "i < length xs" and "xs ! i = x"
  shows "xs = [x]" and "i = 0"
  using assms by (cases xs; auto)+

lemma mgr_inv_start:
  assumes "wok w" and "\<forall>b \<in> set bs. batch_ok M b" and "mc_restart M bs w (w1, s)"
  shows "mgr_inv \<lparr>mg_spool = s, mg_hub = h, mg_world = w1, mg_flight = [], mg_accepted = {}\<rparr>"
  using restart_ok [OF assms] by (simp add: mgr_inv_def pending_def in_flight_def)

lemma mgr_inv_acked:
  assumes "mgr_inv w" and "r \<in> mg_accepted w" and "acked (mg_spool w) r"
  shows "r \<in> durable (mg_world w)"
proof (rule ccontr)
  assume "r \<notin> durable (mg_world w)"
  with assms have "r \<in> pending w" by (auto simp: mgr_inv_def)
  with assms(1) have "\<forall>v. sp_committed (mg_spool w) (rec_key r) = Some v \<longrightarrow> v < rec_Offset r"
    by (auto simp: mgr_inv_def)
  with assms(3) show False by (auto simp: acked_def Committed_def split: option.splits)
qed

lemma mgr_inv_accept:
  assumes inv: "mgr_inv w" and new: "\<not> duplicate r (mg_spool w)"
  shows "mgr_inv (w\<lparr>mg_spool := accept_new now r (mg_spool w), mg_hub := h, mg_accepted := insert r (mg_accepted w)\<rparr>)"
    (is "mgr_inv ?w")
proof -
  let ?s = "mg_spool w" and ?s' = "accept_new now r (mg_spool w)"
  have sel: "sp_buf ?s' = sp_buf ?s @ [r]" "sp_received ?s' = (sp_received ?s)(rec_key r \<mapsto> rec_Offset r)"
    "sp_committed ?s' = sp_committed ?s" by (simp_all add: accept_new_def)
  have below: "rec_Offset q < rec_Offset r" if "seen_below ?s q" "rec_key q = rec_key r" for q
    using that new by (auto simp: seen_below_def duplicate_def)
  have keep: "seen_below ?s' q" if "seen_below ?s q" for q
    using that below [OF that] by (auto simp: seen_below_def sel less_imp_le)
  have self: "seen_below ?s' r" by (simp add: seen_below_def sel)
  have pend: "pending ?w = insert r (pending w)" and fl: "in_flight ?w = in_flight w"
    by (auto simp: pending_def in_flight_def sel)
  have com: "v < rec_Offset r" if "sp_committed ?s (rec_key r) = Some v" for v
  proof -
    from inv that obtain u where "sp_received ?s (rec_key r) = Some u" "v \<le> u" unfolding mgr_inv_def by blast
    with new show ?thesis by (auto simp: duplicate_def)
  qed
  then have "\<exists>u. sp_received ?s' k = Some u \<and> v \<le> u" if "sp_committed ?s k = Some v" for k v
    using inv that unfolding mgr_inv_def sel by (cases "k = rec_key r") (auto simp: less_imp_le)
  with inv keep self below com show ?thesis
    unfolding mgr_inv_def pend fl by (auto simp: sel)
qed

lemma mgr_inv_take:
  assumes inv: "mgr_inv w" and one: "mg_flight w = []" and t: "seal_take (mg_spool w) = (taken, s)"
  shows "mgr_inv (w\<lparr>mg_spool := s, mg_flight := mg_flight w @ [(mc_sort M taken, None)]\<rparr>)"
proof -
  from t have s: "taken = sp_buf (mg_spool w)" "sp_buf s = []" "sp_received s = sp_received (mg_spool w)"
    "sp_committed s = sp_committed (mg_spool w)" by (auto simp: seal_take_def)
  then show ?thesis
    using inv one sort_set [of "mg_world w"] unfolding mgr_inv_def pending_def in_flight_def seen_below_def by simp
qed

lemma mgr_inv_upload:
  assumes inv: "mgr_inv w" and fl: "mg_flight w = [(b, None)]"
    and up: "batch_ok M b" "mc_allowed M u b (mg_world w)" "mc_upload M u b (mg_world w) = (res, w1)"
  shows "mgr_inv (w\<lparr>mg_world := w1, mg_flight := [(b, Some (res = None))]\<rparr>)"
proof -
  from inv have "wok (mg_world w)" by (simp add: mgr_inv_def)
  from upload_ok [OF this up] have "wok w1" "durable (mg_world w) \<subseteq> durable w1" "res = None \<longrightarrow> set b \<subseteq> durable w1"
    by auto
  with inv fl show ?thesis unfolding mgr_inv_def pending_def in_flight_def by auto
qed

lemma mgr_inv_commit:
  assumes inv: "mgr_inv w" and fl: "mg_flight w = [(b, Some True)]"
  shows "mgr_inv (w\<lparr>mg_spool := seal_commit (max_offsets b) (mg_spool w), mg_flight := []\<rparr>)"
proof -
  let ?s = "mg_spool w" and ?c = "sp_committed (seal_commit (max_offsets b) (mg_spool w))"
  from inv fl have newer: "\<forall>r \<in> set (sp_buf ?s). \<forall>q \<in> set b. rec_key q = rec_key r \<longrightarrow> rec_Offset q < rec_Offset r"
    and seen: "\<forall>q \<in> set b. seen_below ?s q" by (auto simp: mgr_inv_def in_flight_def)
  have "v < rec_Offset r" if r: "r \<in> set (sp_buf ?s)" and c: "?c (rec_key r) = Some v" for r v
    using seal_commit_mem [OF c] newer inv r by (auto simp: mgr_inv_def pending_def fl)
  moreover have "\<exists>u. sp_received ?s k = Some u \<and> v \<le> u" if c: "?c k = Some v" for k v
    using seal_commit_mem [OF c] seen inv by (auto simp: mgr_inv_def seen_below_def)
  ultimately show ?thesis
    using inv fl unfolding mgr_inv_def pending_def in_flight_def by (auto simp: seen_below_def)
qed

lemma mgr_inv_requeue:
  assumes inv: "mgr_inv w" and fl: "mg_flight w = [(b, Some False)]"
  shows "mgr_inv (w\<lparr>mg_spool := requeue now b (mg_spool w), mg_flight := []\<rparr>)"
  using inv fl unfolding mgr_inv_def pending_def in_flight_def by (auto simp: seen_below_def)

lemma mgr_inv_world:
  assumes "mgr_inv w" and "wok w1" and "durable (mg_world w) \<subseteq> durable w1"
  shows "mgr_inv (w\<lparr>mg_world := w1\<rparr>)"
proof -
  have "\<forall>(b, q) \<in> set (mg_flight w). q = Some True \<longrightarrow> set b \<subseteq> durable w1"
    using assms(1,3) unfolding mgr_inv_def by fast
  with assms show ?thesis unfolding mgr_inv_def pending_def in_flight_def by auto
qed

lemma mgr_inv_step:
  assumes "mgr_step M w w'" and inv: "mgr_inv w" and wf: "mgr_wf w" and one: "mc_seals M = 1"
  shows "mgr_inv w'"
  using assms(1)
proof cases
  case (accept rt ids now r s h)
  show ?thesis
  proof (cases "duplicate r (mg_spool w)")
    case True
    with accept inv show ?thesis by (simp add: Accept_def mgr_inv_def pending_def in_flight_def)
  next
    case False
    with accept have "s = accept_new now r (mg_spool w)" by (auto simp: Accept_def split: option.splits)
    with accept False mgr_inv_accept [OF inv False] show ?thesis by simp
  qed
next
  case (take taken s)
  with inv one mgr_inv_take [OF inv _ take(4)] show ?thesis by simp
next
  case (upload i b u res w1)
  have len: "length (mg_flight w) \<le> 1" using inv by (simp add: mgr_inv_def)
  have "batch_ok M b" using wf flight_cases(1) [OF len upload(2,3)] by (simp add: mgr_wf_def)
  from mgr_inv_upload [OF inv _ this upload(4,5)] flight_cases [OF len upload(2,3)] upload(1) show ?thesis by simp
next
  case (commit i b)
  have len: "length (mg_flight w) \<le> 1" using inv by (simp add: mgr_inv_def)
  from flight_cases [OF len commit(2,3)] mgr_inv_commit [OF inv] commit(1) show ?thesis by (simp add: drop_nth_def)
next
  case (requeue i b now)
  have len: "length (mg_flight w) \<le> 1" using inv by (simp add: mgr_inv_def)
  from flight_cases [OF len requeue(2,3)] mgr_inv_requeue [OF inv] requeue(1) show ?thesis by (simp add: drop_nth_def)
next
  case (other w1)
  have "wok (mg_world w)" using inv by (simp add: mgr_inv_def)
  from other_ok [OF this other(2)] mgr_inv_world [OF inv] other(1) show ?thesis by simp
next
  case (restart w1 s)
  have "wok (mg_world w)" using inv by (simp add: mgr_inv_def)
  moreover have "\<forall>b \<in> set (uploading w). batch_ok M b" using wf by (auto simp: mgr_wf_def uploading_def)
  ultimately show ?thesis using mgr_inv_start [OF _ _ restart(2)] restart(1) by simp
qed

lemma mgr_reachable_inv: "mgr_reachable M w0 w \<Longrightarrow> wok w0 \<Longrightarrow> mc_seals M = 1 \<Longrightarrow> mgr_inv w"
  by (induction rule: mgr_reachable.induct) (auto intro: mgr_inv_start [of _ "[]"] mgr_inv_step mgr_wf_reachable)

text \<open>
  An acknowledged record is durable from then on, across restarts.
\<close>

lemma acked_durable:
  assumes "wok w0" and "mc_seals M = 1" and "mgr_reachable M w0 w" and "r \<in> mg_accepted w"
    and "acked (mg_spool w) r" and "mgr_steps M w w'"
  shows "r \<in> durable (mg_world w')"
proof -
  have inv: "mgr_inv w" by (rule mgr_reachable_inv [OF assms(3,1,2)])
  from mgr_wf_steps [OF assms(6) mgr_wf_reachable [OF assms(3,1)]] mgr_inv_acked [OF inv assms(4,5)]
  show ?thesis by blast
qed

end

end
