(* ===== verification/Durability.thy ===== *)
theory Durability
  imports StoreSamples
begin

text \<open>
  What the store promises to the manager: sealed segments survive restarts, the watermarks are
  those of the catalog, the catalog lists segments by time, and what happens to a segment that
  does not fit the cache.
\<close>


section \<open>The production store\<close>

text \<open>The store over S3, with its invariant.\<close>

abbreviation s3_env :: "('c, 'd) env \<Rightarrow> ('c, 'u) s3_client \<Rightarrow> ('c, 'd) env" where
  "s3_env E K \<equiv> E\<lparr>env_B := S3Blobs K\<rparr>"

abbreviation catalog_metas :: "('s, 'd) env \<Rightarrow> ('s, 'd) store \<Rightarrow> segment_meta list" where
  "catalog_metas E st \<equiv> cat_metas (env_D E) (env_M E) (st_cat st)"

definition s3_inv ::
  "('c, 'd) env \<Rightarrow> ('c, 'u) s3_client \<Rightarrow> ('c \<Rightarrow> string \<rightharpoonup> string) \<Rightarrow> ('u \<Rightarrow> string) \<Rightarrow>
    ('c \<Rightarrow> 'u \<Rightarrow> string option) \<Rightarrow> (segment_meta \<Rightarrow> bool) \<Rightarrow> ('c, 'd) store \<Rightarrow> bool" where
  "s3_inv E K bucket key_of staged good =
     store_inv (s3_env E K) (\<lambda>c. s3_ok K bucket key_of staged) bucket (cat_ok (env_D E) (env_M E) good) good
       (cat_metas (env_D E) (env_M E))"

text \<open>A new store over an existing bucket starts with an empty catalog.\<close>

lemma Store_Open_empty:
  assumes "Store_Open E s None F = Inr st" and "bolt_ok (env_D E)"
  shows "st_blobs st = s" and "db_scan (env_D E) (st_cat st) = []"
  using assms by (auto simp: Store_Open_def openCatalog_def bolt_ok_def Let_def split: option.splits)

lemma s3_inv_reopen:
  assumes inv: "s3_inv E K bucket key_of staged good st"
    and op: "Store_Open (s3_env E K) (st_blobs st) None F = Inr st'"
  shows "s3_inv E K bucket key_of staged good st' \<and> st_blobs st' = st_blobs st \<and> catalog_metas E st' = []"
proof -
  from inv have ok: "cat_ok (env_D E) (env_M E) good (st_cat st)" by (simp add: s3_inv_def store_inv_def)
  then have "bolt_ok (env_D (s3_env E K))" by (simp add: cat_ok_def)
  from Store_Open_empty [OF op this] have st': "st_blobs st' = st_blobs st" "db_scan (env_D E) (st_cat st') = []"
    by simp_all
  with inv ok show ?thesis by (simp add: s3_inv_def store_inv_def cat_ok_def cat_metas_def)
qed

text \<open>
  The catalog file that a restarted process finds: none when the disk was lost with the pod, or the
  database as the killed process left it.
\<close>

definition catalog_file :: "'d bolt \<Rightarrow> 'd \<Rightarrow> string option \<Rightarrow> bool" where
  "catalog_file D d f \<longleftrightarrow> f = None \<or> (\<exists>b. f = Some b \<and> db_dump D d = Inr b)"

lemma s3_inv_restarted:
  assumes inv: "s3_inv E K bucket key_of staged good st" and f: "catalog_file (env_D E) (st_cat st) f"
    and op: "Store_Open (s3_env E K) (st_blobs st) f F = Inr st'"
  shows "s3_inv E K bucket key_of staged good st' \<and> st_blobs st' = st_blobs st"
proof (cases f)
  case None
  with s3_inv_reopen [OF inv, of F st'] op show ?thesis by simp
next
  case (Some b)
  with f have b: "db_dump (env_D E) (st_cat st) = Inr b" by (simp add: catalog_file_def)
  from inv have ok: "cat_ok (env_D E) (env_M E) good (st_cat st)" by (simp add: s3_inv_def store_inv_def)
  then obtain d where d: "db_open (env_D E) (Some b) = Inr d" "db_scan (env_D E) d = db_scan (env_D E) (st_cat st)"
    using b unfolding cat_ok_def bolt_ok_def by blast
  with op Some have "st_blobs st' = st_blobs st" "st_cat st' = d"
    by (auto simp: Store_Open_def openCatalog_def Let_def split: option.splits sum.splits)
  with inv ok d(2) show ?thesis by (simp add: s3_inv_def store_inv_def cat_ok_def cat_metas_def)
qed

lemma s3_seal:
  assumes "s3_inv E K bucket key_of staged good st" and "plain_id k"
    and "fresh_id (s3_env E K) (bucket (st_blobs st)) k" and "good (keyed (s3_env E K) k meta)"
    and "Store_Seal (s3_env E K) lp k meta st = (r, st1)"
  shows "s3_inv E K bucket key_of staged good st1"
    and "sealed_in (s3_env E K) (bucket (st_blobs st)) x \<Longrightarrow> sealed_in (s3_env E K) (bucket (st_blobs st1)) x"
    and "r = Inr m \<Longrightarrow> sealed_in (s3_env E K) (bucket (st_blobs st1)) m \<and>
      bucket (st_blobs st1) (sm_S3Key m) = st_fs st lp"
  using s3_store.Store_Seal_inv [OF assms(1) [unfolded s3_inv_def] assms(2-5)] by (auto simp: s3_inv_def)

lemma s3_recover:
  assumes "s3_inv E K bucket key_of staged good st" and "Recover (s3_env E K) tmp st = (r, st1)"
  shows "s3_inv E K bucket key_of staged good st1" and "bucket (st_blobs st1) = bucket (st_blobs st)"
    and "r = None \<Longrightarrow> sealed_in (s3_env E K) (bucket (st_blobs st)) m \<Longrightarrow>
      sm_S3Key m @ metaSuffix \<notin> set (Recover_skips (s3_env E K) tmp st) \<Longrightarrow> \<exists>x \<in> set (catalog_metas E st1). no_path x = no_path m"
  using s3_store.Recover_inv [OF assms(1) [unfolded s3_inv_def] assms(2)] by (auto simp: s3_inv_def)



section \<open>The order of the catalog\<close>

lemma be_get_Cons: "be_get (c # cs) = of_char c * 256 ^ length cs + be_get cs"
proof (induction cs rule: rev_induct)
  case (snoc x xs)
  have "be_get (c # xs @ [x]) = 256 * be_get (c # xs) + of_char x" using be_get_snoc [of "c # xs" x] by simp
  with snoc show ?case by (simp add: algebra_simps)
qed (simp add: be_get_def)

lemma be_get_less: "be_get cs < 256 ^ length cs"
proof (induction cs rule: rev_induct)
  case (snoc x xs)
  have "(of_char x :: nat) < 256" by (cases x) (simp add: of_char_def)
  then have "be_get (xs @ [x]) < 256 * be_get xs + 256" by simp
  also have "\<dots> \<le> 256 * 256 ^ length xs" using snoc by (simp flip: mult_Suc_right)
  finally show ?case by simp
qed simp

text \<open>The byte order of big-endian numbers is their order.\<close>

lemma be_get_mono:
  "length xs = length ys \<Longrightarrow> string_less (xs @ u) (ys @ v) \<Longrightarrow> be_get xs \<le> be_get ys"
proof (induction xs ys rule: list_induct2)
  case (Cons x xs y ys)
  show ?case
  proof (cases "x = y")
    case True
    with Cons show ?thesis by (simp add: be_get_Cons)
  next
    case False
    with Cons.prems have "Suc (of_char x :: nat) \<le> of_char y" by simp
    then have "Suc (of_char x) * 256 ^ length ys \<le> of_char y * 256 ^ length ys" by (intro mult_right_mono) simp_all
    moreover have "be_get xs < 256 ^ length ys" using be_get_less [of xs] Cons.hyps by simp
    ultimately show ?thesis using Cons.hyps by (simp add: be_get_Cons)
  qed
qed simp

lemma segKey_order:
  assumes "string_less (segKey a i) (segKey b j)" and "0 \<le> a" "a < 2 ^ 63" and "0 \<le> b" "b < 2 ^ 63"
  shows "a \<le> b"
proof -
  from assms have "get_int64 (put_int64 a) = a" "get_int64 (put_int64 b) = b"
    by (simp_all add: get_put_int64 in_int64_nonneg)
  moreover have "be_get (put_int64 a) \<le> be_get (put_int64 b)"
    using assms by (intro be_get_mono) (simp_all add: segKey_def unix_nano_def in_int64_nonneg)
  moreover have "be_get (put_int64 x) = nat x" if "0 \<le> x" "x < 2 ^ 63" for x
    using that by (simp add: put_int64_def be_get_put)
  ultimately show ?thesis using assms by simp
qed

lemma sorted_wrt_filter_map:
  "sorted_wrt R (map f xs) \<Longrightarrow> (\<And>x y. x \<in> set xs \<Longrightarrow> y \<in> set xs \<Longrightarrow> R (f x) (f y) \<Longrightarrow> Q x y) \<Longrightarrow>
    sorted_wrt Q (filter P xs)"
  by (induction xs) auto


section \<open>Properties\<close>

text \<open>
  C5: a sealed segment survives the loss of the manager's disk.  Whatever a call to \<open>Seal\<close> returned,
  take a store opened on an empty directory over the same bucket, on which \<open>Recover\<close> has returned
  without an error.  Every segment that was sealed before the call, and the one of the call if it
  succeeded, is still sealed in the bucket, that of the call with the body that was in its file; and
  the catalog lists it, unless \<open>Recover\<close> asked for its sidecar and \<open>isS3NotFound\<close> took the answer for
  a missing object.
\<close>

theorem sealed_segments_survive_restart:
  assumes "s3_inv E K bucket key_of staged good st" and "plain_id k"
    and "fresh_id (s3_env E K) (bucket (st_blobs st)) k" and "good (keyed (s3_env E K) k meta)"
    and "Store_Seal (s3_env E K) lp k meta st = (r, st1)"
    and "Store_Open (s3_env E K) (st_blobs st1) None F = Inr st2"
    and "Recover (s3_env E K) tmp st2 = (None, st3)"
  shows "(\<forall>x. sealed_in (s3_env E K) (bucket (st_blobs st)) x \<or> r = Inr x \<longrightarrow>
      sealed_in (s3_env E K) (bucket (st_blobs st3)) x \<and>
      ((\<exists>y \<in> set (catalog_metas E st3). no_path y = no_path x) \<or>
       sm_S3Key x @ metaSuffix \<in> set (Recover_skips (s3_env E K) tmp st2))) \<and>
    (\<forall>m. r = Inr m \<longrightarrow> bucket (st_blobs st3) (sm_S3Key m) = st_fs st lp)"
proof -
  note seal = s3_seal [OF assms(1-5)]
  note reopened = s3_inv_reopen [OF seal(1) assms(6)]
  note rec = s3_recover [OF reopened [THEN conjunct1] assms(7)]
  have b: "bucket (st_blobs st3) = bucket (st_blobs st1)" using rec(2) reopened by simp
  have "(\<exists>y \<in> set (catalog_metas E st3). no_path y = no_path x) \<or>
      sm_S3Key x @ metaSuffix \<in> set (Recover_skips (s3_env E K) tmp st2)"
    if "sealed_in (s3_env E K) (bucket (st_blobs st1)) x" for x
    using rec(3) [OF refl, of x] that reopened by auto
  with seal(2,3) b show ?thesis by auto
qed

theorem sealed_segments_survive_restart_witness:
  "\<exists>m st1 st2 st3. let E = sample_env (sample_keyed empty_meta) in
    Store_Seal E sample_lp ''A'' empty_meta (sample_store ''body'') = (Inr m, st1) \<and>
    Store_Open E (st_blobs st1) None Map.empty = Inr st2 \<and> Recover E ''/tmp'' st2 = (None, st3) \<and>
    (\<exists>y \<in> set (catalog_metas E st3). no_path y = no_path m)"
proof -
  let ?E = "sample_env (sample_keyed empty_meta)"
  obtain m st1 where seal: "Store_Seal ?E sample_lp ''A'' empty_meta (sample_store ''body'') = (Inr m, st1)"
    using sample_seal [OF sample_store_sel(1)] by blast
  obtain st2 where op: "Store_Open ?E (st_blobs st1) None Map.empty = Inr st2" "st_blobs st2 = st_blobs st1" "st_cat st2 = []"
    using sample_reopen by blast
  have "fst (Recover ?E ''/tmp'' st2) = None" and skips: "Recover_skips ?E ''/tmp'' st2 = []"
    using sample_recover [of st2 empty_meta _ "''/tmp''"] sample_seal_bucket [OF seal] op by simp_all
  then obtain st3 where rec: "Recover ?E ''/tmp'' st2 = (None, st3)" by (metis prod.collapse)
  have "s3_inv ?E sample_s3 sample_bucket (\<lambda>k. k) sample_staged (sample_meta_good empty_meta) (sample_store ''body'')"
    using sample_store_inv by (simp add: s3_inv_def)
  from sealed_segments_survive_restart [OF this sample_plain, unfolded sample_env_B, OF sample_fresh _ seal op(1) rec] skips
  have "\<exists>y \<in> set (catalog_metas ?E st3). no_path y = no_path m" by (simp add: same_meta_def)
  with seal op rec show ?thesis unfolding Let_def by blast
qed

text \<open>
  C21: the watermark of a source is the greatest offset any cataloged segment holds for it, and 0
  without one.
\<close>

theorem watermarks_are_maxima:
  assumes "s3_inv E K bucket key_of staged good st"
  shows "\<exists>w. SourceWatermarks (s3_env E K) st = Inr w \<and>
    get0 w src = Max (insert 0 ((\<lambda>m. get0 (sm_SourceOffsets m) src) ` set (catalog_metas E st)))"
proof -
  let ?f = "\<lambda>m. get0 (sm_SourceOffsets m) src" and ?ms = "catalog_metas E st"
  have fold: "foldr (\<lambda>m v. max (?f m) v) ms 0 = Max (insert 0 (?f ` set ms))" for ms
  proof (induction ms)
    case (Cons m ms)
    have "insert 0 (?f ` set (m # ms)) = insert (?f m) (insert 0 (?f ` set ms))" by auto
    with Cons show ?case by (simp only: foldr.simps comp_apply Max_insert finite_insert finite_imageI List.finite_set
          insert_not_empty not_False_eq_True)
  qed simp
  have "SourceWatermarks (s3_env E K) st = Inr (fold merge_offsets ?ms Map.empty)"
    using s3_store.SourceWatermarks_entries [OF assms [unfolded s3_inv_def]] .
  then show ?thesis by (simp add: watermarks_max fold)
qed

theorem watermarks_are_maxima_witness:
  "\<exists>w. SourceWatermarks (sample_env (sample_keyed empty_meta)) (sample_store ''body'') = Inr w \<and> get0 w ''src'' = 0"
proof -
  have "s3_inv (sample_env (sample_keyed empty_meta)) sample_s3 sample_bucket (\<lambda>k. k) sample_staged
      (sample_meta_good empty_meta) (sample_store ''body'')"
    using sample_store_inv by (simp add: s3_inv_def)
  from watermarks_are_maxima [OF this, of "''src''"] show ?thesis
    by (simp add: sample_store_def cat_metas_def sample_bolt_def)
qed

text \<open>
  The id of a segment can be read back from its object key, for ids without a dash and
  without a slash, as ULIDs are: recovery finds the segment of a sidecar from the name alone.
\<close>

theorem segment_id_from_key:
  assumes "plain_id (sm_ID m)"
  shows "idFromSegKey (segKeyFor E m) = sm_ID m \<and>
    idFromSegKey (trim_suffix (segKeyFor E m @ metaSuffix) metaSuffix) = sm_ID m"
  using assms idFromSegKey_segKeyFor [of m E] by (simp add: plain_id_def)

theorem segment_id_from_key_witness:
  "idFromSegKey (segKeyFor (sample_env empty_meta) (empty_meta\<lparr>sm_ID := ''01HQ''\<rparr>)) = ''01HQ''"
proof -
  have "plain_id (sm_ID (empty_meta\<lparr>sm_ID := ''01HQ''\<rparr>))" by (simp add: plain_id_def)
  from segment_id_from_key [OF this] show ?thesis by simp
qed

text \<open>
  C22: the catalog lists the segments of a window in the order of their start times, as long as
  those lie between 1970 and 2262: the key of an entry is the start time as an unsigned number.
\<close>

theorem overlapping_in_start_order:
  assumes "cat_ok D M good d" and "\<forall>m \<in> set (cat_metas D M d). 0 \<le> sm_MinTS m \<and> sm_MinTS m < 2 ^ 63"
  shows "\<exists>ms. cat_overlapping D M start stop d = Inr ms \<and>
    ms = filter (\<lambda>m. segment_overlaps m start stop) (cat_metas D M d) \<and>
    sorted_wrt (\<lambda>a b. sm_MinTS a \<le> sm_MinTS b) ms"
proof (intro exI conjI)
  let ?ms = "filter (\<lambda>m. segment_overlaps m start stop) (cat_metas D M d)"
  show "cat_overlapping D M start stop d = Inr ?ms"
    using overlapping_loop_ok assms(1) by (auto simp: cat_overlapping_def cat_ok_def cat_metas_def)
  have "map meta_key (cat_metas D M d) = map fst (db_scan D d)"
    using assms(1) by (auto simp: cat_metas_def cat_ok_def dest: entry_ok_key)
  then have "sorted_wrt string_less (map meta_key (cat_metas D M d))"
    using assms(1) by (simp add: cat_ok_def bolt_ok_def)
  then show "sorted_wrt (\<lambda>a b. sm_MinTS a \<le> sm_MinTS b) ?ms"
    by (rule sorted_wrt_filter_map) (use assms(2) segKey_order in \<open>auto simp: meta_key_def\<close>)
qed (rule refl)

theorem overlapping_in_start_order_witness:
  "\<exists>ms. cat_overlapping sample_bolt (sample_meta_codec (sample_keyed (empty_meta\<lparr>sm_MinTS := 7\<rparr>))) 0 9
      (snd (cat_put sample_bolt (sample_meta_codec (sample_keyed (empty_meta\<lparr>sm_MinTS := 7\<rparr>)))
        (sample_keyed (empty_meta\<lparr>sm_MinTS := 7\<rparr>)) [])) = Inr ms \<and> sorted_wrt (\<lambda>a b. sm_MinTS a \<le> sm_MinTS b) ms"
proof -
  let ?m = "sample_keyed (empty_meta\<lparr>sm_MinTS := 7\<rparr>)" let ?M = "sample_meta_codec ?m"
  obtain d where d: "cat_put sample_bolt ?M ?m [] = (None, d)"
    by (simp add: cat_put_def sample_bolt_def sample_meta_codec_def)
  note put = cat_put_None [OF sample_cat_ok _ d]
  have g: "same_meta ?m ?m" by (simp add: same_meta_def)
  have "sm_MinTS ?m = 7" by (simp add: sample_keyed_def keyed_def)
  with put(2) have "\<forall>m \<in> set (cat_metas sample_bolt ?M d). 0 \<le> sm_MinTS m \<and> sm_MinTS m < 2 ^ 63"
    using g sample_cat_ok [of ?m] by (auto simp: cat_metas_def sample_bolt_def)
  from overlapping_in_start_order [OF put(1) this] g sample_cat_ok d show ?thesis by auto
qed

text \<open>
  C23: a segment larger than the whole cache cannot be read.  \<open>ensureLocal\<close> downloads it, but its
  own admission evicts it and removes the file it has just written, so opening that file fails;
  every query over the segment ends with the error.
\<close>

theorem oversized_segment_unreadable:
  assumes "cache_ok (st_cache st)" and "0 \<le> dc_maxByte (st_cache st)" and "dc_maxByte (st_cache st) < int (length body)"
    and "fst (touch (sm_ID m) (st_cache st)) = None" and "bl_Get (env_B E) (sm_S3Key m) (st_blobs st) = (Inr body, s')"
    and "files_serve E"
  shows "fst (Store_Reader E m st) = Inl (OtherError ''no such file'')"
proof -
  let ?c = "st_cache st" let ?p = "pathFor ?c (sm_ID m)"
  obtain c1 F1 where a: "admit (sm_ID m) (int (length body)) ?c ((st_fs st)(?p \<mapsto> body)) = (c1, F1)"
    by (cases "admit (sm_ID m) (int (length body)) ?c ((st_fs st)(?p \<mapsto> body))")
  have t: "touch (sm_ID m) ?c = (None, ?c)"
    using assms(4) by (cases "cached ?c (sm_ID m)") (simp_all add: touch_def)
  obtain left where w: "os_write (env_os E) ?p body = (None, left)"
    using assms(6) unfolding files_serve_def by (metis prod.collapse)
  have e: "ensureLocal E m st = (Inr ?p, st\<lparr>st_blobs := s', st_cache := c1, st_fs := F1\<rparr>)"
    using t assms(5) w a by (simp add: ensureLocal_def Let_def)
  have "F1 ?p = None"
    using admit_oversized(2) [OF assms(1-3), of "sm_ID m" "(st_fs st)(?p \<mapsto> body)"] a by simp
  then show ?thesis using assms(6) e by (simp add: Store_Reader_def file_read_def files_serve_def)
qed

theorem oversized_segment_unreadable_witness:
  "fst (Store_Reader (sample_env empty_meta) (empty_meta\<lparr>sm_ID := ''A'', sm_S3Key := ''k''\<rparr>)
     \<lparr>st_blobs = ([(''k'', ''12345'')], []), st_cat = [],
      st_cache = \<lparr>dc_dir = ''/c'', dc_maxByte = 4, dc_ll = [], dc_curByt = 0\<rparr>, st_fs = Map.empty\<rparr>)
   = Inl (OtherError ''no such file'')"
  by (rule oversized_segment_unreadable [where body = "''12345''" and s' = "([(''k'', ''12345'')], [])"])
    (simp_all add: cache_ok_def touch_def cached_def S3Blobs_def S3_Get_def sample_s3_def files_serve_def sample_os_def)

end
