(* ===== verification/ManagerStore.thy ===== *)
theory ManagerStore
  imports ManagerRun Durability
begin

text \<open>
  The manager over the production store: the contract \<open>batch_store\<close> of the manager's machine
  discharged for segments written by the segment writer and sealed by \<open>Store.Seal\<close> to S3, with
  the process killed at any point of an upload and restarted by \<open>Open\<close>, \<open>Recover\<close> and
  \<open>NewSpool\<close>.
\<close>


section \<open>Durable records\<close>

text \<open>The records of the sealed segments: what a query can find after any crash.\<close>

definition durable_records :: "('s, 'd) env \<Rightarrow> (string \<rightharpoonup> string) \<Rightarrow> log_record set" where
  "durable_records E Ob =
     {r. \<exists>m b. sealed_in E Ob m \<and> Ob (sm_S3Key m) = Some b \<and> r \<in> set (seg_records (env_C E) b)}"

lemma durable_mono:
  assumes "\<And>m. sealed_in E Ob m \<Longrightarrow> sealed_in E Ob' m \<and> Ob' (sm_S3Key m) = Ob (sm_S3Key m)"
  shows "durable_records E Ob \<subseteq> durable_records E Ob'"
  using assms unfolding durable_records_def by fastforce

lemma durable_sealed:
  "sealed_in E Ob m \<Longrightarrow> Ob (sm_S3Key m) = Some b \<Longrightarrow> set (seg_records (env_C E) b) \<subseteq> durable_records E Ob"
  unfolding durable_records_def by blast

context durable_store
begin

text \<open>Neither write of a seal touches the objects of other segments.\<close>

lemma seal_key_other:
  assumes "plain_id k" and "fresh_id E Ob k" and m: "sealed_in E Ob m"
  shows "sm_S3Key m \<noteq> sm_S3Key (keyed E k meta)" and "sm_S3Key m \<noteq> sm_S3Key (keyed E k meta) @ metaSuffix"
proof -
  note kk = keyed_key [OF assms(1), of E meta]
  from kk(3) obtain j where j: "sm_S3Key (keyed E k meta) = j @ ''.seg''" by blast
  have "idFromSegKey (sm_S3Key (keyed E k meta)) \<noteq> sm_ID m"
    using assms(2) m unfolding fresh_id_def kk(1) by blast
  from sealed_in_ids [OF m j this] show "sm_S3Key m \<noteq> sm_S3Key (keyed E k meta)"
    and "sm_S3Key m \<noteq> sm_S3Key (keyed E k meta) @ metaSuffix" by auto
qed

text \<open>The store after the first write, and after both, whatever their outcomes.\<close>

lemma body_write:
  assumes inv: "inv st" and k: "plain_id k" and fresh: "fresh_id E (Obj st) k" and good: "good (keyed E k meta)"
    and b: "bl_PutReader (env_B E) (sm_S3Key (keyed E k meta)) (Inr body) (st_blobs st) = (r1, s1)"
  shows "inv (st\<lparr>st_blobs := s1\<rparr>)" and "durable_records E (Obj st) \<subseteq> durable_records E (objs s1)"
proof -
  note o = seal_objects [OF inv k fresh good b]
  show "inv (st\<lparr>st_blobs := s1\<rparr>)" using inv o(1-3) by (simp add: store_inv_def)
  have bok: "bok (st_blobs st)" using inv by (simp add: store_inv_def)
  show "durable_records E (Obj st) \<subseteq> durable_records E (objs s1)"
    using o(3) bl.putr_other [OF bok b] seal_key_other(1) [OF k fresh] by (intro durable_mono) simp
qed

lemma sidecar_write:
  assumes inv: "inv st" and k: "plain_id k" and fresh: "fresh_id E (Obj st) k" and good: "good (keyed E k meta)"
    and b: "bl_PutReader (env_B E) (sm_S3Key (keyed E k meta)) (Inr body) (st_blobs st) = (None, s1)"
    and sc: "enc_sidecar (env_M E) (keyed E k meta) = Inr sc"
    and p: "bl_Put (env_B E) (sm_S3Key (keyed E k meta) @ metaSuffix) sc s1 = (r2, s2)"
  shows "inv (st\<lparr>st_blobs := s2\<rparr>)" and "durable_records E (Obj st) \<subseteq> durable_records E (objs s2)"
proof -
  note o = seal_objects [OF inv k fresh good b]
  note o2 = o(5) [OF refl sc p]
  have keep: "sealed_in E (Obj st) m \<Longrightarrow> sealed_in E (objs s2) m" for m using o2 by blast
  show "inv (st\<lparr>st_blobs := s2\<rparr>)" using inv o2 keep by (simp add: store_inv_def)
  have bok: "bok (st_blobs st)" using inv by (simp add: store_inv_def)
  show "durable_records E (Obj st) \<subseteq> durable_records E (objs s2)"
    using keep bl.putr_other [OF bok b] bl.put_other [OF o(1) p] seal_key_other [OF k fresh]
    by (intro durable_mono) simp
qed

text \<open>Which blobs a call of \<open>Seal\<close> leaves: those before it, after one write, or after both.\<close>

lemma Store_Seal_durable:
  assumes inv: "inv st" and k: "plain_id k" and fresh: "fresh_id E (Obj st) k" and good: "good (keyed E k meta)"
    and seal: "Store_Seal E lp k meta st = (r, st')"
  shows "durable_records E (Obj st) \<subseteq> durable_records E (Obj st')"
proof (cases "file_read E lp (st_fs st)")
  case (Inl e)
  with seal show ?thesis by (auto simp: Store_Seal_def Let_def)
next
  case (Inr body)
  let ?m = "keyed E k meta"
  obtain r1 s1 where b: "bl_PutReader (env_B E) (sm_S3Key ?m) (Inr body) (st_blobs st) = (r1, s1)"
    by (cases "bl_PutReader (env_B E) (sm_S3Key ?m) (Inr body) (st_blobs st)")
  show ?thesis
  proof (cases "r1 \<noteq> None \<or> (\<exists>e. enc_sidecar (env_M E) ?m = Inl e)")
    case True
    then have "st_blobs st' = s1"
      using seal Inr b by (auto simp: Store_Seal_def Let_def keyed_def split: option.splits sum.splits)
    with body_write [OF inv k fresh good b] show ?thesis by simp
  next
    case False
    then obtain sc where r1: "r1 = None" and sc: "enc_sidecar (env_M E) ?m = Inr sc"
      by (cases "enc_sidecar (env_M E) ?m") auto
    obtain r2 s2 where p: "bl_Put (env_B E) (sm_S3Key ?m @ metaSuffix) sc s1 = (r2, s2)"
      by (cases "bl_Put (env_B E) (sm_S3Key ?m @ metaSuffix) sc s1")
    have "st_blobs st' = s2"
      using seal Inr b r1 sc p
      by (auto simp: Store_Seal_def Let_def keyed_def split: option.splits prod.splits)
    with sidecar_write(2) [OF inv k fresh good b [unfolded r1] sc p] show ?thesis by simp
  qed
qed

lemma Store_Snapshot_durable:
  assumes inv: "inv st" and sn: "Store_Snapshot E k st = (r, st')"
  shows "inv st'" and "durable_records E (Obj st) \<subseteq> durable_records E (Obj st')"
proof -
  from Store_Snapshot_inv [OF inv sn] show "inv st'" by blast
  have bok: "bok (st_blobs st)" using inv by (simp add: store_inv_def)
  have "Obj st' (sm_S3Key m) = Obj st (sm_S3Key m)" if m: "sealed_in E (Obj st) m" for m
  proof -
    have "sm_S3Key m \<noteq> snapPrefix E @ k @ ''.snap''"
      using m prefixes_differ [of "sm_S3Key m" E] by (auto simp: sealed_in_def)
    with sn bl.putr_other [OF bok] show ?thesis
      by (auto simp: Store_Snapshot_def split: sum.splits prod.splits)
  qed
  with Store_Snapshot_inv [OF inv sn] show "durable_records E (Obj st) \<subseteq> durable_records E (Obj st')"
    by (intro durable_mono) blast
qed

lemma Store_Reader_objects:
  assumes inv: "inv st" and rd: "Store_Reader E m st = (r, st')"
  shows "inv st' \<and> Obj st' = Obj st"
proof -
  obtain q st1 where e: "ensureLocal E m st = (q, st1)" by (cases "ensureLocal E m st")
  have "st_cat st1 = st_cat st \<and> (st_blobs st1 = st_blobs st \<or>
      (\<exists>x. bl_Get (env_B E) (sm_S3Key m) (st_blobs st) = (x, st_blobs st1)))"
    using e by (auto simp: ensureLocal_def Let_def split: prod.splits if_splits sum.splits option.splits)
  moreover have "st' = st1" using rd e by (auto simp: Store_Reader_def split: sum.splits)
  ultimately show ?thesis using inv bl.get_ok by (auto simp: store_inv_def)
qed

end


section \<open>The machine of the production manager\<close>

text \<open>
  The ULID of a seal is new and plain, and the file stays below the 2 GiB that the 32-bit fields of
  the format can describe (\<open>MaxSegBytes\<close> is 64 MiB by default).  \<open>good\<close> metadata are those JSON can
  represent.
\<close>

definition seal_allowed ::
  "('s, 'd) env \<Rightarrow> ('s \<Rightarrow> string \<rightharpoonup> string) \<Rightarrow> (segment_meta \<Rightarrow> bool) \<Rightarrow> seal_io \<Rightarrow> log_record list \<Rightarrow>
    ('s, 'd) store \<Rightarrow> bool" where
  "seal_allowed E objs good io b st \<longleftrightarrow>
     plain_id (io_id io) \<and> fresh_id E (objs (st_blobs st)) (io_id io) \<and> io_contract (io_writer io) \<and>
     (\<forall>meta body. write_segment (env_C E) (io_writer io) (unix_nano (io_now io)) b = Inr (meta, body) \<longrightarrow>
        length body < 2 ^ 31 \<and> good (keyed E (io_id io) meta))"

text \<open>
  What a process killed during an upload leaves in the object store: the state before it, after
  the write of the body, or after the write of the sidecar, each write done or not.
\<close>

definition torn_upload :: "('s, 'd) env \<Rightarrow> seal_io \<Rightarrow> log_record list \<Rightarrow> 's \<Rightarrow> 's \<Rightarrow> bool" where
  "torn_upload E io b s s' \<longleftrightarrow>
     (\<exists>meta body r1 s1. write_segment (env_C E) (io_writer io) (unix_nano (io_now io)) b = Inr (meta, body) \<and>
        bl_PutReader (env_B E) (sm_S3Key (keyed E (io_id io) meta)) (Inr body) s = (r1, s1) \<and>
        (s' = s1 \<or>
         (r1 = None \<and> (\<exists>sc r2. enc_sidecar (env_M E) (keyed E (io_id io) meta) = Inr sc \<and>
            bl_Put (env_B E) (sm_S3Key (keyed E (io_id io) meta) @ metaSuffix) sc s1 = (r2, s')))))"

text \<open>
  A start of the process on a bucket and a catalog as a killed one left them, with its disk or
  without.  A start that fails in \<open>Recover\<close> may leave more in the catalog of that disk, which is
  among the other activity.
\<close>

definition manager_restart ::
  "SpoolConfig \<Rightarrow> ('s, 'd) env \<Rightarrow> 'd \<Rightarrow> 's \<Rightarrow> ('s, 'd) store \<times> spool \<Rightarrow> bool" where
  "manager_restart cfg E d s0 = (\<lambda>(st, sp). \<exists>f F tmp st0. catalog_file (env_D E) d f \<and>
     Store_Open E s0 f F = Inr st0 \<and> Recover E tmp st0 = (None, st) \<and> NewSpool cfg E st = Inr sp)"

definition manager_machine ::
  "(log_record list \<Rightarrow> log_record list) \<Rightarrow> SpoolConfig \<Rightarrow> nat \<Rightarrow> ('s, 'd) env \<Rightarrow> ('s \<Rightarrow> string \<rightharpoonup> string) \<Rightarrow>
    (segment_meta \<Rightarrow> bool) \<Rightarrow> (log_record \<Rightarrow> bool) \<Rightarrow> (seal_io \<times> string, ('s, 'd) store) machine" where
  "manager_machine srt cfg n E objs good records = \<lparr>
     mc_upload = (\<lambda>(io, tmpPath) b st. seal_segment E io tmpPath b st),
     mc_allowed = (\<lambda>(io, tmpPath). seal_allowed E objs good io),
     mc_other = (\<lambda>st st'. (\<exists>k r. Store_Snapshot E k st = (r, st')) \<or> (\<exists>m r. Store_Reader E m st = (r, st')) \<or>
        (\<exists>tmp r. Recover E tmp st = (r, st'))),
     mc_restart = (\<lambda>bs st p. \<exists>s0. manager_restart cfg E (st_cat st) s0 p \<and> (s0 = st_blobs st \<or>
        (\<exists>io b. b \<in> set bs \<and> seal_allowed E objs good io b st \<and> torn_upload E io b (st_blobs st) s0))),
     mc_sort = srt, mc_record = records, mc_seals = n\<rparr>"

text \<open>
  The hypotheses on the packages: the codec of records and summaries, and sorting.
\<close>

definition manager_env_ok ::
  "(log_record list \<Rightarrow> log_record list) \<Rightarrow> ('s, 'd) env \<Rightarrow> (log_record \<Rightarrow> bool) \<Rightarrow> (string \<Rightarrow> bool) \<Rightarrow> bool" where
  "manager_env_ok srt E good_rec good_name \<longleftrightarrow> codec_ok (env_C E) good_rec good_name \<and> sort_slice_ok srt"

definition s3_wok ::
  "(log_record list \<Rightarrow> log_record list) \<Rightarrow> ('c, 'd) env \<Rightarrow> ('c, 'u) s3_client \<Rightarrow> ('c \<Rightarrow> string \<rightharpoonup> string) \<Rightarrow>
    ('u \<Rightarrow> string) \<Rightarrow> ('c \<Rightarrow> 'u \<Rightarrow> string option) \<Rightarrow> (log_record \<Rightarrow> bool) \<Rightarrow> (string \<Rightarrow> bool) \<Rightarrow>
    (segment_meta \<Rightarrow> bool) \<Rightarrow> ('c, 'd) store \<Rightarrow> bool" where
  "s3_wok srt E K bucket key_of staged good_rec good_name good st \<longleftrightarrow>
     s3_inv E K bucket key_of staged good st \<and> manager_env_ok srt (s3_env E K) good_rec good_name"

abbreviation s3_durable :: "('c, 'd) env \<Rightarrow> ('c, 'u) s3_client \<Rightarrow> ('c \<Rightarrow> string \<rightharpoonup> string) \<Rightarrow> ('c, 'd) store \<Rightarrow> log_record set" where
  "s3_durable E K bucket st \<equiv> durable_records (s3_env E K) (bucket (st_blobs st))"

lemma s3_inv_fs [simp]: "s3_inv E K bucket key_of staged good (st\<lparr>st_fs := F\<rparr>) = s3_inv E K bucket key_of staged good st"
  by (simp add: s3_inv_def store_inv_def)

lemma seal_segment_ok:
  assumes wok: "s3_wok srt E K bucket key_of staged gr gn good st"
    and b: "b \<noteq> []" "ts_sorted False b" "\<forall>r \<in> set b. storable gr gn r"
    and allowed: "seal_allowed (s3_env E K) bucket good io b st"
    and seal: "seal_segment (s3_env E K) io tmpPath b st = (res, st')"
  shows "s3_wok srt E K bucket key_of staged gr gn good st' \<and> s3_durable E K bucket st \<subseteq> s3_durable E K bucket st' \<and>
    (res = None \<longrightarrow> set b \<subseteq> s3_durable E K bucket st')"
proof (cases "io_create io = None \<and> io_close io = None \<and>
    (\<exists>x. write_segment (env_C E) (io_writer io) (unix_nano (io_now io)) b = Inr x)")
  case False
  then have "res \<noteq> None" "st' = st \<or> (\<exists>F. st' = st\<lparr>st_fs := F\<rparr>)"
    using seal by (cases "io_create io"; cases "io_close io"; auto simp: seal_segment_def split: sum.splits)+
  with wok show ?thesis by (auto simp: s3_wok_def)
next
  case True
  then obtain meta body where ws: "write_segment (env_C E) (io_writer io) (unix_nano (io_now io)) b = Inr (meta, body)"
    by auto
  let ?E = "s3_env E K" and ?k = "io_id io" and ?st = "st\<lparr>st_fs := (st_fs st)(tmpPath \<mapsto> body)\<rparr>"
  obtain r st1 where s1: "Store_Seal ?E tmpPath ?k meta ?st = (r, st1)"
    by (cases "Store_Seal ?E tmpPath ?k meta ?st")
  from wok have inv: "s3_inv E K bucket key_of staged good ?st" and env: "manager_env_ok srt ?E gr gn"
    by (simp_all add: s3_wok_def)
  from allowed have k: "plain_id ?k" "fresh_id ?E (bucket (st_blobs ?st)) ?k" and io: "io_contract (io_writer io)"
    and small: "length body < 2 ^ 31" using ws by (auto simp: seal_allowed_def)
  have good: "good (keyed ?E ?k meta)" using allowed ws by (auto simp: seal_allowed_def)
  have C: "codec_ok (env_C E) gr gn" using env by (simp add: manager_env_ok_def)
  note inv1 = s3_seal [OF inv k good s1]
  have dur: "s3_durable E K bucket st \<subseteq> s3_durable E K bucket st1"
    using s3_store.Store_Seal_durable [OF inv [unfolded s3_inv_def] k good s1] by simp
  have "set b \<subseteq> s3_durable E K bucket st1" if "r = Inr m" for m
  proof -
    have "sealed_in ?E (bucket (st_blobs st1)) m" "bucket (st_blobs st1) (sm_S3Key m) = Some body"
      using inv1(3) [OF that] by simp_all
    from durable_sealed [OF this] write_segment_body(2) [OF C io ws small b(1,3,2)] show ?thesis by simp
  qed
  moreover from seal True ws s1 have "st_blobs st' = st_blobs st1" "st' = st1 \<or> (\<exists>F. st' = st1\<lparr>st_fs := F\<rparr>)"
    "res = None \<Longrightarrow> \<exists>m. r = Inr m" by (auto simp: seal_segment_def split: sum.splits)
  ultimately show ?thesis using dur inv1(1) env by (auto simp: s3_wok_def)
qed

lemma manager_restart_ok:
  assumes wok: "s3_wok srt E K bucket key_of staged gr gn good st"
    and re: "manager_restart cfg (s3_env E K) (st_cat st) (st_blobs st) (st', sp)"
  shows "s3_wok srt E K bucket key_of staged gr gn good st' \<and> s3_durable E K bucket st' = s3_durable E K bucket st \<and>
    sp_buf sp = [] \<and> sp_committed sp = sp_received sp"
proof -
  from re obtain f F tmp st0 where f: "catalog_file (env_D E) (st_cat st) f"
    and o: "Store_Open (s3_env E K) (st_blobs st) f F = Inr st0"
    and r: "Recover (s3_env E K) tmp st0 = (None, st')" and n: "NewSpool cfg (s3_env E K) st' = Inr sp"
    by (auto simp: manager_restart_def)
  from wok have inv: "s3_inv E K bucket key_of staged good st" by (simp add: s3_wok_def)
  note ro = s3_inv_restarted [OF inv f o]
  note rec = s3_recover [OF ro [THEN conjunct1] r]
  from n have "sp_buf sp = []" "sp_committed sp = sp_received sp"
    by (auto simp: NewSpool_def Let_def split: option.splits)
  with rec(1,2) ro wok show ?thesis by (simp add: s3_wok_def)
qed

lemma torn_upload_ok:
  assumes wok: "s3_wok srt E K bucket key_of staged gr gn good st" and b: "\<forall>r \<in> set b. storable gr gn r"
    and allowed: "seal_allowed (s3_env E K) bucket good io b st"
    and torn: "torn_upload (s3_env E K) io b (st_blobs st) s0"
  shows "s3_wok srt E K bucket key_of staged gr gn good (st\<lparr>st_blobs := s0\<rparr>) \<and>
    s3_durable E K bucket st \<subseteq> s3_durable E K bucket (st\<lparr>st_blobs := s0\<rparr>)"
proof -
  let ?E = "s3_env E K"
  from torn obtain meta body r1 s1 where
    ws: "write_segment (env_C E) (io_writer io) (unix_nano (io_now io)) b = Inr (meta, body)"
    and p: "bl_PutReader (env_B ?E) (sm_S3Key (keyed ?E (io_id io) meta)) (Inr body) (st_blobs st) = (r1, s1)"
    and s0: "s0 = s1 \<or> (r1 = None \<and> (\<exists>sc r2. enc_sidecar (env_M ?E) (keyed ?E (io_id io) meta) = Inr sc \<and>
            bl_Put (env_B ?E) (sm_S3Key (keyed ?E (io_id io) meta) @ metaSuffix) sc s1 = (r2, s0)))"
    unfolding torn_upload_def by auto
  from wok have inv: "s3_inv E K bucket key_of staged good st" and env: "manager_env_ok srt ?E gr gn"
    by (simp_all add: s3_wok_def)
  from allowed have k: "plain_id (io_id io)" "fresh_id ?E (bucket (st_blobs st)) (io_id io)"
    by (simp_all add: seal_allowed_def)
  have good: "good (keyed ?E (io_id io) meta)" using allowed ws by (auto simp: seal_allowed_def)
  note i = inv [unfolded s3_inv_def]
  from s0 show ?thesis
  proof
    assume "s0 = s1"
    with s3_store.body_write [OF i k good p] env show ?thesis by (simp add: s3_wok_def s3_inv_def)
  next
    assume "r1 = None \<and> (\<exists>sc r2. enc_sidecar (env_M ?E) (keyed ?E (io_id io) meta) = Inr sc \<and>
            bl_Put (env_B ?E) (sm_S3Key (keyed ?E (io_id io) meta) @ metaSuffix) sc s1 = (r2, s0))"
    then obtain sc r2 where r1: "r1 = None" and sc: "enc_sidecar (env_M ?E) (keyed ?E (io_id io) meta) = Inr sc"
      and q: "bl_Put (env_B ?E) (sm_S3Key (keyed ?E (io_id io) meta) @ metaSuffix) sc s1 = (r2, s0)" by blast
    from s3_store.sidecar_write [OF i k good p [unfolded r1] sc q] env show ?thesis by (simp add: s3_wok_def s3_inv_def)
  qed
qed

interpretation s3_manager: batch_store
    "manager_machine srt cfg n (s3_env E K) bucket good (storable gr gn)"
    "s3_wok srt E K bucket key_of staged gr gn good" "s3_durable E K bucket"
  for srt cfg n and E :: "('c, 'd) env" and K :: "('c, 'u) s3_client" and bucket key_of staged gr gn good
proof
  let ?M = "manager_machine srt cfg n (s3_env E K) bucket good (storable gr gn)"
  let ?wok = "s3_wok srt E K bucket key_of staged gr gn good" and ?dur = "s3_durable E K bucket"
  fix st st' assume wok: "?wok st"
  then have inv: "s3_inv E K bucket key_of staged good st" by (simp add: s3_wok_def)
  show "batch_ok ?M b \<Longrightarrow> mc_allowed ?M u b st \<Longrightarrow> mc_upload ?M u b st = (res, st') \<Longrightarrow>
      ?wok st' \<and> ?dur st \<subseteq> ?dur st' \<and> (res = None \<longrightarrow> set b \<subseteq> ?dur st')" for u b res
    using seal_segment_ok [OF wok, of b "fst u" "snd u" res st']
    by (cases u) (simp add: manager_machine_def batch_ok_def)
  show "mc_other ?M st st' \<Longrightarrow> ?wok st' \<and> ?dur st \<subseteq> ?dur st'"
  proof -
    assume "mc_other ?M st st'"
    then consider k r where "Store_Snapshot (s3_env E K) k st = (r, st')" | m r where "Store_Reader (s3_env E K) m st = (r, st')"
      | tmp r where "Recover (s3_env E K) tmp st = (r, st')"
      by (auto simp: manager_machine_def)
    then show ?thesis
    proof cases
      case 1
      from s3_store.Store_Snapshot_durable [OF inv [unfolded s3_inv_def] 1] wok show ?thesis
        by (simp add: s3_wok_def s3_inv_def)
    next
      case 2
      from s3_store.Store_Reader_objects [OF inv [unfolded s3_inv_def] 2] wok show ?thesis
        by (simp add: s3_wok_def s3_inv_def)
    next
      case 3
      from s3_recover(1,2) [OF inv 3] wok show ?thesis by (simp add: s3_wok_def)
    qed
  qed
  show "\<forall>b \<in> set bs. batch_ok ?M b \<Longrightarrow> mc_restart ?M bs st (st', s) \<Longrightarrow>
      ?wok st' \<and> ?dur st \<subseteq> ?dur st' \<and> sp_buf s = [] \<and> sp_committed s = sp_received s" for bs s
  proof -
    assume bs: "\<forall>b \<in> set bs. batch_ok ?M b" and "mc_restart ?M bs st (st', s)"
    then obtain s0 where re: "manager_restart cfg (s3_env E K) (st_cat st) s0 (st', s)"
      and s0: "s0 = st_blobs st \<or> (\<exists>io b. b \<in> set bs \<and>
        seal_allowed (s3_env E K) bucket good io b st \<and> torn_upload (s3_env E K) io b (st_blobs st) s0)"
      by (auto simp: manager_machine_def)
    have rec: "\<forall>r \<in> set b. storable gr gn r" if "b \<in> set bs" for b
      using bs that by (simp add: batch_ok_def manager_machine_def)
    have "?wok (st\<lparr>st_blobs := s0\<rparr>) \<and> ?dur st \<subseteq> ?dur (st\<lparr>st_blobs := s0\<rparr>)"
      using s0
    proof
      assume "\<exists>io b. b \<in> set bs \<and> seal_allowed (s3_env E K) bucket good io b st \<and> torn_upload (s3_env E K) io b (st_blobs st) s0"
      then show ?thesis using torn_upload_ok [OF wok rec] by blast
    qed (simp add: wok)
    with manager_restart_ok [of srt E K bucket key_of staged gr gn good "st\<lparr>st_blobs := s0\<rparr>" cfg st' s] re
    show ?thesis by simp
  qed
  show "sort_slice_ok (mc_sort ?M)" using wok by (simp add: manager_machine_def s3_wok_def manager_env_ok_def)
qed

end
