(* ===== verification/AckSafety.thy ===== *)
theory AckSafety
  imports ManagerStore
begin

text \<open>
  What an acknowledgement means: with one seal at a time, every record that the committed offsets
  cover is durable; with two at a time, as \<open>Shutdown\<close> running beside the seal loop makes
  possible, it need not be.
\<close>


section \<open>A small manager\<close>

lemma sort_key_slice_ok: "sort_slice_ok (sort_key rec_Timestamp)"
proof -
  have "ts_sorted False rs" if "sorted (map rec_Timestamp rs)" for rs
    using that by (induction rs) (auto simp: ts_sorted_def sorts_before_def)
  then show ?thesis by (simp add: sort_slice_ok_def)
qed

definition sample_cfg :: SpoolConfig where
  "sample_cfg = \<lparr>sc_WorkDir = ''/w'', sc_MaxSegBytes = 0, sc_MaxSegAge = 0\<rparr>"

text \<open>A seal under the id \<open>A\<close>; the writer of a failing one takes no bytes.\<close>

definition sample_io :: "bool \<Rightarrow> seal_io" where
  "sample_io fails = \<lparr>io_id = ''A'', io_create = None,
     io_writer = (if fails then (\<lambda>out b. (0, Some (OtherError ''disk full''))) else mem_writer), io_close = None, io_now = 0\<rparr>"

definition sample_machine ::
  "segment_meta \<Rightarrow> nat \<Rightarrow> (seal_io \<times> string, (mem \<times> mem, mem) store) machine" where
  "sample_machine meta n = manager_machine (sort_key rec_Timestamp) sample_cfg n (sample_env (sample_keyed meta))
     sample_bucket (sample_meta_good meta) (storable sample_good (\<lambda>x. False))"

lemma sample_machine_alt:
  "sample_machine meta n = manager_machine (sort_key rec_Timestamp) sample_cfg n
     (s3_env (sample_env (sample_keyed meta)) sample_s3) sample_bucket (sample_meta_good meta)
     (storable sample_good (\<lambda>x. False))"
  by (simp add: sample_machine_def)

lemma sample_wok:
  "s3_wok (sort_key rec_Timestamp) (sample_env (sample_keyed meta)) sample_s3 sample_bucket (\<lambda>k. k) sample_staged
     sample_good (\<lambda>x. False) (sample_meta_good meta) (sample_store body)"
  using sample_store_inv
  by (simp add: s3_wok_def s3_inv_def manager_env_ok_def sample_codec_ok sort_key_slice_ok)

lemma sample_start:
  "\<exists>st sp. mc_restart (sample_machine meta n) [] (sample_store body) (st, sp) \<and> st_blobs st = ([], []) \<and>
    sp_buf sp = [] \<and> sp_received sp = Map.empty \<and> sp_committed sp = Map.empty"
proof -
  let ?E = "sample_env (sample_keyed meta)"
  obtain st0 where o: "Store_Open ?E ([], []) None Map.empty = Inr st0" "st_blobs st0 = ([], [])" "st_cat st0 = []"
    using sample_reopen by blast
  have r: "Recover ?E [] st0 = (None, st0)"
    using o by (simp add: Recover_def loadLatestSnapshot_def S3Blobs_def S3_List_def sample_s3_def)
  have "SourceWatermarks ?E st0 = Inr Map.empty"
    by (simp add: SourceWatermarks_def cat_all_def cat_overlapping_def o sample_bolt_def)
  then obtain sp where n: "NewSpool sample_cfg ?E st0 = Inr sp" "sp_buf sp = []" "sp_received sp = Map.empty"
    "sp_committed sp = Map.empty"
    by (simp add: NewSpool_def Let_def sample_os_def)
  have "catalog_file (env_D ?E) [] None" by (simp add: catalog_file_def)
  then have "manager_restart sample_cfg ?E [] ([], []) (st0, sp)"
    unfolding manager_restart_def using o(1) r n(1) by blast
  with o n show ?thesis by (auto simp: sample_machine_def manager_machine_def)
qed

lemma accept_step:
  assumes "mg_hub w = Some h" and "mc_record M r" and "\<not> duplicate r (mg_spool w)"
  shows "mgr_step M w (w\<lparr>mg_spool := accept_new now r (mg_spool w), mg_accepted := insert r (mg_accepted w)\<rparr>)"
proof -
  have "Accept rt [] now r (mg_spool w, mg_hub w) = Some (accept_new now r (mg_spool w), mg_hub w)" for rt
    using assms by (simp add: Accept_def)
  from mgr_step.accept [OF this assms(2)] assms(3) show ?thesis by simp
qed

lemma take_step:
  assumes "length (mg_flight w) < mc_seals M" and "sp_buf (mg_spool w) = [r]" and "mc_sort M = sort_key rec_Timestamp"
  shows "mgr_step M w (w\<lparr>mg_spool := (mg_spool w)\<lparr>sp_buf := [], sp_bufBytes := 0\<rparr>,
    mg_flight := mg_flight w @ [([r], None)]\<rparr>)"
  using mgr_step.take [of w M "[r]" "(mg_spool w)\<lparr>sp_buf := [], sp_bufBytes := 0\<rparr>"] assms
  by (simp add: seal_take_def)

lemma upload_step:
  assumes "mg_flight w = xs @ (b, None) # ys" and "mg_world w = st" and "mc_allowed M u b st"
    and "mc_upload M u b st = (res, st')"
  shows "mgr_step M w (w\<lparr>mg_world := st', mg_flight := xs @ (b, Some (res = None)) # ys\<rparr>)"
  using mgr_step.upload [of "length xs" w b M u res st'] assms by simp

lemma commit_step:
  assumes "mg_flight w = xs @ (b, Some True) # ys"
  shows "mgr_step M w (w\<lparr>mg_spool := seal_commit (max_offsets b) (mg_spool w), mg_flight := xs @ ys\<rparr>)"
  using mgr_step.commit [of "length xs" w b M] assms by (simp add: drop_nth_def)

text \<open>An upload of a single record into the empty bucket.\<close>

lemma sample_upload:
  assumes ws: "write_segment sample_codec mem_writer 0 [r] = Inr (meta, body)" "length body < 2 ^ 31"
    and st: "st_blobs st = ([], [])"
  shows "mc_allowed (sample_machine meta n) (sample_io True, lp) [q] st"
    and "\<exists>st'. mc_upload (sample_machine meta n) (sample_io True, lp) [q] st = (Some (OtherError ''disk full''), st') \<and>
      st_blobs st' = ([], [])"
    and "mc_allowed (sample_machine meta n) (sample_io False, lp) [r] st"
    and "\<exists>st'. mc_upload (sample_machine meta n) (sample_io False, lp) [r] st = (None, st') \<and>
      fst (st_blobs st') = [(sm_S3Key (sample_keyed meta), body), (sm_S3Key (sample_keyed meta) @ metaSuffix, [])]"
proof -
  let ?st = "st\<lparr>st_fs := (st_fs st)(lp \<mapsto> body)\<rparr>"
  have fresh: "fresh_id E (sample_bucket (st_blobs st)) k" for E :: "(mem \<times> mem, mem) env" and k
    by (simp add: fresh_id_def sealed_in_def st)
  have zero: "unix_nano 0 = 0" by (simp add: unix_nano_def in_int64_def)
  have fail: "write_segment C (\<lambda>out b. (0, Some (OtherError ''disk full''))) 0 rs = Inl (OtherError ''disk full'')" for C rs
    by (simp add: write_segment_def NewWriter_def writeHeader_def emit_def)
  note defs = sample_machine_def manager_machine_def sample_io_def zero
  show "mc_allowed (sample_machine meta n) (sample_io True, lp) [q] st"
    by (simp add: defs seal_allowed_def sample_plain fresh fail io_contract_def)
  show "mc_allowed (sample_machine meta n) (sample_io False, lp) [r] st"
    using ws by (simp add: defs seal_allowed_def sample_plain fresh mem_writer_ok same_meta_def)
  show "\<exists>st'. mc_upload (sample_machine meta n) (sample_io True, lp) [q] st = (Some (OtherError ''disk full''), st') \<and>
      st_blobs st' = ([], [])"
    by (simp add: defs seal_segment_def fail st)
  obtain m st1 where s: "Store_Seal (sample_env (sample_keyed meta)) lp ''A'' meta ?st = (Inr m, st1)"
    using sample_seal [of ?st lp body meta] by auto
  have "fst (st_blobs st1) = [(sm_S3Key (sample_keyed meta), body), (sm_S3Key (sample_keyed meta) @ metaSuffix, [])]"
    using sample_seal_bucket [OF s] st by simp
  with s ws show "\<exists>st'. mc_upload (sample_machine meta n) (sample_io False, lp) [r] st = (None, st') \<and>
      fst (st_blobs st') = [(sm_S3Key (sample_keyed meta), body), (sm_S3Key (sample_keyed meta) @ metaSuffix, [])]"
    by (simp add: defs seal_segment_def)
qed

lemma sample_commit: "0 < rec_Offset r \<Longrightarrow> sp_committed s = Map.empty \<Longrightarrow>
    sp_committed (seal_commit (max_offsets [r]) s) = [rec_key r \<mapsto> rec_Offset r]"
  by (rule ext) (simp add: seal_commit_def max_offsets_def raise_max_def)

text \<open>The only durable record of that bucket is the one of its segment.\<close>

lemma sample_durable:
  assumes ws: "write_segment sample_codec mem_writer 0 [r] = Inr (meta, body)" "length body < 2 ^ 31"
    and r: "storable sample_good (\<lambda>x. False) r"
    and b: "sample_bucket c = map_of [(sm_S3Key (sample_keyed meta), body), (sm_S3Key (sample_keyed meta) @ metaSuffix, [])]"
  shows "durable_records (sample_env m) (sample_bucket c) \<subseteq> {r}"
proof -
  have rec: "seg_records sample_codec body = [r]"
    using write_segment_body(2) [OF sample_codec_ok mem_writer_ok ws] r by (simp add: ts_sorted_def)
  have "x = body" if "sealed_in (sample_env m) (sample_bucket c) y" "sample_bucket c (sm_S3Key y) = Some x" for x y
  proof -
    from that(1) obtain j where "sm_S3Key y = j @ ''.seg''" by (auto simp: sealed_in_def)
    then have "sm_S3Key y \<noteq> sm_S3Key (sample_keyed meta) @ metaSuffix" using seg_not_meta by metis
    with that(2) show ?thesis unfolding b by (simp split: if_splits)
  qed
  then show ?thesis using rec by (auto simp: durable_records_def)
qed


text \<open>
  Two overlapping seals of one source: the first takes \<open>q\<close> and fails, the second takes \<open>r\<close> and
  commits.
\<close>

lemma overlapping_seals:
  assumes reach: "mgr_reachable M w0 w" and w: "mg_flight w = []" "mg_hub w = Some h" "mg_accepted w = {}"
    and sp: "sp_buf (mg_spool w) = []" "sp_received (mg_spool w) = Map.empty" "sp_committed (mg_spool w) = Map.empty"
    and M: "mc_seals M = 2" "mc_sort M = sort_key rec_Timestamp" "mc_record M q" "mc_record M r"
    and qr: "rec_key r = rec_key q" "rec_Offset q < rec_Offset r" "0 < rec_Offset r"
    and up1: "mc_allowed M u [q] (mg_world w)" "mc_upload M u [q] (mg_world w) = (Some e, st1)"
    and up2: "mc_allowed M v [r] st1" "mc_upload M v [r] st1 = (None, st2)"
  shows "\<exists>w'. mgr_reachable M w0 w' \<and> q \<in> mg_accepted w' \<and> acked (mg_spool w') q \<and> mg_world w' = st2"
proof -
  let ?s1 = "accept_new 0 q (mg_spool w)" let ?s2 = "?s1\<lparr>sp_buf := [], sp_bufBytes := 0\<rparr>"
  let ?s3 = "accept_new 0 r ?s2" let ?s4 = "?s3\<lparr>sp_buf := [], sp_bufBytes := 0\<rparr>"
  let ?w1 = "w\<lparr>mg_spool := ?s1, mg_accepted := {q}\<rparr>"
  let ?w2 = "?w1\<lparr>mg_spool := ?s2, mg_flight := [([q], None)]\<rparr>"
  let ?w3 = "?w2\<lparr>mg_spool := ?s3, mg_accepted := {r, q}\<rparr>"
  let ?w4 = "?w3\<lparr>mg_spool := ?s4, mg_flight := [([q], None), ([r], None)]\<rparr>"
  let ?w5 = "?w4\<lparr>mg_world := st1, mg_flight := [([q], Some False), ([r], None)]\<rparr>"
  let ?w6 = "?w5\<lparr>mg_world := st2, mg_flight := [([q], Some False), ([r], Some True)]\<rparr>"
  let ?w7 = "?w6\<lparr>mg_spool := seal_commit (max_offsets [r]) ?s4, mg_flight := [([q], Some False)]\<rparr>"
  note step = mgr_reachable.step
  have "mgr_step M w ?w1" using accept_step [OF w(2) M(3)] w sp by (simp add: duplicate_def)
  note r1 = step [OF reach this]
  have "mgr_step M ?w1 ?w2" using take_step [of ?w1 M q] M w sp by (simp add: accept_new_def)
  note r2 = step [OF r1 this]
  have "mgr_step M ?w2 ?w3"
    using accept_step [of ?w2 _ M r 0] M w qr by (simp add: duplicate_def accept_new_def)
  note r3 = step [OF r2 this]
  have "mgr_step M ?w3 ?w4" using take_step [of ?w3 M r] M by (simp add: accept_new_def)
  note r4 = step [OF r3 this]
  have "mgr_step M ?w4 ?w5" using upload_step [of ?w4 "[]" "[q]" "[([r], None)]", OF _ _ up1] by simp
  note r5 = step [OF r4 this]
  have "mgr_step M ?w5 ?w6" using upload_step [of ?w5 "[([q], Some False)]" "[r]" "[]", OF _ _ up2] by simp
  note r6 = step [OF r5 this]
  have "mgr_step M ?w6 ?w7" using commit_step [of ?w6 "[([q], Some False)]" "[r]" "[]"] by simp
  note r7 = step [OF r6 this]
  have "sp_committed (mg_spool ?w7) (rec_key q) = Some (rec_Offset r)"
    using sample_commit [OF qr(3), of ?s4] sp qr by (simp add: accept_new_def)
  then have "acked (mg_spool ?w7) q" using qr by (simp add: acked_def Committed_def)
  with r7 show ?thesis by (intro exI [of _ ?w7]) simp
qed


section \<open>Properties\<close>

text \<open>
  C3: an acknowledged record is not lost.  With one seal at a time, take any run of the manager,
  with seals that fail at any call, processes killed at any point of an upload, restarts on
  the old disk or an empty one that recover from the bucket, snapshots and queries.  If a record that the manager has accepted is
  covered by the committed offset of its source, then in every later state it is in a sealed
  segment of the bucket.
\<close>

theorem acknowledged_records_are_durable:
  fixes M
  assumes "s3_wok srt E K bucket key_of staged gr gn good st"
    and "M = manager_machine srt cfg 1 (s3_env E K) bucket good (storable gr gn)"
    and "mgr_reachable M st w" and "r \<in> mg_accepted w" and "acked (mg_spool w) r" and "mgr_steps M w w'"
  shows "r \<in> durable_records (s3_env E K) (bucket (st_blobs (mg_world w')))"
proof -
  have "mc_seals M = 1" by (simp add: assms(2) manager_machine_def)
  from s3_manager.acked_durable [OF assms(1) this [unfolded assms(2)] assms(3) [unfolded assms(2)] assms(4,5)
      assms(6) [unfolded assms(2)]]
  show ?thesis .
qed

theorem acknowledged_records_are_durable_witness:
  "\<exists>meta w. mgr_reachable (sample_machine meta 1) (sample_store []) w \<and> mg_accepted w = {sample_record} \<and>
    acked (mg_spool w) sample_record \<and>
    sample_record \<in> durable_records (sample_env (sample_keyed meta)) (sample_bucket (st_blobs (mg_world w)))"
proof -
  obtain meta body where ws: "write_segment sample_codec mem_writer 0 [sample_record] = Inr (meta, body)"
    "length body < 2 ^ 31" using sample_write by blast
  let ?M = "sample_machine meta 1"
  obtain st sp where st: "mc_restart ?M [] (sample_store []) (st, sp)" "st_blobs st = ([], [])"
    and sp: "sp_buf sp = []" "sp_received sp = Map.empty" "sp_committed sp = Map.empty" using sample_start by blast
  obtain st' where up: "mc_upload ?M (sample_io False, ''/w/A'') [sample_record] st = (None, st')"
    using sample_upload(4) [OF ws st(2)] by blast
  let ?s1 = "accept_new 0 sample_record sp"
  let ?w = "\<lparr>mg_spool = sp, mg_hub = Some (NewHub 4096), mg_world = st, mg_flight = [], mg_accepted = {}\<rparr>"
  let ?w1 = "?w\<lparr>mg_spool := ?s1, mg_accepted := {sample_record}\<rparr>"
  let ?w2 = "?w1\<lparr>mg_spool := ?s1\<lparr>sp_buf := [], sp_bufBytes := 0\<rparr>, mg_flight := [([sample_record], None)]\<rparr>"
  let ?w3 = "?w2\<lparr>mg_world := st', mg_flight := [([sample_record], Some True)]\<rparr>"
  let ?w4 = "?w3\<lparr>mg_spool := seal_commit (max_offsets [sample_record]) (mg_spool ?w3), mg_flight := []\<rparr>"
  have fields: "mc_seals ?M = 1" "mc_sort ?M = sort_key rec_Timestamp" "mc_record ?M sample_record"
    using sample_storable by (simp_all add: sample_machine_def manager_machine_def)
  have "mgr_reachable ?M (sample_store []) ?w" by (rule mgr_reachable.start [OF st(1)])
  moreover have "mgr_step ?M ?w ?w1"
    using accept_step [of ?w _ ?M sample_record 0] fields sp by (simp add: duplicate_def)
  moreover have "mgr_step ?M ?w1 ?w2"
    using take_step [of ?w1 ?M sample_record] fields sp by (simp add: accept_new_def)
  moreover have "mgr_step ?M ?w2 ?w3"
    using upload_step [of ?w2 "[]" "[sample_record]" "[]", OF _ _ sample_upload(3) [OF ws st(2)] up] by simp
  moreover have "mgr_step ?M ?w3 ?w4"
    using commit_step [of ?w3 "[]" "[sample_record]" "[]"] by simp
  ultimately have reach: "mgr_reachable ?M (sample_store []) ?w4" by (meson mgr_reachable.step)
  have "sp_committed (mg_spool ?w4) (rec_key sample_record) = Some 10"
    using sample_commit [of sample_record] sp by (simp add: accept_new_def sample_record_def)
  then have ack: "acked (mg_spool ?w4) sample_record" by (simp add: acked_def Committed_def sample_record_def)
  have "sample_record \<in> mg_accepted ?w4" by simp
  from acknowledged_records_are_durable [OF sample_wok sample_machine_alt reach this ack rtranclp.rtrancl_refl]
  have "sample_record \<in> durable_records (sample_env (sample_keyed meta)) (sample_bucket (st_blobs (mg_world ?w4)))"
    by simp
  with reach ack show ?thesis by (intro exI [of _ meta] exI [of _ ?w4]) simp
qed

text \<open>
  C10: two seals at a time break that promise.  \<open>main\<close> calls \<open>Shutdown\<close> when the context is
  cancelled without waiting for \<open>RunSealLoop\<close>, so two calls of \<open>Seal\<close> can overlap.  When the first
  fails after the second has taken the records that arrived in between, the second commits
  their offset, which covers the records of the first: they are acknowledged and in no sealed
  segment.
\<close>

theorem overlapping_seals_acknowledge_undurable_records:
  "\<exists>meta w. mgr_reachable (sample_machine meta 2) (sample_store []) w \<and> sample_record \<in> mg_accepted w \<and>
    acked (mg_spool w) sample_record \<and>
    sample_record \<notin> durable_records (sample_env (sample_keyed meta)) (sample_bucket (st_blobs (mg_world w)))"
proof -
  obtain meta body where ws: "write_segment sample_codec mem_writer 0 [later_record] = Inr (meta, body)"
    "length body < 2 ^ 31" using sample_write by blast
  let ?M = "sample_machine meta 2"
  obtain st sp where st: "mc_restart ?M [] (sample_store []) (st, sp)" "st_blobs st = ([], [])"
    and sp: "sp_buf sp = []" "sp_received sp = Map.empty" "sp_committed sp = Map.empty" using sample_start by blast
  obtain e st1 where up1: "mc_upload ?M (sample_io True, ''/w/A'') [sample_record] st = (Some e, st1)"
    "st_blobs st1 = ([], [])" using sample_upload(2) [OF ws st(2)] by blast
  obtain st2 where up2: "mc_upload ?M (sample_io False, ''/w/A'') [later_record] st1 = (None, st2)"
    "fst (st_blobs st2) = [(sm_S3Key (sample_keyed meta), body), (sm_S3Key (sample_keyed meta) @ metaSuffix, [])]"
    using sample_upload(4) [OF ws up1(2)] by blast
  have fields: "mc_seals ?M = 2" "mc_sort ?M = sort_key rec_Timestamp" "mc_record ?M sample_record" "mc_record ?M later_record"
    using sample_storable by (simp_all add: sample_machine_def manager_machine_def)
  have recs: "rec_key later_record = rec_key sample_record" "rec_Offset sample_record < rec_Offset later_record"
    "0 < rec_Offset later_record" by (simp_all add: sample_record_def later_record_def)
  have al: "mc_allowed ?M (sample_io True, ''/w/A'') [sample_record] st" "mc_allowed ?M (sample_io False, ''/w/A'') [later_record] st1"
    using sample_upload(1) [OF ws st(2)] sample_upload(3) [OF ws up1(2)] by blast+
  have "\<exists>w. mgr_reachable ?M (sample_store []) w \<and> sample_record \<in> mg_accepted w \<and>
      acked (mg_spool w) sample_record \<and> mg_world w = st2"
    by (rule overlapping_seals [where u = "(sample_io True, ''/w/A'')" and e = e,
          OF mgr_reachable.start [OF st(1)] _ _ _ _ _ _ fields recs _ _ al(2) up2(1)])
      (simp_all add: sp al(1) up1(1))
  then obtain w where w: "mgr_reachable ?M (sample_store []) w" "sample_record \<in> mg_accepted w"
    "acked (mg_spool w) sample_record" "mg_world w = st2" by blast
  have "durable_records (sample_env (sample_keyed meta)) (sample_bucket (st_blobs (mg_world w))) \<subseteq> {later_record}"
    using sample_durable [OF ws sample_storable(2), of "st_blobs st2"] up2(2) w(4) by simp
  moreover have "sample_record \<notin> {later_record}" using sample_records_differ by simp
  ultimately have "sample_record \<notin> durable_records (sample_env (sample_keyed meta)) (sample_bucket (st_blobs (mg_world w)))"
    by (rule contra_subsetD)
  with w(1-3) show ?thesis by (intro exI [of _ meta] exI [of _ w] conjI)
qed

end
