(* ===== verification/Manager.thy ===== *)
theory Manager
  imports AckSafety
begin

text \<open>
  The operations of \<open>internal/manager/manager.go\<close>, and what the spool's operations do when they run
  one after the other: deduplication of redelivered records, snapshots for queries, and the
  outcomes of a seal.
\<close>


section \<open>The manager\<close>

definition Manager_New ::
  "SpoolConfig \<Rightarrow> ('s, 'd) env \<Rightarrow> ('s, 'd) store \<Rightarrow> go_error + spool \<times> hub" where
  "Manager_New cfg E st = rbind (NewSpool cfg E st) (\<lambda>sp. Inr (sp, NewHub 4096))"

text \<open>The ticks of \<open>RunSealLoop\<close>; errors are logged and otherwise ignored.\<close>

datatype loop_event = Check seal_io | Snap string

definition seal_tick ::
  "(log_record list \<Rightarrow> log_record list) \<Rightarrow> ('s, 'd) env \<Rightarrow> loop_event \<Rightarrow> spool \<times> ('s, 'd) store \<Rightarrow>
    spool \<times> ('s, 'd) store" where
  "seal_tick srt E ev = (\<lambda>(s, st).
     case ev of
       Check io \<Rightarrow> if shouldSeal (io_now io) s then snd (Spool_Seal srt E io s st) else (s, st)
     | Snap k \<Rightarrow> (s, snd (Store_Snapshot E k st)))"

definition RunSealLoop ::
  "(log_record list \<Rightarrow> log_record list) \<Rightarrow> ('s, 'd) env \<Rightarrow> loop_event list \<Rightarrow> spool \<times> ('s, 'd) store \<Rightarrow>
    spool \<times> ('s, 'd) store" where
  "RunSealLoop srt E = fold (seal_tick srt E)"

definition Shutdown ::
  "(log_record list \<Rightarrow> log_record list) \<Rightarrow> ('s, 'd) env \<Rightarrow> seal_io \<Rightarrow> string \<Rightarrow> spool \<times> ('s, 'd) store \<Rightarrow>
    spool \<times> ('s, 'd) store" where
  "Shutdown srt E io k = (\<lambda>(s, st).
     case Spool_Seal srt E io s st of (res, s1, st1) \<Rightarrow> (s1, snd (Store_Snapshot E k st1)))"


section \<open>Accepting records\<close>

text \<open>
  A stream of records: each arrives at a time, and \<open>Publish\<close> visits the subscribers in some order.
\<close>

fun accept_run ::
  "runtime \<Rightarrow> (nat list \<times> time \<times> log_record) list \<Rightarrow> spool \<times> hub option \<Rightarrow> (spool \<times> hub option) option" where
  "accept_run rt [] x = Some x"
| "accept_run rt ((ids, now, r) # es) x = Option.bind (Accept rt ids now r x) (accept_run rt es)"

definition accept_one :: "time \<times> log_record \<Rightarrow> spool \<Rightarrow> spool" where
  "accept_one e s = (if duplicate (snd e) s then s else accept_new (fst e) (snd e) s)"

definition accept_all :: "(time \<times> log_record) list \<Rightarrow> spool \<Rightarrow> spool" where
  "accept_all = fold accept_one"

abbreviation delivered_records :: "(nat list \<times> time \<times> log_record) list \<Rightarrow> log_record list" where
  "delivered_records es \<equiv> map (\<lambda>e. snd (snd e)) es"

lemma accept_run_spool: "accept_run rt es (s, h) = Some (s', h') \<Longrightarrow> s' = accept_all (map snd es) s"
proof (induction es arbitrary: s h)
  case (Cons e es)
  obtain ids now r where e: "e = (ids, now, r)" by (cases e)
  with Cons.prems obtain s1 h1 where "Accept rt ids now r (s, h) = Some (s1, h1)" "accept_run rt es (s1, h1) = Some (s', h')"
    by (auto simp: bind_eq_Some_conv)
  with Cons.IH e show ?case
    by (auto simp: accept_all_def Accept_def accept_one_def split: if_splits option.splits)
qed (simp add: accept_all_def)

definition spool_ok :: "spool \<Rightarrow> bool" where
  "spool_ok s \<longleftrightarrow> sp_bufBytes s = sum_list (map estimateSize (sp_buf s)) \<and>
     (\<forall>r \<in> set (sp_buf s). seen_below s r) \<and>
     (\<forall>k v. sp_committed s k = Some v \<longrightarrow> (\<exists>u. sp_received s k = Some u \<and> v \<le> u))"

lemma accept_new_sel [simp]:
  "sp_buf (accept_new now r s) = sp_buf s @ [r]"
  "sp_received (accept_new now r s) = (sp_received s)(rec_key r \<mapsto> rec_Offset r)"
  "sp_committed (accept_new now r s) = sp_committed s"
  "sp_bufBytes (accept_new now r s) = sp_bufBytes s + estimateSize r" "sp_cfg (accept_new now r s) = sp_cfg s"
  by (simp_all add: accept_new_def)

lemma seen_below_duplicate: "seen_below s r \<longleftrightarrow> duplicate r s"
  by (auto simp: seen_below_def duplicate_def split: option.split)

lemma duplicate_accept_new: "\<not> duplicate r s \<Longrightarrow> duplicate q s \<Longrightarrow> duplicate q (accept_new now r s)"
  by (auto simp: duplicate_def split: option.splits if_splits)

lemma duplicate_accept_one: "duplicate q s \<Longrightarrow> duplicate q (accept_one e s)" "duplicate (snd e) (accept_one e s)"
  by (simp_all add: accept_one_def duplicate_accept_new) (simp add: duplicate_def)

lemma duplicate_accept_all: "duplicate q s \<Longrightarrow> duplicate q (accept_all es s)"
  by (induction es arbitrary: s) (simp_all add: accept_all_def duplicate_accept_one)

lemma accept_all_duplicates: "e \<in> set es \<Longrightarrow> duplicate (snd e) (accept_all es s)"
proof (induction es arbitrary: s)
  case (Cons f es)
  then show ?case
    using duplicate_accept_all [OF duplicate_accept_one(2)] by (cases "e = f") (simp_all add: accept_all_def)
qed simp

lemma accept_one_ok: "spool_ok s \<Longrightarrow> spool_ok (accept_one e s)"
proof -
  assume ok: "spool_ok s"
  let ?r = "snd e" and ?s = "accept_new (fst e) (snd e) s"
  have "spool_ok ?s" if new: "\<not> duplicate ?r s"
  proof -
    have "v \<le> rec_Offset ?r" if "sp_committed s (rec_key ?r) = Some v" for v
      using that new ok by (fastforce simp: spool_ok_def duplicate_def)
    moreover have "seen_below ?s q" if "q \<in> set (sp_buf s)" for q
      using that ok duplicate_accept_new [OF new] by (simp add: spool_ok_def seen_below_duplicate)
    moreover have "seen_below ?s ?r" by (simp add: seen_below_def)
    ultimately show ?thesis using ok by (auto simp: spool_ok_def)
  qed
  with ok show ?thesis by (simp add: accept_one_def)
qed

lemma accept_all_ok: "spool_ok s \<Longrightarrow> spool_ok (accept_all es s)"
  by (induction es arbitrary: s) (simp_all add: accept_all_def accept_one_ok)

text \<open>Per source, the buffer grows by increasing offsets.\<close>

definition rising :: "log_record list \<Rightarrow> bool" where
  "rising = sorted_wrt (\<lambda>a b. rec_key a = rec_key b \<longrightarrow> rec_Offset a < rec_Offset b)"

lemma accept_all_rising:
  "spool_ok s \<Longrightarrow> \<exists>new. sp_buf (accept_all es s) = sp_buf s @ new \<and> rising new \<and> subseq new (map snd es) \<and>
    (\<forall>r \<in> set new. \<not> duplicate r s)"
proof (induction es arbitrary: s)
  case (Cons e es)
  have ok: "spool_ok (accept_one e s)" using Cons.prems by (rule accept_one_ok)
  from Cons.IH [OF this] obtain new where new: "sp_buf (accept_all (e # es) s) = sp_buf (accept_one e s) @ new"
    "rising new" "subseq new (map snd es)" "\<forall>q \<in> set new. \<not> duplicate q (accept_one e s)"
    by (auto simp: accept_all_def)
  have fresh: "\<forall>q \<in> set new. \<not> duplicate q s" using new(4) duplicate_accept_one(1) by blast
  show ?case
  proof (cases "duplicate (snd e) s")
    case True
    with new fresh show ?thesis by (intro exI [of _ new]) (auto simp: accept_one_def)
  next
    case False
    have "rising (snd e # new)"
      using new(2,4) False by (force simp: rising_def duplicate_def accept_one_def)
    with new fresh False show ?thesis by (intro exI [of _ "snd e # new"]) (simp add: accept_one_def)
  qed
qed (simp add: accept_all_def rising_def)

section \<open>Sealing\<close>

lemma requeue_bytes: "fold (\<lambda>r n. n + estimateSize r) b (n :: int) = n + sum_list (map estimateSize b)"
  by (induction b arbitrary: n) simp_all

lemma seal_take_sel: "seal_take s = (b, s1) \<Longrightarrow> b = sp_buf s \<and> sp_buf s1 = [] \<and> sp_bufBytes s1 = 0 \<and>
    sp_received s1 = sp_received s \<and> sp_committed s1 = sp_committed s \<and> sp_cfg s1 = sp_cfg s"
  by (auto simp: seal_take_def)

lemma sort_slice_set: "sort_slice_ok srt \<Longrightarrow> set (srt rs) = set rs"
  unfolding sort_slice_ok_def by (metis set_mset_mset)

lemma raise_max_ge: "r \<in> set b \<Longrightarrow> rec_Offset r \<le> get0 (max_offsets b) (rec_key r)"
proof -
  have "r \<in> set b \<Longrightarrow> rec_Offset r \<le> get0 (fold (\<lambda>r. raise_max (rec_key r) (rec_Offset r)) b m) (rec_key r)" for m
  proof (induction b arbitrary: m)
    case (Cons q b)
    have "get0 m' k \<le> get0 (fold (\<lambda>r. raise_max (rec_key r) (rec_Offset r)) b m') k" for m' k
      by (induction b arbitrary: m') (auto intro: order_trans [OF raise_max_mono])
    from this [of "raise_max (rec_key q) (rec_Offset q) m" "rec_key q"] Cons show ?case
      by (cases "r = q") (auto simp: get0_raise_max)
  qed simp
  then show "r \<in> set b \<Longrightarrow> rec_Offset r \<le> get0 (max_offsets b) (rec_key r)" unfolding max_offsets_def .
qed

lemma seal_commit_ge: "0 < rec_Offset r \<Longrightarrow> r \<in> set b \<Longrightarrow>
    rec_Offset r \<le> get0 (sp_committed (seal_commit (max_offsets b) s)) (rec_key r)"
  using raise_max_ge [of r b] by (auto simp: seal_commit_def get0_def split: option.splits)

lemma Spool_Seal_cases:
  assumes "Spool_Seal srt E io s st = (res, s', st')" and "sp_buf s \<noteq> []"
  obtains b s1 e where "b = srt (sp_buf s)" and "seal_take s = (sp_buf s, s1)"
    and "seal_segment E io (tmp_path s1 io) b st = (e, st')"
    and "case e of Some x \<Rightarrow> res = Inl x \<and> s' = requeue (io_now io) b s1
      | None \<Rightarrow> res = Inr (length b) \<and> s' = seal_commit (max_offsets b) s1"
proof -
  obtain b s1 where t: "seal_take s = (b, s1)" by (cases "seal_take s")
  have b: "b = sp_buf s" using seal_take_sel [OF t] by simp
  obtain e st1 where e: "seal_segment E io (tmp_path s1 io) (srt b) st = (e, st1)"
    by (cases "seal_segment E io (tmp_path s1 io) (srt b) st")
  show thesis
    by (rule that [of "srt b" s1 e]) (use assms t b e in \<open>auto simp: Spool_Seal_def Let_def split: option.splits\<close>)
qed

lemma spool_ok_take: "spool_ok s \<Longrightarrow> seal_take s = (b, s1) \<Longrightarrow> spool_ok s1"
  by (auto simp: spool_ok_def seal_take_def seen_below_def)

lemma spool_ok_requeue:
  "spool_ok s \<Longrightarrow> \<forall>r \<in> set b. seen_below s r \<Longrightarrow> spool_ok (requeue now b s)"
  by (auto simp: spool_ok_def seen_below_def requeue_def requeue_bytes)

lemma spool_ok_commit:
  "spool_ok s \<Longrightarrow> \<forall>r \<in> set b. seen_below s r \<Longrightarrow> spool_ok (seal_commit (max_offsets b) s)"
  by (auto simp: spool_ok_def seen_below_def seal_commit_def dest!: max_offsets_mem split: option.splits if_splits)

lemma Spool_Seal_ok:
  assumes seal: "Spool_Seal srt E io s st = (res, s', st')" and srt: "sort_slice_ok srt" and ok: "spool_ok s"
  shows "spool_ok s'"
proof (cases "sp_buf s = []")
  case True
  with seal ok show ?thesis by (simp add: Spool_Seal_def)
next
  case False
  from seal False obtain b s1 e where b: "b = srt (sp_buf s)" and t: "seal_take s = (sp_buf s, s1)"
    and e: "case e of Some x \<Rightarrow> res = Inl x \<and> s' = requeue (io_now io) b s1
      | None \<Rightarrow> res = Inr (length b) \<and> s' = seal_commit (max_offsets b) s1"
    by (rule Spool_Seal_cases)
  have "\<forall>r \<in> set b. seen_below s1 r"
    using ok sort_slice_set [OF srt] seal_take_sel [OF t] by (simp add: spool_ok_def b seen_below_def)
  with e spool_ok_take [OF ok t] spool_ok_requeue spool_ok_commit show ?thesis by (auto split: option.splits)
qed

lemma seal_tick_ok: "sort_slice_ok srt \<Longrightarrow> spool_ok (fst x) \<Longrightarrow> spool_ok (fst (seal_tick srt E ev x))"
  using Spool_Seal_ok [of srt E _ "fst x" "snd x"]
  by (auto simp: seal_tick_def split: loop_event.split prod.split) (metis prod.collapse)

lemma NewSpool_ok: "NewSpool cfg E st = Inr s \<Longrightarrow> spool_ok s \<and> sp_buf s = []"
  by (auto simp: NewSpool_def spool_ok_def Let_def split: option.splits)


lemma delivered_duplicate:
  assumes "accept_run rt es (s, h) = Some (s1, h1)" and "r \<in> set (delivered_records es)"
  shows "duplicate r s1"
proof -
  from assms(2) obtain e where "e \<in> set (map snd es)" "snd e = r" by force
  with accept_all_duplicates [OF this(1), of s] accept_run_spool [OF assms(1)] show ?thesis by simp
qed


lemma snapshot_window:
  assumes "sort_slice_ok srt"
  shows "ts_sorted False (Spool_Snapshot srt s start stop)"
    and "mset (Spool_Snapshot srt s start stop) =
      mset (filter (\<lambda>r. in_window start stop (rec_Timestamp r)) (sp_buf s))"
proof -
  have "Spool_Snapshot srt s start stop = srt (filter (\<lambda>r. in_window start stop (rec_Timestamp r)) (sp_buf s))"
    unfolding Spool_Snapshot_def
    by (rule arg_cong [of _ _ srt], rule filter_cong [OF refl]) (auto simp: in_window_def)
  with assms show "ts_sorted False (Spool_Snapshot srt s start stop)"
    and "mset (Spool_Snapshot srt s start stop) =
      mset (filter (\<lambda>r. in_window start stop (rec_Timestamp r)) (sp_buf s))"
    by (simp_all add: sort_slice_ok_def)
qed


section \<open>Properties\<close>

text \<open>
  C11: redelivery is harmless.  Whatever stream of records the spool has seen, delivering any of
  them again, in any order and any number of times, changes neither the spool nor what
  subscribers receive.
\<close>

theorem redelivery_changes_nothing:
  assumes "accept_run rt es (s, h) = Some (s1, h1)"
    and "set (delivered_records fs) \<subseteq> set (delivered_records es)"
  shows "accept_run rt fs (s1, h1) = Some (s1, h1)"
  using assms(2)
proof (induction fs)
  case (Cons f fs)
  obtain ids now r where f: "f = (ids, now, r)" by (cases f)
  with Cons.prems have "duplicate r s1" using delivered_duplicate [OF assms(1)] by simp
  with Cons f show ?case by (simp add: Accept_def)
qed simp

theorem redelivery_changes_nothing_witness:
  "let s = \<lparr>sp_cfg = \<lparr>sc_WorkDir = ''/w'', sc_MaxSegBytes = 1, sc_MaxSegAge = 1\<rparr>, sp_buf = [], sp_bufBytes = 0,
      sp_openSince = 0, sp_received = Map.empty, sp_committed = Map.empty\<rparr>;
     s1 = accept_new 5 sample_record s
   in accept_run bare_runtime [([], 6, sample_record), ([], 7, sample_record)] (s1, None) = Some (s1, None)"
  unfolding Let_def
  by (rule redelivery_changes_nothing [where es = "[([], 5, sample_record)]" and h = None and
        s = "\<lparr>sp_cfg = \<lparr>sc_WorkDir = ''/w'', sc_MaxSegBytes = 1, sc_MaxSegAge = 1\<rparr>, sp_buf = [], sp_bufBytes = 0,
          sp_openSince = 0, sp_received = Map.empty, sp_committed = Map.empty\<rparr>"])
    (simp_all add: Accept_def duplicate_def)

text \<open>
  C15: the spool takes each record of a source once, in the order of its offsets.  After any
  stream, the records it holds are a subsequence of the stream, rising in offset for each
  source; every record of the stream is at or below the received offset of its source; and its
  byte count is the sum of the estimates.
\<close>

theorem spool_holds_each_record_once:
  assumes "NewSpool cfg E st = Inr s" and "accept_run rt es (s, h) = Some (s1, h1)"
  shows "rising (sp_buf s1) \<and> subseq (sp_buf s1) (delivered_records es) \<and>
    list_all (\<lambda>r. duplicate r s1) (delivered_records es) \<and>
    sp_bufBytes s1 = sum_list (map estimateSize (sp_buf s1))"
proof -
  note s1 = accept_run_spool [OF assms(2)]
  from NewSpool_ok [OF assms(1)] have ok: "spool_ok s" and nil: "sp_buf s = []" by auto
  have recs: "map snd (map snd es) = delivered_records es" by (simp add: comp_def)
  have "list_all (\<lambda>r. duplicate r s1) (delivered_records es)"
    using delivered_duplicate [OF assms(2)] by (simp only: list_all_iff) blast
  with accept_all_rising [OF ok, of "map snd es"] accept_all_ok [OF ok, of "map snd es"] s1 nil recs
  show ?thesis by (auto simp: spool_ok_def comp_def)
qed

theorem spool_holds_each_record_once_witness:
  "\<exists>s s1. NewSpool \<lparr>sc_WorkDir = ''/w'', sc_MaxSegBytes = 0, sc_MaxSegAge = 0\<rparr>
      (sample_env empty_meta) (sample_store []) = Inr s \<and>
    accept_run bare_runtime [([], 5, sample_record), ([], 6, later_record), ([], 7, sample_record)] (s, None)
      = Some (s1, None) \<and> rising (sp_buf s1) \<and> sp_buf s1 = [sample_record, later_record]"
proof -
  let ?es = "[([], 5, sample_record), ([], 6, later_record), ([], 7, sample_record)]"
  have "SourceWatermarks (sample_env empty_meta) (sample_store []) = Inr Map.empty"
    by (simp add: SourceWatermarks_def cat_all_def cat_overlapping_def sample_bolt_def)
  then obtain s where n: "NewSpool \<lparr>sc_WorkDir = ''/w'', sc_MaxSegBytes = 0, sc_MaxSegAge = 0\<rparr>
      (sample_env empty_meta) (sample_store []) = Inr s" "sp_buf s = []" "sp_received s = Map.empty"
    by (simp add: NewSpool_def Let_def sample_os_def)
  then have "\<exists>s1. accept_run bare_runtime ?es (s, None) = Some (s1, None) \<and> sp_buf s1 = [sample_record, later_record]"
    by (simp add: Accept_def duplicate_def sample_record_def later_record_def)
  with n(1) spool_holds_each_record_once [OF n(1), of bare_runtime ?es None] show ?thesis by blast
qed

text \<open>What a seal does to the spool.\<close>

lemma Seal_spool:
  assumes "Spool_Seal srt E io s st = (res, s', st')" and "sort_slice_ok srt" and "spool_ok s"
    and "\<forall>r \<in> set (sp_buf s). 0 < rec_Offset r"
  shows "spool_ok s' \<and> sp_received s' = sp_received s \<and>
    (case res of
       Inl e \<Rightarrow> mset (sp_buf s') = mset (sp_buf s) \<and> sp_committed s' = sp_committed s
     | Inr n \<Rightarrow> n = length (sp_buf s) \<and> sp_buf s' = [] \<and>
         (\<forall>r \<in> set (sp_buf s). rec_Offset r \<le> get0 (sp_committed s') (rec_key r)))"
proof (cases "sp_buf s = []")
  case True
  with assms show ?thesis by (auto simp: Spool_Seal_def)
next
  case False
  from assms(1) False obtain b s1 e where b: "b = srt (sp_buf s)" and t: "seal_take s = (sp_buf s, s1)"
    and e: "case e of Some x \<Rightarrow> res = Inl x \<and> s' = requeue (io_now io) b s1
      | None \<Rightarrow> res = Inr (length b) \<and> s' = seal_commit (max_offsets b) s1"
    by (rule Spool_Seal_cases)
  have m: "mset b = mset (sp_buf s)" using assms(2) b by (simp add: sort_slice_ok_def)
  then have "set b = set (sp_buf s)" "length b = length (sp_buf s)" by (metis set_mset_mset, metis size_mset)
  with Spool_Seal_ok [OF assms(1-3)] seal_take_sel [OF t] e m assms(4) seal_commit_ge [of _ b s1] show ?thesis
    by (auto split: option.splits)
qed

text \<open>What a seal does to the bucket.\<close>

lemma Seal_bucket:
  assumes "Spool_Seal srt (s3_env E K) io s st = (res, s', st')" and wok: "s3_wok srt E K bucket key_of staged gr gn good st"
    and allowed: "seal_allowed (s3_env E K) bucket good io (srt (sp_buf s)) st"
    and rec: "\<forall>r \<in> set (sp_buf s). storable gr gn r"
  shows "s3_wok srt E K bucket key_of staged gr gn good st' \<and> s3_durable E K bucket st \<subseteq> s3_durable E K bucket st' \<and>
    (\<forall>n. res = Inr n \<longrightarrow> set (sp_buf s) \<subseteq> s3_durable E K bucket st')"
proof (cases "sp_buf s = []")
  case True
  with assms(1) wok show ?thesis by (auto simp: Spool_Seal_def)
next
  case False
  from assms(1) False obtain b s1 e where b: "b = srt (sp_buf s)"
    and e: "seal_segment (s3_env E K) io (tmp_path s1 io) b st = (e, st')"
    and r: "case e of Some x \<Rightarrow> res = Inl x \<and> s' = requeue (io_now io) b s1
      | None \<Rightarrow> res = Inr (length b) \<and> s' = seal_commit (max_offsets b) s1"
    by (rule Spool_Seal_cases)
  have srt: "sort_slice_ok srt" using wok by (simp add: s3_wok_def manager_env_ok_def)
  then have m: "mset b = mset (sp_buf s)" and sorted: "ts_sorted False b" using b by (simp_all add: sort_slice_ok_def)
  then have set: "set b = set (sp_buf s)" by (metis set_mset_mset)
  with False have "b \<noteq> []" by auto
  from seal_segment_ok [OF wok this sorted _ allowed [folded b] e] rec set r show ?thesis by (auto split: option.splits)
qed

text \<open>
  C12: a seal loses nothing.  Take a seal over the production store, of records that can be stored
  and have positive offsets.  When it fails, the records are all back in the buffer and the
  committed offsets are as before; when it succeeds, all of them are in sealed segments of the
  bucket, the buffer is empty and the offset of each is committed.  In both cases the records that
  were durable still are, and the byte count and the bounds between committed and received
  offsets are kept.
\<close>

theorem Seal_outcomes:
  assumes "Spool_Seal srt (s3_env E K) io s st = (res, s', st')" and "s3_wok srt E K bucket key_of staged gr gn good st"
    and "seal_allowed (s3_env E K) bucket good io (srt (sp_buf s)) st" and "spool_ok s"
    and "\<forall>r \<in> set (sp_buf s). 0 < rec_Offset r \<and> storable gr gn r"
  shows "spool_ok s' \<and> sp_received s' = sp_received s \<and>
    durable_records (s3_env E K) (bucket (st_blobs st)) \<subseteq> durable_records (s3_env E K) (bucket (st_blobs st')) \<and>
    (case res of
       Inl e \<Rightarrow> mset (sp_buf s') = mset (sp_buf s) \<and> sp_committed s' = sp_committed s
     | Inr n \<Rightarrow> n = length (sp_buf s) \<and> sp_buf s' = [] \<and>
         set (sp_buf s) \<subseteq> durable_records (s3_env E K) (bucket (st_blobs st')) \<and>
         (\<forall>r \<in> set (sp_buf s). rec_Offset r \<le> get0 (sp_committed s') (rec_key r)))"
proof -
  have "sort_slice_ok srt" using assms(2) by (simp add: s3_wok_def manager_env_ok_def)
  note spool = Seal_spool [OF assms(1) this assms(4)]
  from spool Seal_bucket [OF assms(1-3)] assms(5) show ?thesis by (cases res) simp_all
qed

theorem Seal_outcomes_witness:
  "\<exists>meta s' st'. let s = accept_new 5 sample_record \<lparr>sp_cfg = sample_cfg,
      sp_buf = [], sp_bufBytes = 0, sp_openSince = 0, sp_received = Map.empty, sp_committed = Map.empty\<rparr> in
    Spool_Seal (sort_key rec_Timestamp) (sample_env (sample_keyed meta)) (sample_io False) s (sample_store []) = (Inr 1, s', st') \<and>
    sp_buf s' = [] \<and> sample_record \<in> durable_records (sample_env (sample_keyed meta)) (sample_bucket (st_blobs st'))"
proof -
  obtain meta body where ws: "write_segment sample_codec mem_writer 0 [sample_record] = Inr (meta, body)"
    "length body < 2 ^ 31" using sample_write by blast
  let ?E = "sample_env (sample_keyed meta)" and ?M = "sample_machine meta 1"
  let ?s = "accept_new 5 sample_record \<lparr>sp_cfg = sample_cfg,
      sp_buf = [], sp_bufBytes = 0, sp_openSince = 0, sp_received = Map.empty, sp_committed = Map.empty\<rparr>"
  have buf: "sp_buf ?s = [sample_record]" by (simp add: accept_new_def)
  obtain res s' st' where seal: "Spool_Seal (sort_key rec_Timestamp) (s3_env ?E sample_s3) (sample_io False) ?s (sample_store [])
      = (res, s', st')"
    by (cases "Spool_Seal (sort_key rec_Timestamp) (s3_env ?E sample_s3) (sample_io False) ?s (sample_store [])")
  have "sp_buf ?s \<noteq> []" by (simp add: buf)
  with seal obtain b s1 e where "b = sort_key rec_Timestamp (sp_buf ?s)"
    and "seal_segment (s3_env ?E sample_s3) (sample_io False) (tmp_path s1 (sample_io False)) b (sample_store []) = (e, st')"
    and r: "case e of Some x \<Rightarrow> res = Inl x \<and> s' = requeue (io_now (sample_io False)) b s1
      | None \<Rightarrow> res = Inr (length b) \<and> s' = seal_commit (max_offsets b) s1"
    by (rule Spool_Seal_cases)
  then have b: "b = [sample_record]"
    and e: "seal_segment (s3_env ?E sample_s3) (sample_io False) (tmp_path s1 (sample_io False)) [sample_record] (sample_store []) = (e, st')"
    by (simp_all add: buf)
  obtain st'' where "mc_upload ?M (sample_io False, tmp_path s1 (sample_io False)) [sample_record] (sample_store []) = (None, st'')"
    using sample_upload(4) [OF ws sample_store_sel(2)] by blast
  with e have "e = None" by (simp add: sample_machine_def manager_machine_def)
  have "mc_allowed ?M (sample_io False, []) [sample_record] (sample_store [])" by (rule sample_upload(3) [OF ws]) simp
  then have allowed: "seal_allowed (s3_env ?E sample_s3) sample_bucket (sample_meta_good meta) (sample_io False)
      (sort_key rec_Timestamp (sp_buf ?s)) (sample_store [])"
    by (simp add: buf sample_machine_def manager_machine_def)
  have ok: "spool_ok ?s" by (simp add: spool_ok_def seen_below_def)
  have rec: "\<forall>r \<in> set (sp_buf ?s). 0 < rec_Offset r \<and> storable sample_good (\<lambda>x. False) r"
    using sample_storable buf by (simp add: sample_record_def)
  from Seal_outcomes [OF seal sample_wok allowed ok rec] r b \<open>e = None\<close> buf seal show ?thesis
    unfolding Let_def by (intro exI [of _ meta] exI [of _ s'] exI [of _ st']) simp
qed

text \<open>
  A snapshot of the open buffer for a query is sorted by time and holds the buffered records
  of the window, each as often as the buffer.
\<close>

theorem Snapshot_sorted_window:
  assumes "sort_slice_ok srt"
  shows "ts_sorted False (Spool_Snapshot srt s start stop) \<and>
    mset (Spool_Snapshot srt s start stop) =
      mset (filter (\<lambda>r. in_window start stop (rec_Timestamp r)) (sp_buf s))"
  using snapshot_window [OF assms] by blast

theorem Snapshot_sorted_window_witness:
  "ts_sorted False (Spool_Snapshot (sort_key rec_Timestamp) \<lparr>sp_cfg = \<lparr>sc_WorkDir = ''/w'', sc_MaxSegBytes = 1,
      sc_MaxSegAge = 1\<rparr>, sp_buf = [later_record, sample_record], sp_bufBytes = 0, sp_openSince = 0,
      sp_received = Map.empty, sp_committed = Map.empty\<rparr> zero_time zero_time)"
  using Snapshot_sorted_window [OF sort_key_slice_ok] by blast

text \<open>
  C13: a call of \<open>Seal\<close> that runs to its end is a sequence of steps of the manager's machine, so
  what holds of the machine's runs holds of the code's seals.
\<close>

theorem Seal_refines_machine:
  assumes "Spool_Seal srt E io s st = (res, s', st')" and "sp_buf s \<noteq> []" and "0 < n"
    and "seal_allowed E objs good io (srt (sp_buf s)) st"
    and w: "mg_spool w = s" "mg_world w = st" "mg_flight w = []"
  shows "mgr_steps (manager_machine srt cfg n E objs good records) w (w\<lparr>mg_spool := s', mg_world := st'\<rparr>)"
proof -
  let ?M = "manager_machine srt cfg n E objs good records"
  from assms(1,2) obtain b s1 e where b: "b = srt (sp_buf s)" and t: "seal_take s = (sp_buf s, s1)"
    and e: "seal_segment E io (tmp_path s1 io) b st = (e, st')" and
    res: "case e of Some x \<Rightarrow> res = Inl x \<and> s' = requeue (io_now io) b s1
      | None \<Rightarrow> res = Inr (length b) \<and> s' = seal_commit (max_offsets b) s1"
    by (rule Spool_Seal_cases)
  let ?w1 = "w\<lparr>mg_spool := s1, mg_flight := [(b, None)]\<rparr>"
  let ?w2 = "?w1\<lparr>mg_world := st', mg_flight := [(b, Some (e = None))]\<rparr>"
  have "mgr_step ?M w ?w1"
    using mgr_step.take [of w ?M "sp_buf s" s1] assms(2,3) t b w by (simp add: manager_machine_def)
  moreover have "mgr_step ?M ?w1 ?w2"
    using upload_step [of ?w1 "[]" b "[]" st ?M "(io, tmp_path s1 io)" e st'] w e assms(4) b
    by (simp add: manager_machine_def)
  moreover have "w\<lparr>mg_world := st', mg_spool := s', mg_flight := []\<rparr> = w\<lparr>mg_spool := s', mg_world := st'\<rparr>"
    using w(3) by (cases w) simp
  then have "mgr_step ?M ?w2 (w\<lparr>mg_spool := s', mg_world := st'\<rparr>)"
    using commit_step [of ?w2 "[]" b "[]" ?M] mgr_step.requeue [of 0 ?w2 b ?M "io_now io"] res
    by (cases e) (simp_all add: drop_nth_def)
  ultimately show ?thesis by (meson converse_rtranclp_into_rtranclp r_into_rtranclp)
qed

theorem Seal_refines_machine_witness:
  "\<exists>meta w res s' st'. sp_buf (mg_spool w) = [sample_record] \<and>
    Spool_Seal (sort_key rec_Timestamp) (sample_env (sample_keyed meta)) (sample_io False) (mg_spool w) (mg_world w)
      = (res, s', st') \<and> mgr_steps (sample_machine meta 1) w (w\<lparr>mg_spool := s', mg_world := st'\<rparr>)"
proof -
  obtain meta body where ws: "write_segment sample_codec mem_writer 0 [sample_record] = Inr (meta, body)"
    "length body < 2 ^ 31" using sample_write by blast
  let ?s = "\<lparr>sp_cfg = sample_cfg, sp_buf = [sample_record], sp_bufBytes = 0, sp_openSince = 0,
      sp_received = Map.empty, sp_committed = Map.empty\<rparr>"
  let ?w = "\<lparr>mg_spool = ?s, mg_hub = None, mg_world = sample_store [], mg_flight = [], mg_accepted = {}\<rparr>"
  let ?E = "sample_env (sample_keyed meta)"
  obtain res s' st' where seal: "Spool_Seal (sort_key rec_Timestamp) ?E (sample_io False) ?s (sample_store []) = (res, s', st')"
    by (cases "Spool_Seal (sort_key rec_Timestamp) ?E (sample_io False) ?s (sample_store [])")
  have "mc_allowed (sample_machine meta 1) (sample_io False, []) [sample_record] (sample_store [])"
    by (rule sample_upload(3) [OF ws]) simp
  then have "seal_allowed ?E sample_bucket (sample_meta_good meta) (sample_io False) [sample_record] (sample_store [])"
    by (simp add: sample_machine_def manager_machine_def)
  then have "mgr_steps (sample_machine meta 1) ?w (?w\<lparr>mg_spool := s', mg_world := st'\<rparr>)"
    unfolding sample_machine_def by (intro Seal_refines_machine [OF seal]) simp_all
  with seal show ?thesis by (intro exI [of _ meta] exI [of _ ?w] exI [of _ res] exI [of _ s'] exI [of _ st']) simp
qed

end
