(* ===== verification/Ingest.thy ===== *)
theory Ingest
  imports Manager
begin

text \<open>
  The feed from agents to the manager, \<open>internal/ingest/server.go\<close> and \<open>client.go\<close>: the client's
  window of unacknowledged records with its caps, the batches it sends, the acknowledgements it
  applies, and the server that decodes batches and acknowledges committed offsets.
\<close>


section \<open>The client\<close>

record ClientConfig =
  cc_MaxHeldBytes :: int
  cc_HardMaxBytes :: int
  cc_BatchBytes :: int
  cc_BatchWait :: int
  cc_Backoff :: int

definition ClientConfig_defaults :: "ClientConfig \<Rightarrow> ClientConfig" where
  "ClientConfig_defaults c0 =
     (let c1 = (if cc_MaxHeldBytes c0 \<le> 0 then c0\<lparr>cc_MaxHeldBytes := 67108864\<rparr> else c0);
          c2 = (if cc_HardMaxBytes c1 \<le> 0 then c1\<lparr>cc_HardMaxBytes := wrap64 (2 * cc_MaxHeldBytes c1)\<rparr> else c1);
          c3 = (if cc_BatchBytes c2 \<le> 0 then c2\<lparr>cc_BatchBytes := 262144\<rparr> else c2);
          c4 = (if cc_BatchWait c3 \<le> 0 then c3\<lparr>cc_BatchWait := 200000000\<rparr> else c3) in
      if cc_Backoff c4 \<le> 0 then c4\<lparr>cc_Backoff := 1000000000\<rparr> else c4)"

record envelope =
  en_sourceKey :: string
  en_offset :: int
  en_raw :: string
  en_sent :: bool

text \<open>
  The client.  \<open>cl_commits\<close> are the calls of the commit function so far, in their order.
\<close>

record client =
  cl_cfg :: ClientConfig
  cl_unacked :: "envelope list"
  cl_heldByte :: int
  cl_dropped :: int
  cl_closed :: bool
  cl_commits :: "(string \<times> int) list"

definition NewClient :: "ClientConfig \<Rightarrow> client" where
  "NewClient cfg = \<lparr>cl_cfg = ClientConfig_defaults cfg, cl_unacked = [], cl_heldByte = 0, cl_dropped = 0,
     cl_closed = False, cl_commits = []\<rparr>"

definition dropOldestLocked :: "client \<Rightarrow> client" where
  "dropOldestLocked c =
     (case cl_unacked c of
        [] \<Rightarrow> c
      | old # rest \<Rightarrow> c\<lparr>cl_unacked := rest, cl_heldByte := cl_heldByte c - int (length (en_raw old)),
          cl_dropped := cl_dropped c + 1, cl_commits := cl_commits c @ [(en_sourceKey old, en_offset old)]\<rparr>)"

text \<open>
  One pass through the loop of \<open>Enqueue\<close>, with the lock held: it fails, waits for a broadcast to
  try again, or appends the record.
\<close>

datatype enqueue_result = Failed go_error | Waits | Enqueued client

definition Enqueue :: "(log_record \<Rightarrow> go_error + string) \<Rightarrow> log_record \<Rightarrow> client \<Rightarrow> enqueue_result" where
  "Enqueue marshal r c =
     (case marshal r of
        Inl e \<Rightarrow> Failed e
      | Inr raw \<Rightarrow>
          (let n = int (length raw);
               add = (\<lambda>c. if cl_closed c then Failed Canceled
                 else Enqueued (c\<lparr>cl_unacked := cl_unacked c @
                     [\<lparr>en_sourceKey = rec_key r, en_offset = rec_Offset r, en_raw = raw, en_sent = False\<rparr>],
                   cl_heldByte := cl_heldByte c + n\<rparr>)) in
           if cl_heldByte c + n > cc_MaxHeldBytes (cl_cfg c) \<and> \<not> cl_closed c then
             (if cl_heldByte c + n > cc_HardMaxBytes (cl_cfg c) then add (dropOldestLocked c) else Waits)
           else add c))"

definition Client_Close :: "client \<Rightarrow> client" where
  "Client_Close c = c\<lparr>cl_closed := True\<rparr>"

text \<open>
  One round of \<open>flush\<close>: the unsent envelopes up to the batch size, marked as sent; and all rounds,
  as long as there is something to send.
\<close>

fun collect_batch :: "int \<Rightarrow> int \<Rightarrow> envelope list \<Rightarrow> string list \<times> envelope list" where
  "collect_batch lim nbytes [] = ([], [])"
| "collect_batch lim nbytes (e # es) =
     (if en_sent e then (let (b, es') = collect_batch lim nbytes es in (b, e # es'))
      else
        (let n = nbytes + int (length (en_raw e)) in
         if n \<ge> lim then ([en_raw e], e\<lparr>en_sent := True\<rparr> # es)
         else (let (b, es') = collect_batch lim n es in (en_raw e # b, e\<lparr>en_sent := True\<rparr> # es'))))"

definition unsent :: "envelope list \<Rightarrow> envelope list" where
  "unsent es = filter (\<lambda>e. \<not> en_sent e) es"

lemma collect_batch_split:
  "collect_batch lim n es = (b, es') \<Longrightarrow>
    map en_raw (unsent es) = b @ map en_raw (unsent es') \<and> map (en_sent_update (\<lambda>_. False)) es' = map (en_sent_update (\<lambda>_. False)) es \<and>
    (b = [] \<longleftrightarrow> unsent es = [])"
proof (induction lim n es arbitrary: b es' rule: collect_batch.induct)
  case (2 lim n e es)
  show ?case
  proof (cases "en_sent e")
    case True
    with 2 show ?thesis by (auto simp: unsent_def split: prod.splits)
  next
    case False
    note ns = False
    let ?n = "n + int (length (en_raw e))"
    show ?thesis
    proof (cases "?n \<ge> lim")
      case True
      with ns "2.prems" show ?thesis by (auto simp: unsent_def Let_def)
    next
      case False
      obtain b1 es1 where c: "collect_batch lim ?n es = (b1, es1)" by (cases "collect_batch lim ?n es")
      from "2.IH"(2) [OF ns refl False c] c ns False "2.prems" show ?thesis by (auto simp: unsent_def Let_def)
    qed
  qed
qed (simp add: unsent_def)

lemma collect_batch_less:
  assumes "collect_batch lim n es = (b, es')" and "b \<noteq> []"
  shows "length (unsent es') < length (unsent es)"
proof -
  from collect_batch_split [OF assms(1)] have "map en_raw (unsent es) = b @ map en_raw (unsent es')" by blast
  then have "length (unsent es) = length b + length (unsent es')" by (metis length_append length_map)
  with assms(2) show ?thesis by simp
qed

text \<open>
  \<open>flush\<close> over a stream on which the given number of sends succeeds: the batches sent, and whether a
  send failed.  The envelopes of a failed send stay marked; the session ends with it.
\<close>

function flush :: "nat \<Rightarrow> client \<Rightarrow> string list list \<times> bool \<times> client" where
  "flush sends c =
     (case collect_batch (cc_BatchBytes (cl_cfg c)) 0 (cl_unacked c) of
        (b, es) \<Rightarrow>
          (let c1 = c\<lparr>cl_unacked := es\<rparr> in
           if b = [] then ([], False, c1)
           else if sends = 0 then ([], True, c1)
           else (case flush (sends - 1) c1 of (bs, err, c2) \<Rightarrow> (b # bs, err, c2))))"
  by pat_completeness auto
termination
  by (relation "measure (\<lambda>(n, c). length (unsent (cl_unacked c)))") (auto dest!: collect_batch_less [OF sym])

declare flush.simps [simp del]

text \<open>The start of \<open>sendLoop\<close>: the whole window is to be sent again.\<close>

definition reset_window :: "client \<Rightarrow> client" where
  "reset_window c = c\<lparr>cl_unacked := map (\<lambda>e. e\<lparr>en_sent := False\<rparr>) (cl_unacked c)\<rparr>"

type_synonym ack = "(string \<times> int) list"

text \<open>A later entry of a key overrides an earlier one, as in the map the code builds.\<close>

definition ack_map :: "ack \<Rightarrow> (string \<rightharpoonup> int)" where
  "ack_map a = map_of (rev a)"

definition acks_envelope :: "ack \<Rightarrow> envelope \<Rightarrow> bool" where
  "acks_envelope a e = (case ack_map a (en_sourceKey e) of None \<Rightarrow> False | Some off \<Rightarrow> en_offset e \<le> off)"

definition applyAck :: "ack \<Rightarrow> client \<Rightarrow> client" where
  "applyAck a c =
     (let kept = filter (\<lambda>e. \<not> acks_envelope a e) (cl_unacked c) in
      c\<lparr>cl_commits := cl_commits c @ a, cl_unacked := kept,
        cl_heldByte := sum_list (map (\<lambda>e. int (length (en_raw e))) kept)\<rparr>)"


section \<open>The server\<close>

text \<open>\<open>seen\<close> in the order in which the runtime visits the map.\<close>

definition buildAck :: "string list \<Rightarrow> (string \<rightharpoonup> int) \<Rightarrow> ack" where
  "buildAck seen committed = map (\<lambda>k. (k, the (committed k))) (filter (\<lambda>k. committed k \<noteq> None) seen)"

text \<open>
  One record of a batch: a malformed one is skipped.  The surroundings of \<open>Accept\<close> come with the
  record.
\<close>

definition recv_record ::
  "runtime \<Rightarrow> (string \<Rightarrow> go_error + log_record) \<Rightarrow> nat list \<times> time \<times> string \<Rightarrow> string list \<times> spool \<times> hub option \<Rightarrow>
    (string list \<times> spool \<times> hub option) option" where
  "recv_record rt unmarshal e = (\<lambda>(seen, s, h).
     case e of (ids, now, raw) \<Rightarrow>
       (case unmarshal raw of
          Inl err \<Rightarrow> Some (seen, s, h)
        | Inr r \<Rightarrow> map_option (\<lambda>(s1, h1). (List.insert (rec_key r) seen, s1, h1)) (Accept rt ids now r (s, h))))"

fun recv_batch ::
  "runtime \<Rightarrow> (string \<Rightarrow> go_error + log_record) \<Rightarrow> (nat list \<times> time \<times> string) list \<Rightarrow> string list \<times> spool \<times> hub option \<Rightarrow>
    (string list \<times> spool \<times> hub option) option" where
  "recv_batch rt unmarshal [] x = Some x"
| "recv_batch rt unmarshal (e # es) x = Option.bind (recv_record rt unmarshal e x) (recv_batch rt unmarshal es)"

text \<open>
  The acknowledgement of the ticker and the one after a batch, which are sent only when not empty; a
  batch with the latter.
\<close>

definition Stream_ack :: "string list \<Rightarrow> spool \<Rightarrow> ack option" where
  "Stream_ack seen s = (let a = buildAck seen (Committed s) in if a = [] then None else Some a)"

definition Stream_batch ::
  "runtime \<Rightarrow> (string \<Rightarrow> go_error + log_record) \<Rightarrow> (nat list \<times> time \<times> string) list \<Rightarrow> string list \<times> spool \<times> hub option \<Rightarrow>
    (ack option \<times> string list \<times> spool \<times> hub option) option" where
  "Stream_batch rt unmarshal es x =
     map_option (\<lambda>(seen, s, h). (Stream_ack seen s, seen, s, h)) (recv_batch rt unmarshal es x)"


section \<open>Runs of the client\<close>

text \<open>
  What happens to a client: records come from the tails, sessions start and flush, acknowledgements
  arrive.  A call of \<open>Enqueue\<close> that waits changes nothing.
\<close>

datatype client_event = OnEnqueue log_record | OnClose | OnReconnect | OnFlush nat | OnAck ack

fun client_step :: "(log_record \<Rightarrow> go_error + string) \<Rightarrow> client_event \<Rightarrow> client \<Rightarrow> client" where
  "client_step marshal (OnEnqueue r) c = (case Enqueue marshal r c of Enqueued c1 \<Rightarrow> c1 | _ \<Rightarrow> c)"
| "client_step marshal OnClose c = Client_Close c"
| "client_step marshal OnReconnect c = reset_window c"
| "client_step marshal (OnFlush n) c = snd (snd (flush n c))"
| "client_step marshal (OnAck a) c = applyAck a c"

definition client_run :: "(log_record \<Rightarrow> go_error + string) \<Rightarrow> client_event list \<Rightarrow> client \<Rightarrow> client" where
  "client_run marshal = fold (client_step marshal)"

text \<open>The content of an envelope, without the mark of the session.\<close>

definition core :: "envelope \<Rightarrow> envelope" where
  "core e = e\<lparr>en_sent := False\<rparr>"

definition envelope_of :: "log_record \<Rightarrow> string \<Rightarrow> envelope" where
  "envelope_of r raw = \<lparr>en_sourceKey = rec_key r, en_offset = rec_Offset r, en_raw = raw, en_sent = False\<rparr>"

abbreviation raw_bytes :: "envelope list \<Rightarrow> int" where
  "raw_bytes es \<equiv> sum_list (map (\<lambda>e. int (length (en_raw e))) es)"

lemma core_sel [simp]:
  "en_sourceKey (core e) = en_sourceKey e" "en_offset (core e) = en_offset e" "en_raw (core e) = en_raw e"
  "core (core e) = core e" "core (envelope_of r raw) = envelope_of r raw"
  by (simp_all add: core_def envelope_of_def)

lemma raw_bytes_core: "map core es = map core es' \<Longrightarrow> raw_bytes es = raw_bytes es'"
proof -
  assume "map core es = map core es'"
  then have "map (\<lambda>e. int (length (en_raw e))) (map core es) = map (\<lambda>e. int (length (en_raw e))) (map core es')" by simp
  then show ?thesis by (simp add: o_def)
qed

lemma raw_bytes_nonneg [simp]: "0 \<le> raw_bytes es"
  by (induction es) simp_all

text \<open>A flush changes only the marks; without an error it sends all that is unsent, in order.\<close>

lemma flush_sends:
  assumes "flush n c = (bs, err, c')"
  shows "\<exists>es. c' = c\<lparr>cl_unacked := es\<rparr> \<and> map core es = map core (cl_unacked c) \<and>
    (\<not> err \<longrightarrow> concat bs = map en_raw (unsent (cl_unacked c)) \<and> unsent es = []) \<and>
    (length (unsent (cl_unacked c)) \<le> n \<longrightarrow> \<not> err)"
  using assms
proof (induction n c arbitrary: bs err c' rule: flush.induct)
  case (1 n c)
  obtain b es where b: "collect_batch (cc_BatchBytes (cl_cfg c)) 0 (cl_unacked c) = (b, es)"
    by (cases "collect_batch (cc_BatchBytes (cl_cfg c)) 0 (cl_unacked c)")
  note split = collect_batch_split [OF b, folded core_def [abs_def]]
  let ?c = "c\<lparr>cl_unacked := es\<rparr>"
  show ?case
  proof (cases "b = [] \<or> n = 0")
    case True
    with "1.prems" b split show ?thesis by (auto simp: flush.simps [of n c] Let_def)
  next
    case False
    obtain bs1 err1 c1 where f: "flush (n - 1) ?c = (bs1, err1, c1)" by (cases "flush (n - 1) ?c")
    with "1.prems" b False have res: "bs = b # bs1" "err = err1" "c' = c1"
      by (auto simp: flush.simps [of n c] Let_def)
    from "1.IH" [OF b [symmetric] refl _ _ f] False obtain es1 where es1: "c1 = ?c\<lparr>cl_unacked := es1\<rparr>"
      "map core es1 = map core es" "\<not> err1 \<longrightarrow> concat bs1 = map en_raw (unsent es) \<and> unsent es1 = []"
      "length (unsent es) \<le> n - 1 \<longrightarrow> \<not> err1" by auto
    have "length (unsent es) \<le> n - 1" if "length (unsent (cl_unacked c)) \<le> n"
      using that collect_batch_less [OF b] False by simp
    with es1 split show ?thesis unfolding res by (intro exI [of _ es1]) simp
  qed
qed

text \<open>No batch reaches the size limit before its last record.\<close>

lemma collect_batch_size:
  "collect_batch lim n es = (b, es') \<Longrightarrow> n < lim \<Longrightarrow> n + int (length (concat (butlast b))) < lim"
proof (induction lim n es arbitrary: b es' rule: collect_batch.induct)
  case (2 lim n e es)
  show ?case
  proof (cases "en_sent e")
    case True
    with 2 show ?thesis by (auto split: prod.splits)
  next
    case False
    note ns = False
    let ?n = "n + int (length (en_raw e))"
    show ?thesis
    proof (cases "?n \<ge> lim")
      case True
      with ns "2.prems" show ?thesis by (auto simp: Let_def)
    next
      case False
      obtain b1 es1 where c: "collect_batch lim ?n es = (b1, es1)" by (cases "collect_batch lim ?n es")
      from "2.IH"(2) [OF ns refl False c] c ns False "2.prems" show ?thesis by (auto simp: Let_def)
    qed
  qed
qed simp

lemma flush_batches:
  "flush n c = (bs, err, c') \<Longrightarrow> 0 < cc_BatchBytes (cl_cfg c) \<Longrightarrow> b \<in> set bs \<Longrightarrow>
    b \<noteq> [] \<and> int (length (concat (butlast b))) < cc_BatchBytes (cl_cfg c)"
proof (induction n c arbitrary: bs err c' rule: flush.induct)
  case (1 n c)
  obtain x es where x: "collect_batch (cc_BatchBytes (cl_cfg c)) 0 (cl_unacked c) = (x, es)"
    by (cases "collect_batch (cc_BatchBytes (cl_cfg c)) 0 (cl_unacked c)")
  let ?c = "c\<lparr>cl_unacked := es\<rparr>"
  from "1.prems" x have go: "x \<noteq> []" "n \<noteq> 0" by (auto simp: flush.simps [of n c] Let_def split: if_splits)
  obtain bs1 err1 c1 where f: "flush (n - 1) ?c = (bs1, err1, c1)" by (cases "flush (n - 1) ?c")
  with "1.prems"(1) x go have "bs = x # bs1" by (auto simp: flush.simps [of n c] Let_def)
  with "1.prems"(3) consider "b = x" | "b \<in> set bs1" by auto
  then show ?case
  proof cases
    case 1
    with collect_batch_size [OF x] go "1.prems"(2) show ?thesis by simp
  next
    case 2
    from "1.IH" [OF x [symmetric] refl go f _ 2] "1.prems"(2) show ?thesis by simp
  qed
qed


text \<open>The records whose \<open>Enqueue\<close> succeeded, and the acknowledgements of a run.\<close>

fun enqueued :: "(log_record \<Rightarrow> go_error + string) \<Rightarrow> client_event list \<Rightarrow> client \<Rightarrow> log_record list" where
  "enqueued marshal [] c = []"
| "enqueued marshal (OnEnqueue r # evs) c =
     (case Enqueue marshal r c of
        Enqueued c1 \<Rightarrow> r # enqueued marshal evs c1
      | _ \<Rightarrow> enqueued marshal evs c)"
| "enqueued marshal (ev # evs) c = enqueued marshal evs (client_step marshal ev c)"

fun acks_of :: "client_event list \<Rightarrow> ack" where
  "acks_of [] = []"
| "acks_of (OnAck a # evs) = a @ acks_of evs"
| "acks_of (ev # evs) = acks_of evs"

lemma client_run_simps [simp]:
  "client_run marshal [] c = c" "client_run marshal (ev # evs) c = client_run marshal evs (client_step marshal ev c)"
  by (simp_all add: client_run_def)

definition client_ok :: "client \<Rightarrow> bool" where
  "client_ok c \<longleftrightarrow> cl_heldByte c = raw_bytes (cl_unacked c)"

definition append_envelope :: "log_record \<Rightarrow> string \<Rightarrow> client \<Rightarrow> client" where
  "append_envelope r raw c = c\<lparr>cl_unacked := cl_unacked c @ [envelope_of r raw], cl_heldByte := cl_heldByte c + int (length raw)\<rparr>"

lemma EnqueueE:
  assumes "Enqueue marshal r c = Enqueued c'"
  obtains raw where "marshal r = Inr raw" "\<not> cl_closed c"
      "cl_heldByte c + int (length raw) \<le> cc_MaxHeldBytes (cl_cfg c)" "c' = append_envelope r raw c"
    | raw where "marshal r = Inr raw" "\<not> cl_closed c"
      "cl_heldByte c + int (length raw) > cc_MaxHeldBytes (cl_cfg c)"
      "cl_heldByte c + int (length raw) > cc_HardMaxBytes (cl_cfg c)"
      "c' = append_envelope r raw (dropOldestLocked c)"
proof (cases "marshal r")
  case (Inr raw)
  have closed: "cl_closed (dropOldestLocked c) = cl_closed c" by (simp add: dropOldestLocked_def split: list.split)
  note enq = Enqueue_def append_envelope_def envelope_of_def Let_def
  show ?thesis
  proof (cases "cl_heldByte c + int (length raw) > cc_MaxHeldBytes (cl_cfg c)")
    case True
    with assms Inr closed show ?thesis by (intro that(2) [OF Inr]) (simp_all add: enq split: if_splits)
  next
    case False
    with assms Inr show ?thesis by (intro that(1) [OF Inr]) (simp_all add: enq split: if_splits)
  qed
qed (use assms in \<open>simp add: Enqueue_def\<close>)

lemma append_envelope_ok: "client_ok c \<Longrightarrow> client_ok (append_envelope r raw c)"
  by (simp add: client_ok_def append_envelope_def envelope_of_def)

lemma client_step_ok [inv_intros]: "client_ok c \<Longrightarrow> client_ok (client_step marshal ev c)"
proof (cases ev)
  case (OnEnqueue r)
  assume ok: "client_ok c"
  then have "client_ok (dropOldestLocked c)" by (simp add: client_ok_def dropOldestLocked_def split: list.split)
  then have "client_ok c'" if "Enqueue marshal r c = Enqueued c'" for c'
    using that ok append_envelope_ok by (elim EnqueueE) simp_all
  with ok OnEnqueue show ?thesis by (simp split: enqueue_result.split)
next
  case (OnFlush n)
  assume ok: "client_ok c"
  obtain bs err c' where f: "flush n c = (bs, err, c')" by (cases "flush n c")
  from flush_sends [OF f] obtain es where "c' = c\<lparr>cl_unacked := es\<rparr>" "map core es = map core (cl_unacked c)" by blast
  with ok f OnFlush raw_bytes_core [of es "cl_unacked c"] show ?thesis by (simp add: client_ok_def)
qed (simp_all add: client_ok_def Client_Close_def reset_window_def applyAck_def Let_def o_def)

lemma client_run_ok: "client_ok c \<Longrightarrow> client_ok (client_run marshal evs c)"
  by (induction evs arbitrary: c) (simp_all add: client_step_ok)

lemma NewClient_ok: "client_ok (NewClient cfg)"
  by (simp add: client_ok_def NewClient_def)

text \<open>A record is held as long as no commit covers it.\<close>

definition held :: "envelope \<Rightarrow> client \<Rightarrow> bool" where
  "held e c \<longleftrightarrow> e \<in> core ` set (cl_unacked c) \<or>
     (\<exists>off. (en_sourceKey e, off) \<in> set (cl_commits c) \<and> en_offset e \<le> off)"

lemma held_dropOldest: "held e c \<Longrightarrow> held e (dropOldestLocked c)"
  by (auto simp: held_def dropOldestLocked_def split: list.split)

lemma ack_map_mem: "ack_map a k = Some v \<Longrightarrow> (k, v) \<in> set a"
  unfolding ack_map_def by (drule map_of_SomeD) simp

lemma held_append: "held e c \<Longrightarrow> held e (append_envelope r raw c)" "held (envelope_of r raw) (append_envelope r raw c)"
  by (auto simp: held_def append_envelope_def)

lemma held_Enqueue:
  assumes "Enqueue marshal r c = Enqueued c'"
  shows "held e c \<Longrightarrow> held e c'" and "marshal r = Inr raw \<Longrightarrow> held (envelope_of r raw) c'"
  using assms by (elim EnqueueE; simp add: held_append held_dropOldest)+

lemma held_step: "held e c \<Longrightarrow> held e (client_step marshal ev c)"
proof (cases ev)
  case (OnEnqueue r)
  then show "held e c \<Longrightarrow> ?thesis" using held_Enqueue(1) by (simp split: enqueue_result.split)
next
  case (OnFlush n)
  assume h: "held e c"
  obtain bs err c' where f: "flush n c = (bs, err, c')" by (cases "flush n c")
  from flush_sends [OF f] obtain es where c': "c' = c\<lparr>cl_unacked := es\<rparr>" "map core es = map core (cl_unacked c)" by blast
  then have "core ` set es = core ` set (cl_unacked c)" by (metis list.set_map)
  with h c' f OnFlush show ?thesis by (simp add: held_def)
next
  case (OnAck a)
  assume h: "held e c"
  show ?thesis
  proof (cases "e \<in> core ` set (cl_unacked c)")
    case True
    then obtain x where x: "x \<in> set (cl_unacked c)" "e = core x" by blast
    show ?thesis
    proof (cases "acks_envelope a x")
      case True
      then obtain off where "ack_map a (en_sourceKey e) = Some off" "en_offset e \<le> off"
        using x by (auto simp: acks_envelope_def split: option.splits)
      with ack_map_mem OnAck show ?thesis by (fastforce simp: held_def applyAck_def Let_def)
    next
      case False
      with x OnAck show ?thesis by (auto simp: held_def applyAck_def Let_def)
    qed
  next
    case False
    with h OnAck show ?thesis by (auto simp: held_def applyAck_def Let_def)
  qed
qed (auto simp: held_def Client_Close_def reset_window_def core_def image_image)

lemma held_run: "held e c \<Longrightarrow> held e (client_run marshal evs c)"
  by (induction evs arbitrary: c) (simp_all add: held_step)

lemma enqueued_held:
  "r \<in> set (enqueued marshal evs c) \<Longrightarrow> \<exists>raw. marshal r = Inr raw \<and> held (envelope_of r raw) (client_run marshal evs c)"
proof (induction marshal evs c rule: enqueued.induct)
  case (2 marshal q evs c)
  show ?case
  proof (cases "Enqueue marshal q c")
    case (Enqueued c')
    then obtain raw where "marshal q = Inr raw" by (elim EnqueueE)
    with Enqueued 2 held_run [OF held_Enqueue(2) [OF Enqueued]] show ?thesis by (cases "r = q") auto
  qed (use 2 in simp_all)
qed simp_all


text \<open>As long as no record is longer than the gap between the caps, nothing is dropped.\<close>

definition no_drops :: "ack \<Rightarrow> client \<Rightarrow> bool" where
  "no_drops acks c \<longleftrightarrow> client_ok c \<and> cl_dropped c = 0 \<and> cl_commits c = acks \<and>
     cl_heldByte c \<le> cc_MaxHeldBytes (cl_cfg c)"

lemma raw_bytes_filter: "raw_bytes (filter P es) \<le> raw_bytes es"
  by (induction es) simp_all

lemma client_step_cfg [simp]: "cl_cfg (client_step marshal ev c) = cl_cfg c"
proof (cases ev)
  case (OnEnqueue r)
  have "cl_cfg (dropOldestLocked c) = cl_cfg c" by (simp add: dropOldestLocked_def split: list.split)
  then have "cl_cfg c' = cl_cfg c" if "Enqueue marshal r c = Enqueued c'" for c'
    using that by (elim EnqueueE) (simp_all add: append_envelope_def)
  with OnEnqueue show ?thesis by (cases "Enqueue marshal r c") simp_all
next
  case (OnFlush n)
  obtain bs err c' where f: "flush n c = (bs, err, c')" by (cases "flush n c")
  from flush_sends [OF f] f OnFlush show ?thesis by auto
qed (simp_all add: Client_Close_def reset_window_def applyAck_def Let_def)

lemma no_drops_step:
  assumes "no_drops acks c"
    and fits: "\<And>r raw. ev = OnEnqueue r \<Longrightarrow> marshal r = Inr raw \<Longrightarrow>
      int (length raw) \<le> cc_HardMaxBytes (cl_cfg c) - cc_MaxHeldBytes (cl_cfg c)"
  shows "no_drops (acks @ acks_of [ev]) (client_step marshal ev c)"
proof (cases ev)
  case (OnEnqueue r)
  have "no_drops acks c'" if "Enqueue marshal r c = Enqueued c'" for c'
    using that
  proof (rule EnqueueE)
    fix raw assume "marshal r = Inr raw" "cl_heldByte c + int (length raw) > cc_HardMaxBytes (cl_cfg c)"
    with fits [OF OnEnqueue] assms(1) show "no_drops acks c'" by (fastforce simp: no_drops_def)
  qed (use assms(1) append_envelope_ok in \<open>simp add: no_drops_def append_envelope_def client_ok_def envelope_of_def\<close>)
  with assms(1) OnEnqueue show ?thesis by (simp split: enqueue_result.split)
next
  case (OnFlush n)
  obtain bs err c' where f: "flush n c = (bs, err, c')" by (cases "flush n c")
  from flush_sends [OF f] obtain es where "c' = c\<lparr>cl_unacked := es\<rparr>" by blast
  with assms(1) f OnFlush client_step_ok [of c marshal ev] show ?thesis by (simp add: no_drops_def)
next
  case (OnAck a)
  have "raw_bytes (cl_unacked (applyAck a c)) \<le> cl_heldByte c"
    using assms(1) raw_bytes_filter by (simp add: applyAck_def Let_def no_drops_def client_ok_def)
  with assms(1) OnAck client_step_ok [of c marshal ev] show ?thesis
    by (simp add: no_drops_def applyAck_def Let_def)
qed (use assms(1) client_step_ok [of c marshal ev] in \<open>simp_all add: no_drops_def Client_Close_def reset_window_def\<close>)

lemma acks_of_Cons: "acks_of (ev # evs) = acks_of [ev] @ acks_of evs"
  by (cases ev) simp_all

lemma no_drops_run:
  assumes "no_drops acks c"
    and "\<And>r raw. OnEnqueue r \<in> set evs \<Longrightarrow> marshal r = Inr raw \<Longrightarrow>
      int (length raw) \<le> cc_HardMaxBytes (cl_cfg c) - cc_MaxHeldBytes (cl_cfg c)"
  shows "no_drops (acks @ acks_of evs) (client_run marshal evs c)"
  using assms
proof (induction evs arbitrary: acks c)
  case (Cons ev evs)
  have "no_drops (acks @ acks_of [ev]) (client_step marshal ev c)"
    using Cons.prems by (intro no_drops_step) auto
  then have "no_drops ((acks @ acks_of [ev]) @ acks_of evs) (client_run marshal evs (client_step marshal ev c))"
    using Cons.prems(2) by (intro Cons.IH) auto
  then show ?case by (simp add: acks_of_Cons [of ev evs])
qed simp

lemma defaults_positive: "0 < cc_MaxHeldBytes (ClientConfig_defaults cfg)" "0 < cc_BatchBytes (ClientConfig_defaults cfg)"
  by (simp_all add: ClientConfig_defaults_def Let_def)

lemma client_run_cfg [simp]: "cl_cfg (client_run marshal evs c) = cl_cfg c"
  by (induction evs arbitrary: c) simp_all

lemma NewClient_cfg [simp]: "cl_cfg (NewClient cfg) = ClientConfig_defaults cfg"
  by (simp add: NewClient_def)


section \<open>The server's batches\<close>

definition decoded ::
  "(string \<Rightarrow> go_error + log_record) \<Rightarrow> (nat list \<times> time \<times> string) list \<Rightarrow> (nat list \<times> time \<times> log_record) list" where
  "decoded unmarshal es = concat (map (\<lambda>(ids, now, raw).
     case unmarshal raw of Inl err \<Rightarrow> [] | Inr r \<Rightarrow> [(ids, now, r)]) es)"

lemma recv_batch_accepts:
  "recv_batch rt unmarshal es (seen, s, h) = Some (seen', s', h') \<Longrightarrow>
    accept_run rt (decoded unmarshal es) (s, h) = Some (s', h') \<and>
    set seen' = set seen \<union> rec_key ` set (delivered_records (decoded unmarshal es))"
proof (induction es arbitrary: seen s h)
  case (Cons e es)
  obtain ids now raw where e: "e = (ids, now, raw)" by (cases e)
  show ?case
  proof (cases "unmarshal raw")
    case (Inl err)
    with Cons e show ?thesis by (simp add: recv_record_def decoded_def)
  next
    case (Inr r)
    with Cons.prems e obtain s1 h1 where a: "Accept rt ids now r (s, h) = Some (s1, h1)"
      "recv_batch rt unmarshal es (List.insert (rec_key r) seen, s1, h1) = Some (seen', s', h')"
      by (auto simp: recv_record_def bind_eq_Some_conv)
    from Cons.IH [OF a(2)] a(1) e Inr show ?thesis by (simp add: decoded_def)
  qed
qed (simp add: decoded_def)

lemma map_of_same: "(\<And>x. x \<in> set xs \<Longrightarrow> m (f x) = Some (g x)) \<Longrightarrow> map_of (map (\<lambda>x. (f x, g x)) xs) = m |` (f ` set xs)"
  by (induction xs) (auto simp: restrict_map_def fun_eq_iff)

lemma ack_map_buildAck: "ack_map (buildAck seen committed) = committed |` set seen"
proof -
  have "ack_map (buildAck seen committed) = committed |` ((\<lambda>k. k) ` set (filter (\<lambda>k. committed k \<noteq> None) (rev seen)))"
    unfolding ack_map_def buildAck_def rev_map rev_filter by (rule map_of_same) auto
  then show ?thesis by (auto simp: restrict_map_def fun_eq_iff)
qed



section \<open>Properties\<close>

text \<open>
  C27: the client holds a record until it is committed.  In every run, whatever sessions, failed
  sends and acknowledgements it has, a record whose \<open>Enqueue\<close> succeeded is still in the window or
  the commit function has been called for its source with an offset that covers it.
\<close>

theorem client_holds_until_committed:
  assumes "r \<in> set (enqueued marshal evs (NewClient cfg))" and "c = client_run marshal evs (NewClient cfg)"
  shows "\<exists>raw. marshal r = Inr raw \<and>
    (envelope_of r raw \<in> core ` set (cl_unacked c) \<or>
     (\<exists>off. (rec_key r, off) \<in> set (cl_commits c) \<and> rec_Offset r \<le> off))"
  using enqueued_held [OF assms(1)] unfolding assms(2) by (auto simp: held_def envelope_of_def)

definition sample_client_cfg :: ClientConfig where
  "sample_client_cfg = \<lparr>cc_MaxHeldBytes = 10, cc_HardMaxBytes = 20, cc_BatchBytes = 4, cc_BatchWait = 0, cc_Backoff = 0\<rparr>"

definition sample_events :: "client_event list" where
  "sample_events = [OnEnqueue sample_record, OnFlush 1, OnReconnect, OnEnqueue later_record, OnAck [(rec_key sample_record, 10)]]"

definition sample_client :: client where
  "sample_client = client_run (\<lambda>r. Inr ''{}'') sample_events (NewClient sample_client_cfg)"

lemmas sample_client_defs = NewClient_def sample_client_cfg_def ClientConfig_defaults_def Enqueue_def flush.simps
  reset_window_def applyAck_def acks_envelope_def ack_map_def sample_record_def later_record_def sample_events_def

lemma sample_client_enqueued:
  "enqueued (\<lambda>r. Inr ''{}'') sample_events (NewClient sample_client_cfg) = [sample_record, later_record]"
  by (simp add: sample_client_defs Let_def)

lemma sample_client_window: "map en_raw (cl_unacked sample_client) = [''{}'']"
  by (simp add: sample_client_def sample_client_defs Let_def)

theorem client_holds_until_committed_witness:
  "envelope_of later_record ''{}'' \<in> core ` set (cl_unacked sample_client) \<or>
     (\<exists>off. (rec_key later_record, off) \<in> set (cl_commits sample_client) \<and> rec_Offset later_record \<le> off)"
  using client_holds_until_committed [OF _ sample_client_def, of later_record] by (simp add: sample_client_enqueued)

text \<open>
  C28: the caps of the window.  As long as no record is longer than the gap between the hard and
  the soft cap (64 MiB by default), the client drops nothing, the bytes it holds are counted
  exactly and stay below the soft cap, and the commit function is called for the acknowledgements
  and for nothing else.
\<close>

theorem window_within_soft_cap:
  assumes "\<And>r raw. OnEnqueue r \<in> set evs \<Longrightarrow> marshal r = Inr raw \<Longrightarrow>
      int (length raw) \<le> cc_HardMaxBytes (ClientConfig_defaults cfg) - cc_MaxHeldBytes (ClientConfig_defaults cfg)"
    and "c = client_run marshal evs (NewClient cfg)"
  shows "cl_dropped c = 0 \<and> cl_commits c = acks_of evs \<and>
    cl_heldByte c = sum_list (map (\<lambda>e. int (length (en_raw e))) (cl_unacked c)) \<and>
    cl_heldByte c \<le> cc_MaxHeldBytes (ClientConfig_defaults cfg)"
proof -
  have "no_drops [] (NewClient cfg)"
    using NewClient_ok defaults_positive(1) [of cfg] by (simp add: no_drops_def NewClient_def less_imp_le)
  from no_drops_run [OF this, of evs marshal] assms(1) have "no_drops (acks_of evs) c" by (simp add: assms(2))
  then show ?thesis by (simp add: no_drops_def client_ok_def assms(2))
qed

theorem window_within_soft_cap_witness:
  "cl_dropped sample_client = 0 \<and> cl_commits sample_client = [(rec_key sample_record, 10)] \<and> cl_heldByte sample_client \<le> 10"
proof -
  have caps: "cc_HardMaxBytes (ClientConfig_defaults sample_client_cfg) = 20" "cc_MaxHeldBytes (ClientConfig_defaults sample_client_cfg) = 10"
    by (simp_all add: sample_client_cfg_def ClientConfig_defaults_def)
  have "acks_of sample_events = [(rec_key sample_record, 10)]" by (simp add: sample_events_def)
  then have "cl_dropped sample_client = 0 \<and> cl_commits sample_client = [(rec_key sample_record, 10)] \<and>
      cl_heldByte sample_client = raw_bytes (cl_unacked sample_client) \<and> cl_heldByte sample_client \<le> 10"
    using window_within_soft_cap [OF _ sample_client_def, unfolded caps] by fastforce
  then show ?thesis by blast
qed

text \<open>
  C31: a record longer than the soft cap.  While nothing is in flight and up to the hard cap, its
  \<open>Enqueue\<close> waits in every state, though no acknowledgement can make room; the only way it ever
  returns is by dropping another record, and above the hard cap it leaves the window above that
  cap.
\<close>

theorem oversized_record:
  assumes "marshal r = Inr raw" and "int (length raw) > cc_MaxHeldBytes (ClientConfig_defaults cfg)"
    and "c = client_run marshal evs (NewClient cfg)" and "\<not> cl_closed c"
  shows "(cl_unacked c = [] \<and> int (length raw) \<le> cc_HardMaxBytes (ClientConfig_defaults cfg) \<longrightarrow>
      Enqueue marshal r c = Waits) \<and>
    (\<forall>c'. cl_unacked c \<noteq> [] \<and> Enqueue marshal r c = Enqueued c' \<longrightarrow> cl_dropped c' = cl_dropped c + 1) \<and>
    (int (length raw) > cc_HardMaxBytes (ClientConfig_defaults cfg) \<longrightarrow>
      (\<exists>c'. Enqueue marshal r c = Enqueued c' \<and> cl_heldByte c' > cc_HardMaxBytes (ClientConfig_defaults cfg)))"
proof -
  have held: "cl_heldByte c = raw_bytes (cl_unacked c)"
    using client_run_ok [OF NewClient_ok] unfolding assms(3) client_ok_def .
  have cfg: "cl_cfg c = ClientConfig_defaults cfg" by (simp add: assms(3))
  have nonneg: "0 \<le> cl_heldByte c" "0 \<le> cl_heldByte (dropOldestLocked c)"
    using held raw_bytes_nonneg [of "cl_unacked c"] by (auto simp: dropOldestLocked_def split: list.splits)
  have drop: "cl_closed (dropOldestLocked c) = cl_closed c"
    "cl_unacked c \<noteq> [] \<longrightarrow> cl_dropped (dropOldestLocked c) = cl_dropped c + 1"
    by (simp_all add: dropOldestLocked_def split: list.split)
  let ?n = "int (length raw)"
  have soft: "cl_heldByte c + ?n > cc_MaxHeldBytes (ClientConfig_defaults cfg)" using assms(2) nonneg(1) by simp
  have E: "Enqueue marshal r c = (if cl_heldByte c + ?n > cc_HardMaxBytes (ClientConfig_defaults cfg)
      then Enqueued (append_envelope r raw (dropOldestLocked c)) else Waits)"
    using assms(1,4) soft drop(1)
    by (simp add: Enqueue_def cfg Let_def append_envelope_def envelope_of_def)
  have app: "cl_dropped (append_envelope r raw d) = cl_dropped d" "cl_heldByte (append_envelope r raw d) = cl_heldByte d + ?n" for d
    by (simp_all add: append_envelope_def)
  have hard: "cl_heldByte c + ?n > cc_HardMaxBytes (ClientConfig_defaults cfg)"
    if "?n > cc_HardMaxBytes (ClientConfig_defaults cfg)" using that nonneg(1) by simp
  have "cl_unacked c = [] \<longrightarrow> cl_heldByte c = 0" using held by simp
  then show ?thesis unfolding E using nonneg(2) drop(2) hard by (auto simp: app)
qed

theorem oversized_record_witness:
  "Enqueue (\<lambda>r. Inr ''0123456789ABCDE'') sample_record (NewClient sample_client_cfg) = Waits"
  using oversized_record [of "\<lambda>r. Inr ''0123456789ABCDE''" sample_record "''0123456789ABCDE''" sample_client_cfg
      "NewClient sample_client_cfg" "[]"]
  by (simp add: NewClient_def sample_client_cfg_def ClientConfig_defaults_def)

text \<open>
  C29: a new session sends the whole window again.  After the reset at the start of \<open>sendLoop\<close>, a
  flush whose sends succeed returns without an error; its batches are the window's records in
  order, none is empty, and none reaches the batch size before its last record.
\<close>

theorem reconnect_resends_window:
  assumes "c = client_run marshal evs (NewClient cfg)" and "length (cl_unacked c) \<le> n"
    and "flush n (reset_window c) = (bs, err, c')"
  shows "\<not> err \<and> concat bs = map en_raw (cl_unacked c) \<and> map core (cl_unacked c') = map core (cl_unacked c) \<and>
    unsent (cl_unacked c') = [] \<and>
    list_all (\<lambda>b. b \<noteq> [] \<and> int (length (concat (butlast b))) < cc_BatchBytes (ClientConfig_defaults cfg)) bs"
proof -
  have all: "unsent (cl_unacked (reset_window c)) = cl_unacked (reset_window c)"
    by (simp add: unsent_def reset_window_def filter_id_conv)
  have sel: "map en_raw (cl_unacked (reset_window c)) = map en_raw (cl_unacked c)"
    "map core (cl_unacked (reset_window c)) = map core (cl_unacked c)" "length (cl_unacked (reset_window c)) = length (cl_unacked c)"
    "cl_cfg (reset_window c) = ClientConfig_defaults cfg"
    using assms(1) by (simp_all add: reset_window_def o_def core_def)
  from flush_sends [OF assms(3)] assms(2) show ?thesis
    using flush_batches [OF assms(3)] defaults_positive(2) [of cfg] unfolding all sel list_all_iff by auto
qed

theorem reconnect_resends_window_witness:
  "\<exists>bs c'. flush 2 (reset_window sample_client) = (bs, False, c') \<and> concat bs = [''{}'']"
proof -
  obtain bs err c' where f: "flush 2 (reset_window sample_client) = (bs, err, c')" by (cases "flush 2 (reset_window sample_client)")
  have "length (cl_unacked sample_client) = 1" using arg_cong [OF sample_client_window, of length] by simp
  with reconnect_resends_window [OF sample_client_def _ f] f sample_client_window show ?thesis by auto
qed

text \<open>
  C30: what the server does with a batch.  It delivers the records that decode, in order, as calls
  of \<open>Accept\<close>, skips the others, and answers with the committed offsets of exactly the sources that
  this stream has seen; it sends no empty acknowledgement.
\<close>

theorem server_batch:
  assumes "Stream_batch rt unmarshal es (seen, s, h) = Some (a, seen', s', h')"
  shows "accept_run rt (decoded unmarshal es) (s, h) = Some (s', h') \<and>
    set seen' = set seen \<union> rec_key ` set (delivered_records (decoded unmarshal es)) \<and>
    ack_map (case a of None \<Rightarrow> [] | Some x \<Rightarrow> x) = Committed s' |` set seen' \<and> a \<noteq> Some []"
proof -
  from assms have r: "recv_batch rt unmarshal es (seen, s, h) = Some (seen', s', h')"
    and a: "(case a of None \<Rightarrow> [] | Some x \<Rightarrow> x) = buildAck seen' (Committed s')" "a \<noteq> Some []"
    by (auto simp: Stream_batch_def Stream_ack_def Let_def split: if_splits)
  from recv_batch_accepts [OF r] a(2) show ?thesis unfolding a(1) ack_map_buildAck by blast
qed

theorem server_batch_witness:
  "\<exists>s'. accept_run bare_runtime [([], 5, sample_record)] (\<lparr>sp_cfg = sample_cfg, sp_buf = [], sp_bufBytes = 0, sp_openSince = 0,
      sp_received = Map.empty, sp_committed = Map.empty\<rparr>, None) = Some (s', None)"
proof -
  let ?s = "\<lparr>sp_cfg = sample_cfg, sp_buf = [], sp_bufBytes = 0, sp_openSince = 0,
      sp_received = Map.empty, sp_committed = Map.empty\<rparr>"
  let ?un = "\<lambda>raw. if raw = ''{}'' then Inr sample_record else Inl (OtherError ''invalid character'')"
  obtain s' where b: "Stream_batch bare_runtime ?un [([], 5, ''{''), ([], 5, ''{}'')] ([], ?s, None)
      = Some (None, [rec_key sample_record], s', None)"
    by (simp add: Stream_batch_def Stream_ack_def recv_record_def Accept_def duplicate_def accept_new_def buildAck_def Committed_def Let_def)
  from server_batch [OF b] show ?thesis by (auto simp: decoded_def)
qed

end
