(* ===== verification/Tailer.thy ===== *)
theory Tailer
  imports CriParse Checkpoint Enrich Ingest
begin

text \<open>
  \<open>internal/tailer/tailer.go\<close> and \<open>stat_linux.go\<close>: discovery of the log files, and the tail of one
  file, which reads complete lines, joins partial ones and hands the records to the ingest client.
  The file system, the clock and the answers of the informer come in as arguments.
\<close>


section \<open>Configuration and state\<close>

record TailConfig =
  tc_Root :: string
  tc_Node :: string
  tc_Glob :: string
  tc_PollInterval :: int
  tc_ExcludeNamespaces :: "string list"
  tc_MetadataWait :: int

definition TailConfig_defaults :: "TailConfig \<Rightarrow> TailConfig" where
  "TailConfig_defaults c = c\<lparr>
     tc_Glob := (if tc_Glob c = [] then ''*/*/*.log'' else tc_Glob c),
     tc_PollInterval := (if tc_PollInterval c \<le> 0 then 1000000000 else tc_PollInterval c),
     tc_MetadataWait := (if tc_MetadataWait c \<le> 0 then 30000000000 else tc_MetadataWait c)\<rparr>"

record fileTail =
  ft_path :: string
  ft_pod :: PodInfo
  ft_src :: source
  ft_offset :: int
  ft_partial :: string
  ft_pts :: time
  ft_pstream :: string

text \<open>The tailer, with the namespaces to skip and the running tails by the key of their source.\<close>

record Tailer =
  tl_cfg :: TailConfig
  tl_exclude :: "string set"
  tl_active :: "string \<rightharpoonup> fileTail"

definition Tailer_New :: "TailConfig \<Rightarrow> Tailer" where
  "Tailer_New cfg0 =
     (let cfg = TailConfig_defaults cfg0 in
      \<lparr>tl_cfg = cfg, tl_exclude = set (filter (\<lambda>ns. ns \<noteq> []) (tc_ExcludeNamespaces cfg)), tl_active = Map.empty\<rparr>)"


section \<open>Identity of a file\<close>

text \<open>
  What \<open>os.Stat\<close> (device and inode, when the system reports them) and \<open>statx\<close> (mask, seconds and
  nanoseconds of the birth time) return.
\<close>

type_synonym statx = "(32 word \<times> int \<times> int) option"

record file_info =
  fi_sys :: "(64 word \<times> 64 word) option"
  fi_statx :: statx

definition statBirthNano :: "statx \<Rightarrow> int" where
  "statBirthNano sx =
     (case sx of
        None \<Rightarrow> 0
      | Some (msk, sec, nsec) \<Rightarrow> if and msk 0x800 = 0 then 0 else wrap64 (sec * 1000000000 + nsec))"

definition sourceFromStat :: "string \<Rightarrow> string \<Rightarrow> file_info \<Rightarrow> source" where
  "sourceFromStat node path fi =
     (case fi_sys fi of
        None \<Rightarrow> \<lparr>src_Node = node, src_Path = path, src_Device = 0, src_Inode = 0,
          src_CreatedUnixNano = statBirthNano (fi_statx fi)\<rparr>
      | Some (dev, ino) \<Rightarrow> \<lparr>src_Node = node, src_Path = path, src_Device = dev, src_Inode = ino,
          src_CreatedUnixNano = statBirthNano (fi_statx fi)\<rparr>)"

definition rotatedOrGone :: "file_info option \<Rightarrow> fileTail \<Rightarrow> bool" where
  "rotatedOrGone st ft =
     (case st of
        None \<Rightarrow> True
      | Some fi \<Rightarrow>
          (let cur = sourceFromStat (src_Node (ft_src ft)) (ft_path ft) fi in
           src_Inode cur \<noteq> src_Inode (ft_src ft) \<or> src_Device cur \<noteq> src_Device (ft_src ft)))"


section \<open>Discovery\<close>

text \<open>
  One path of the glob: what \<open>os.Stat\<close> says of it, and the answer of \<open>ShouldIngest\<close> (true without a
  filter).
\<close>

record probe =
  pb_path :: string
  pb_stat :: "file_info option"
  pb_ingest :: bool

definition discover_path :: "(string \<Rightarrow> int) \<Rightarrow> probe \<Rightarrow> Tailer \<Rightarrow> fileTail option" where
  "discover_path cp p t =
     (case parsePath (pb_path p) of
        None \<Rightarrow> None
      | Some pod \<Rightarrow>
          if pi_Namespace pod \<in> tl_exclude t then None
          else if \<not> pb_ingest p then None
          else
            (case pb_stat p of
               None \<Rightarrow> None
             | Some fi \<Rightarrow>
                 (let src = sourceFromStat (tc_Node (tl_cfg t)) (pb_path p) fi; key = Key src in
                  if tl_active t key \<noteq> None then None
                  else Some \<lparr>ft_path = pb_path p, ft_pod = pod, ft_src = src, ft_offset = cp key,
                         ft_partial = [], ft_pts = zero_time, ft_pstream = []\<rparr>)))"

text \<open>The tails that a scan starts; a glob that fails starts none.\<close>

fun discover_paths :: "(string \<Rightarrow> int) \<Rightarrow> probe list \<Rightarrow> Tailer \<Rightarrow> fileTail list \<times> Tailer" where
  "discover_paths cp [] t = ([], t)"
| "discover_paths cp (p # ps) t =
     (case discover_path cp p t of
        None \<Rightarrow> discover_paths cp ps t
      | Some ft \<Rightarrow>
          (case discover_paths cp ps (t\<lparr>tl_active := (tl_active t)(Key (ft_src ft) \<mapsto> ft)\<rparr>) of
             (fts, t') \<Rightarrow> (ft # fts, t')))"

definition discover :: "(string \<Rightarrow> int) \<Rightarrow> go_error + probe list \<Rightarrow> Tailer \<Rightarrow> fileTail list \<times> Tailer" where
  "discover cp matches t = (case matches of Inl e \<Rightarrow> ([], t) | Inr ps \<Rightarrow> discover_paths cp ps t)"

text \<open>A tail that ends is removed again.\<close>

definition tail_done :: "fileTail \<Rightarrow> Tailer \<Rightarrow> Tailer" where
  "tail_done ft t = t\<lparr>tl_active := (tl_active t)(Key (ft_src ft) := None)\<rparr>"


text \<open>
  \<open>Run\<close> scans at every tick while tails end on their own; the state is the tails that run and the
  tailer.
\<close>

datatype tailer_event = Scan "string \<Rightarrow> int" "go_error + probe list" | TailEnds nat

fun Tailer_Run :: "tailer_event list \<Rightarrow> fileTail list \<times> Tailer \<Rightarrow> fileTail list \<times> Tailer" where
  "Tailer_Run [] x = x"
| "Tailer_Run (Scan cp matches # evs) (running, t) =
     (case discover cp matches t of (fts, t') \<Rightarrow> Tailer_Run evs (running @ fts, t'))"
| "Tailer_Run (TailEnds i # evs) (running, t) =
     (if i < length running
      then Tailer_Run evs (take i running @ drop (Suc i) running, tail_done (running ! i) t)
      else Tailer_Run evs (running, t))"


section \<open>Reading a file\<close>

definition consume :: "runtime \<Rightarrow> string \<Rightarrow> fileTail \<Rightarrow> log_record option \<times> fileTail" where
  "consume rt line ft =
     (case parseCRILine rt line of
        None \<Rightarrow> (None, ft)
      | Some cl \<Rightarrow>
          if cri_partial cl then
            (let ft1 = (if ft_partial ft = [] then ft\<lparr>ft_pts := cri_ts cl, ft_pstream := cri_stream cl\<rparr> else ft) in
             (None, ft1\<lparr>ft_partial := ft_partial ft1 @ cri_message cl\<rparr>))
          else if ft_partial ft \<noteq> [] then
            (Some (buildRecord rt (ft_src ft) (ft_pod ft)
               (cl\<lparr>cri_message := ft_partial ft @ cri_message cl, cri_ts := ft_pts ft, cri_stream := ft_pstream ft\<rparr>)
               (ft_offset ft)), ft\<lparr>ft_partial := []\<rparr>)
          else (Some (buildRecord rt (ft_src ft) (ft_pod ft) cl (ft_offset ft)), ft))"

text \<open>\<open>reader.ReadString('\n')\<close> on what is left of the input.\<close>

definition read_string :: "string \<Rightarrow> string" where
  "read_string inp = takeWhile (\<lambda>c. c \<noteq> NL) inp @ take 1 (dropWhile (\<lambda>c. c \<noteq> NL) inp)"

text \<open>
  \<open>pump\<close> on a file with contents \<open>f\<close>, the reader standing at \<open>pos\<close>: the records it emits, its
  error, the position and the tail afterwards.  \<open>cancel\<close> is the number of lines after which the
  context is cancelled, if it is; \<open>rerr\<close> is \<open>None\<close> when the read that finds no newline reports
  \<open>io.EOF\<close>; \<open>seek\<close> tells whether seeking succeeds.
\<close>

function pump ::
  "runtime \<Rightarrow> nat option \<Rightarrow> go_error option \<Rightarrow> bool \<Rightarrow> string \<Rightarrow> nat \<Rightarrow> fileTail \<Rightarrow>
    log_record list \<times> go_error option \<times> nat \<times> fileTail" where
  "pump rt cancel rerr seek f pos ft =
     (if cancel = Some 0 then ([], Some Canceled, pos, ft)
      else
        (let line = read_string (drop pos f) in
         if line \<noteq> [] \<and> has_suffix line [NL] then
           (case consume rt (rev (dropWhile (\<lambda>c. c = NL) (rev line)))
                   (ft\<lparr>ft_offset := ft_offset ft + int (length line)\<rparr>) of
              (r, ft1) \<Rightarrow>
                (case pump rt (map_option (\<lambda>n. n - 1) cancel) rerr seek f (pos + length line) ft1 of
                   (rs, err, x) \<Rightarrow> ((case r of None \<Rightarrow> rs | Some q \<Rightarrow> q # rs), err, x)))
         else
           ([], rerr,
            (if line \<noteq> [] then (if seek then nat (ft_offset ft) else pos + length line) else pos), ft)))"
  by pat_completeness auto
termination
proof (relation "measure (\<lambda>(_, _, _, _, f, pos, _). length f - pos)", simp)
  fix rt :: runtime and cancel :: "nat option" and rerr :: "go_error option" and seek :: bool
    and f :: string and pos :: nat and ft :: fileTail and line :: string and z :: "log_record option \<times> fileTail" and r ft1
  assume line: "line = read_string (drop pos f)" "line \<noteq> [] \<and> has_suffix line [NL]"
  then have "0 < length line" by blast
  moreover have "pos < length f" using line by (cases "pos < length f") (simp_all add: read_string_def)
  ultimately show "((rt, map_option (\<lambda>n. n - 1) cancel, rerr, seek, f, pos + length line, ft1), rt, cancel, rerr, seek, f, pos, ft)
      \<in> measure (\<lambda>(_, _, _, _, f, pos, _). length f - pos)"
    by (simp add: diff_less_mono2 del: length_greater_0_conv)
qed

declare pump.simps [simp del]

text \<open>
  One round of the loop in \<open>run\<close>: the contents at the pump, what \<open>os.Stat\<close> says at the end of
  file, and the contents at the final drain.
\<close>

record poll =
  pl_cancel :: "nat option"
  pl_err :: "go_error option"
  pl_seek :: bool
  pl_file :: string
  pl_stat :: "file_info option"
  pl_last :: string

fun tail_loop :: "runtime \<Rightarrow> poll list \<Rightarrow> nat \<Rightarrow> fileTail \<Rightarrow> log_record list \<times> fileTail" where
  "tail_loop rt [] pos ft = ([], ft)"
| "tail_loop rt (p # ps) pos ft =
     (case pump rt (pl_cancel p) (pl_err p) (pl_seek p) (pl_file p) pos ft of
        (rs, Some e, pos1, ft1) \<Rightarrow> (rs, ft1)
      | (rs, None, pos1, ft1) \<Rightarrow>
          if rotatedOrGone (pl_stat p) ft1 then
            (case pump rt (pl_cancel p) (pl_err p) (pl_seek p) (pl_last p) pos1 ft1 of
               (rs2, e, pos2, ft2) \<Rightarrow> (rs @ rs2, ft2))
          else (case tail_loop rt ps pos1 ft1 of (rs2, ft2) \<Rightarrow> (rs @ rs2, ft2)))"

text \<open>
  \<open>awaitMetadata\<close>: whether the metadata is there at once, else one entry per poll: the context is
  cancelled, the metadata is there, the time.  \<open>None\<close> is a tail that still waits.
\<close>

fun await_loop :: "time \<Rightarrow> (bool \<times> bool \<times> time) list \<Rightarrow> bool option" where
  "await_loop deadline [] = None"
| "await_loop deadline ((cancelled, rdy, now) # ps) =
     (if cancelled then Some False
      else if rdy \<or> now > deadline then Some True
      else await_loop deadline ps)"

definition awaitMetadata :: "TailConfig \<Rightarrow> bool \<Rightarrow> time \<Rightarrow> (bool \<times> bool \<times> time) list \<Rightarrow> bool option" where
  "awaitMetadata cfg rdy now ps = (if rdy then Some True else await_loop (now + tc_MetadataWait cfg) ps)"

text \<open>
  The surroundings of \<open>run\<close>: the outcome of opening the file and of the first seek, the wait for
  metadata (\<open>None\<close>: the enricher is no \<open>ReadyChecker\<close>), the second question to the filter, and the
  rounds.
\<close>

record tail_io =
  ti_open :: "go_error option"
  ti_seek :: bool
  ti_await :: "(bool \<times> time \<times> (bool \<times> bool \<times> time) list) option"
  ti_ingest :: bool
  ti_polls :: "poll list"

definition tail_run :: "runtime \<Rightarrow> TailConfig \<Rightarrow> tail_io \<Rightarrow> fileTail \<Rightarrow> log_record list \<times> fileTail" where
  "tail_run rt cfg io ft =
     (if ti_open io \<noteq> None then ([], ft)
      else
        (let ft1 = (if ft_offset ft > 0 \<and> \<not> ti_seek io then ft\<lparr>ft_offset := 0\<rparr> else ft) in
         if (case ti_await io of None \<Rightarrow> True | Some (rdy, now, ps) \<Rightarrow> awaitMetadata cfg rdy now ps = Some True)
         then if ti_ingest io then tail_loop rt (ti_polls io) (nat (ft_offset ft1)) ft1 else ([], ft1)
         else ([], ft1)))"

text \<open>\<open>enrichAndSend\<close>; \<open>enriched\<close> is the record it sends.  An error of \<open>Enqueue\<close> is ignored.\<close>

definition enriched :: "Enricher option \<Rightarrow> string \<Rightarrow> log_record \<Rightarrow> log_record" where
  "enriched enr uid rec = (case enr of None \<Rightarrow> rec | Some e \<Rightarrow> Enrich e rec uid)"

definition enrichAndSend ::
  "(log_record \<Rightarrow> go_error + string) \<Rightarrow> Enricher option \<Rightarrow> log_record \<Rightarrow> string \<Rightarrow> client \<Rightarrow> enqueue_result" where
  "enrichAndSend marshal enr rec uid c =
     Enqueue marshal (enriched enr uid rec) c"

lemma enriched_line [simp]:
  "rec_Source (enriched enr uid r) = rec_Source r" "rec_Offset (enriched enr uid r) = rec_Offset r"
  "rec_Message (enriched enr uid r) = rec_Message r"
  using pod_enricher.enr_line [of _ r uid] by (auto simp: enriched_def same_line_def split: option.split)



section \<open>The records of a file\<close>

text \<open>
  The specification of a tail: its complete lines, each consumed at the offset of its end.
\<close>

definition complete_lines :: "string \<Rightarrow> string list" where
  "complete_lines f = butlast (split_on NL f)"

fun feed :: "runtime \<Rightarrow> string list \<Rightarrow> fileTail \<Rightarrow> log_record list \<times> fileTail" where
  "feed rt [] ft = ([], ft)"
| "feed rt (l # ls) ft =
     (case consume rt l (ft\<lparr>ft_offset := ft_offset ft + int (Suc (length l))\<rparr>) of
        (r, ft1) \<Rightarrow> (case feed rt ls ft1 of (rs, ft2) \<Rightarrow> ((case r of None \<Rightarrow> rs | Some q \<Rightarrow> q # rs), ft2)))"

abbreviation lines_size :: "string list \<Rightarrow> nat" where
  "lines_size ls \<equiv> sum_list (map (\<lambda>l. Suc (length l)) ls)"

lemma consume_keeps:
  "consume rt l ft = (r, ft') \<Longrightarrow>
    ft_offset ft' = ft_offset ft \<and> ft_src ft' = ft_src ft \<and> ft_pod ft' = ft_pod ft \<and> ft_path ft' = ft_path ft"
  by (auto simp: consume_def Let_def split: option.splits if_splits)

lemma consume_record:
  "consume rt l ft = (Some r, ft') \<Longrightarrow> rec_Source r = ft_src ft \<and> rec_Offset r = ft_offset ft \<and> ft_partial ft' = []"
  by (auto simp: consume_def Let_def split: option.splits if_splits)

lemma feed_append:
  "feed rt (ls @ ms) ft = (case feed rt ls ft of (rs, ft1) \<Rightarrow> case feed rt ms ft1 of (rs2, ft2) \<Rightarrow> (rs @ rs2, ft2))"
  by (induction ls arbitrary: ft) (simp_all split: prod.split option.split)

lemma feed_Cons:
  assumes "feed rt (l # ls) ft = (rs, ft')"
  obtains r ft1 rs1 where "consume rt l (ft\<lparr>ft_offset := ft_offset ft + int (Suc (length l))\<rparr>) = (r, ft1)"
    "feed rt ls ft1 = (rs1, ft')" "rs = (case r of None \<Rightarrow> rs1 | Some q \<Rightarrow> q # rs1)"
    "ft_offset ft1 = ft_offset ft + int (Suc (length l))" "ft_src ft1 = ft_src ft" "ft_pod ft1 = ft_pod ft"
proof -
  let ?ft = "ft\<lparr>ft_offset := ft_offset ft + int (Suc (length l))\<rparr>"
  obtain r ft1 where c: "consume rt l ?ft = (r, ft1)" by (cases "consume rt l ?ft")
  obtain rs1 ft2 where f: "feed rt ls ft1 = (rs1, ft2)" by (cases "feed rt ls ft1")
  from consume_keeps [OF c] c f assms show ?thesis by (intro that [OF c]) auto
qed

lemma feed_keeps:
  "feed rt ls ft = (rs, ft') \<Longrightarrow> ft_offset ft' = ft_offset ft + int (lines_size ls) \<and> ft_src ft' = ft_src ft \<and> ft_pod ft' = ft_pod ft"
proof (induction ls arbitrary: ft rs)
  case (Cons l ls)
  from Cons.prems show ?case by (rule feed_Cons) (use Cons.IH in fastforce)
qed simp

text \<open>Offsets rise, and lie between the ends of the first and the last line.\<close>

lemma feed_offsets:
  "feed rt ls ft = (rs, ft') \<Longrightarrow>
    sorted_wrt (\<lambda>a b. rec_Offset a < rec_Offset b) rs \<and>
    (\<forall>r \<in> set rs. rec_Source r = ft_src ft \<and> ft_offset ft < rec_Offset r \<and> rec_Offset r \<le> ft_offset ft + int (lines_size ls))"
proof (induction ls arbitrary: ft rs)
  case (Cons l ls)
  from Cons.prems obtain r ft1 rs1 where c: "consume rt l (ft\<lparr>ft_offset := ft_offset ft + int (Suc (length l))\<rparr>) = (r, ft1)"
    and f: "feed rt ls ft1 = (rs1, ft')" and rs: "rs = (case r of None \<Rightarrow> rs1 | Some q \<Rightarrow> q # rs1)"
    and ft1: "ft_offset ft1 = ft_offset ft + int (Suc (length l))" "ft_src ft1 = ft_src ft" by (rule feed_Cons)
  show ?case
  proof (cases r)
    case None
    with rs Cons.IH [OF f] ft1 show ?thesis by fastforce
  next
    case (Some q)
    with consume_record c have "rec_Source q = ft_src ft" "rec_Offset q = ft_offset ft1" using ft1 by fastforce+
    with Some rs Cons.IH [OF f] ft1 show ?thesis by fastforce
  qed
qed simp

text \<open>A complete line is what \<open>ReadString\<close> returns; without one it returns the rest.\<close>

lemma split_on_not_Nil [simp]: "split_on c s \<noteq> []"
  by (induction s) (auto split: list.split)

lemma complete_lines_step:
  "NL \<in> set s \<Longrightarrow> \<exists>l t. s = l @ NL # t \<and> NL \<notin> set l \<and> complete_lines s = l # complete_lines t"
proof -
  assume "NL \<in> set s"
  then obtain l t where "s = l @ NL # t" "NL \<notin> set l" using split_list_first [of NL s] by blast
  then show ?thesis by (auto simp: complete_lines_def split_on_append)
qed

lemma complete_lines_none: "NL \<notin> set s \<Longrightarrow> complete_lines s = []"
  by (simp add: complete_lines_def split_on_no_sep)

lemma lines_size_le: "lines_size (complete_lines s) \<le> length s"
proof (induction s rule: length_induct)
  case (1 s)
  show ?case
  proof (cases "NL \<in> set s")
    case True
    from complete_lines_step [OF True] obtain l t where "s = l @ NL # t" "complete_lines s = l # complete_lines t" by blast
    with "1.IH" show ?thesis by auto
  qed (simp add: complete_lines_none)
qed

lemma complete_lines_append:
  "complete_lines (s @ t) = complete_lines s @ complete_lines (drop (lines_size (complete_lines s)) (s @ t))"
proof (induction s rule: length_induct)
  case (1 s)
  show ?case
  proof (cases "NL \<in> set s")
    case True
    from complete_lines_step [OF True] obtain l u where
      s: "s = l @ NL # u" "NL \<notin> set l" "complete_lines s = l # complete_lines u" by blast
    have "complete_lines (s @ t) = l # complete_lines (u @ t)"
      using s by (simp add: complete_lines_def split_on_append)
    also have "complete_lines (u @ t) = complete_lines u @ complete_lines (drop (lines_size (complete_lines u)) (u @ t))"
      using "1.IH" s(1) by simp
    also have "drop (lines_size (complete_lines u)) (u @ t) = drop (lines_size (complete_lines s)) (s @ t)"
      unfolding s(3) using drop_drop [of "lines_size (complete_lines u)" "Suc (length l)" "s @ t"]
      by (simp add: s(1) add.commute)
    finally show ?thesis by (simp add: s(3))
  qed (simp add: complete_lines_none)
qed

lemma read_string_line: "NL \<notin> set l \<Longrightarrow> read_string (l @ NL # t) = l @ [NL]"
proof -
  assume "NL \<notin> set l"
  then have "takeWhile (\<lambda>c. c \<noteq> NL) (l @ NL # t) = l" "dropWhile (\<lambda>c. c \<noteq> NL) (l @ NL # t) = NL # t"
    by (induction l) auto
  then show ?thesis by (simp add: read_string_def)
qed

lemma read_string_rest: "NL \<notin> set s \<Longrightarrow> read_string s = s"
proof -
  assume "NL \<notin> set s"
  then have "takeWhile (\<lambda>c. c \<noteq> NL) s = s" "dropWhile (\<lambda>c. c \<noteq> NL) s = []" by (induction s) auto
  then show ?thesis unfolding read_string_def by (simp del: takeWhile_eq_all_conv dropWhile_eq_Nil_conv)
qed

lemma trim_newline: "NL \<notin> set l \<Longrightarrow> rev (dropWhile (\<lambda>c. c = NL) (rev (l @ [NL]))) = l"
proof -
  assume "NL \<notin> set l"
  then have "dropWhile (\<lambda>c. c = NL) (rev l) = rev l"
    by (cases "rev l") (auto simp: dropWhile_eq_self_iff dest: arg_cong [of _ _ set])
  then show ?thesis by simp
qed


lemma has_suffix_subset: "has_suffix s p \<Longrightarrow> set p \<subseteq> set s"
  unfolding has_suffix_def by (metis set_drop_subset)

text \<open>A pump that is not cancelled feeds the complete lines and stops before the last, open one.\<close>

lemma pump_feed:
  assumes "ft_offset ft = int pos" and "pos \<le> length f"
    and "pump rt None rerr True f pos ft = (rs, err, pos', ft')"
  shows "err = rerr \<and> feed rt (complete_lines (drop pos f)) ft = (rs, ft') \<and> ft_offset ft' = int pos' \<and>
    pos' = pos + lines_size (complete_lines (drop pos f))"
  using assms
proof (induction "length f - pos" arbitrary: pos ft rs rule: less_induct)
  case less
  show ?case
  proof (cases "NL \<in> set (drop pos f)")
    case True
    from complete_lines_step [OF True] obtain l t where
      l: "drop pos f = l @ NL # t" "NL \<notin> set l" "complete_lines (drop pos f) = l # complete_lines t" by blast
    let ?pos = "pos + Suc (length l)" and ?ft = "ft\<lparr>ft_offset := ft_offset ft + int (Suc (length l))\<rparr>"
    have line: "read_string (drop pos f) = l @ [NL]" using l by (simp add: read_string_line)
    have t: "drop ?pos f = t" using arg_cong [OF l(1), of "drop (Suc (length l))"] by (simp add: drop_drop add.commute)
    have len: "?pos \<le> length f" using arg_cong [OF l(1), of length] less.prems(2) by simp
    obtain r ft1 where c: "consume rt l ?ft = (r, ft1)" by (cases "consume rt l ?ft")
    obtain rs1 x where p: "pump rt None rerr True f ?pos ft1 = (rs1, x)" by (cases "pump rt None rerr True f ?pos ft1")
    obtain err1 pos1 ft2 where x: "x = (err1, pos1, ft2)" by (cases x)
    from less.prems(3) have res: "rs = (case r of None \<Rightarrow> rs1 | Some q \<Rightarrow> q # rs1)" "err = err1" "pos' = pos1" "ft' = ft2"
      using c p x trim_newline [OF l(2)] by (simp_all add: pump.simps [of rt None rerr True f pos ft] line Let_def split: prod.splits)
    have off: "ft_offset ft1 = int ?pos" using consume_keeps [OF c] less.prems(1) by simp
    have less': "length f - ?pos < length f - pos" using len by simp
    from less.hyps [OF less' off len p [unfolded x, folded res(2-4)]] show ?thesis
      using c res(1) unfolding l(3) t by simp
  next
    case False
    then have line: "read_string (drop pos f) = drop pos f" by (rule read_string_rest)
    have "\<not> has_suffix (drop pos f) [NL]" using has_suffix_subset [of "drop pos f" "[NL]"] False by auto
    with less.prems False show ?thesis
      by (auto simp: pump.simps [of rt None rerr True f pos ft] line Let_def complete_lines_none split: if_splits)
  qed
qed

lemma complete_lines_prefix:
  assumes "prefix f g" and "pos \<le> length f"
  shows "complete_lines (drop pos g) = complete_lines (drop pos f) @
    complete_lines (drop (pos + lines_size (complete_lines (drop pos f))) g)"
proof -
  from assms(1) obtain u where g: "g = f @ u" by (auto simp: prefix_def)
  have "drop pos g = drop pos f @ u" using assms(2) g by simp
  from complete_lines_append [of "drop pos f" u, folded this] show ?thesis by (simp add: drop_drop add.commute)
qed

text \<open>A round that meets no error.\<close>

definition calm :: "poll \<Rightarrow> bool" where
  "calm p \<longleftrightarrow> pl_cancel p = None \<and> pl_err p = None \<and> pl_seek p"

lemma rotatedOrGone_cong: "ft_src ft' = ft_src ft \<Longrightarrow> ft_path ft' = ft_path ft \<Longrightarrow> rotatedOrGone st ft' = rotatedOrGone st ft"
  by (cases st) (simp_all add: rotatedOrGone_def)

lemma feed_path: "feed rt ls ft = (rs, ft') \<Longrightarrow> ft_path ft' = ft_path ft"
proof (induction ls arbitrary: ft rs)
  case (Cons l ls)
  from Cons.prems show ?case
    by (rule feed_Cons) (use Cons.IH consume_keeps [of rt l] in fastforce)
qed simp

lemma tail_loop_feed:
  assumes "\<forall>q \<in> set qs. calm q \<and> \<not> rotatedOrGone (pl_stat q) ft" and "calm p"
    and "sorted_wrt prefix (map pl_file qs @ [pl_file p, pl_last p])"
    and "ft_offset ft = int pos" and "\<forall>q \<in> set (qs @ [p]). pos \<le> length (pl_file q)"
  shows "tail_loop rt (qs @ [p]) pos ft =
    feed rt (complete_lines (drop pos (if rotatedOrGone (pl_stat p) ft then pl_last p else pl_file p))) ft"
  using assms
proof (induction qs arbitrary: pos ft)
  case Nil
  obtain rs err pos1 ft1 where u: "pump rt None None True (pl_file p) pos ft = (rs, err, pos1, ft1)"
    by (cases "pump rt None None True (pl_file p) pos ft")
  from pump_feed [OF Nil(4) _ u] Nil(5) have f: "err = None" "feed rt (complete_lines (drop pos (pl_file p))) ft = (rs, ft1)"
    "ft_offset ft1 = int pos1" "pos1 = pos + lines_size (complete_lines (drop pos (pl_file p)))" by auto
  from f(2) have same: "rotatedOrGone (pl_stat p) ft1 = rotatedOrGone (pl_stat p) ft"
    using feed_keeps feed_path rotatedOrGone_cong by metis
  have pre: "prefix (pl_file p) (pl_last p)" using Nil(3) by simp
  have le: "pos1 \<le> length (pl_file p)" using f(4) lines_size_le [of "drop pos (pl_file p)"] Nil(5) by simp
  obtain rs2 err2 pos2 ft2 where v: "pump rt None None True (pl_last p) pos1 ft1 = (rs2, err2, pos2, ft2)"
    by (cases "pump rt None None True (pl_last p) pos1 ft1")
  have "pos1 \<le> length (pl_last p)" using le prefix_length_le [OF pre] by simp
  from pump_feed [OF f(3) this v] complete_lines_prefix [OF pre, of pos] f(2,4) Nil(5)
  have "feed rt (complete_lines (drop pos (pl_last p))) ft = (rs @ rs2, ft2)" by (simp add: feed_append)
  with Nil(2) u v f(1,2) same show ?case by (simp add: calm_def)
next
  case (Cons q qs)
  let ?g = "if rotatedOrGone (pl_stat p) ft then pl_last p else pl_file p"
  obtain rs err pos1 ft1 where u: "pump rt None None True (pl_file q) pos ft = (rs, err, pos1, ft1)"
    by (cases "pump rt None None True (pl_file q) pos ft")
  have pos: "pos \<le> length (pl_file q)" using Cons.prems(5) by simp
  from pump_feed [OF Cons.prems(4) pos u] have f: "err = None" "feed rt (complete_lines (drop pos (pl_file q))) ft = (rs, ft1)"
    "ft_offset ft1 = int pos1" "pos1 = pos + lines_size (complete_lines (drop pos (pl_file q)))" by auto
  from f(2) have same: "rotatedOrGone st ft1 = rotatedOrGone st ft" for st
    using feed_keeps feed_path rotatedOrGone_cong by metis
  have pre: "prefix (pl_file q) ?g" and pre': "\<forall>x \<in> set (qs @ [p]). prefix (pl_file q) (pl_file x)"
    using Cons.prems(3) by auto
  have "pos1 \<le> length (pl_file q)" using f(4) lines_size_le [of "drop pos (pl_file q)"] pos by simp
  then have pos': "\<forall>x \<in> set (qs @ [p]). pos1 \<le> length (pl_file x)"
    using pre' prefix_length_le order_trans by blast
  have "tail_loop rt (qs @ [p]) pos1 ft1 = feed rt (complete_lines (drop pos1 ?g)) ft1"
    using Cons.IH [of ft1 pos1] Cons.prems same f(3) pos' by simp
  moreover have "complete_lines (drop pos ?g) = complete_lines (drop pos (pl_file q)) @ complete_lines (drop pos1 ?g)"
    using complete_lines_prefix [OF pre pos] f(4) by simp
  ultimately show ?case
    using Cons.prems(1) u f(1,2) same by (simp add: calm_def feed_append split: prod.split)
qed



section \<open>Restarting a tail\<close>

definition new_tail :: "string \<Rightarrow> PodInfo \<Rightarrow> source \<Rightarrow> int \<Rightarrow> fileTail" where
  "new_tail path pod src off = \<lparr>ft_path = path, ft_pod = pod, ft_src = src, ft_offset = off,
     ft_partial = [], ft_pts = zero_time, ft_pstream = []\<rparr>"

lemma new_tail_sel [simp]:
  "ft_offset (new_tail path pod src off) = off" "ft_src (new_tail path pod src off) = src"
  "ft_pod (new_tail path pod src off) = pod" "ft_path (new_tail path pod src off) = path"
  "ft_partial (new_tail path pod src off) = []"
  by (simp_all add: new_tail_def)

text \<open>The records of a file.\<close>

definition file_records :: "runtime \<Rightarrow> PodInfo \<Rightarrow> source \<Rightarrow> string \<Rightarrow> log_record list" where
  "file_records rt pod src f = fst (feed rt (complete_lines f) (new_tail [] pod src 0))"

text \<open>
  Two tails that agree but for the time and stream of an empty partial message behave alike.
\<close>

definition tail_eq :: "fileTail \<Rightarrow> fileTail \<Rightarrow> bool" where
  "tail_eq a b \<longleftrightarrow> ft_pod a = ft_pod b \<and> ft_src a = ft_src b \<and> ft_offset a = ft_offset b \<and> ft_partial a = ft_partial b \<and>
     (ft_partial a \<noteq> [] \<longrightarrow> ft_pts a = ft_pts b \<and> ft_pstream a = ft_pstream b)"

lemma consume_tail_eq:
  "tail_eq a b \<Longrightarrow> consume rt l a = (r, a') \<Longrightarrow> consume rt l b = (q, b') \<Longrightarrow> r = q \<and> tail_eq a' b'"
  by (auto simp: tail_eq_def consume_def Let_def split: option.splits if_splits)

lemma feed_tail_eq: "tail_eq a b \<Longrightarrow> fst (feed rt ls a) = fst (feed rt ls b)"
proof (induction ls arbitrary: a b)
  case (Cons l ls)
  obtain rs a' where ra: "feed rt (l # ls) a = (rs, a')" by (cases "feed rt (l # ls) a")
  obtain qs b' where rb: "feed rt (l # ls) b = (qs, b')" by (cases "feed rt (l # ls) b")
  from ra obtain r a1 rs1 where a: "consume rt l (a\<lparr>ft_offset := ft_offset a + int (Suc (length l))\<rparr>) = (r, a1)"
    "feed rt ls a1 = (rs1, a')" "rs = (case r of None \<Rightarrow> rs1 | Some q \<Rightarrow> q # rs1)" by (rule feed_Cons)
  from rb obtain q b1 qs1 where b: "consume rt l (b\<lparr>ft_offset := ft_offset b + int (Suc (length l))\<rparr>) = (q, b1)"
    "feed rt ls b1 = (qs1, b')" "qs = (case q of None \<Rightarrow> qs1 | Some q \<Rightarrow> q # qs1)" by (rule feed_Cons)
  have "tail_eq (a\<lparr>ft_offset := ft_offset a + int (Suc (length l))\<rparr>) (b\<lparr>ft_offset := ft_offset b + int (Suc (length l))\<rparr>)"
    using Cons.prems by (simp add: tail_eq_def)
  from consume_tail_eq [OF this a(1) b(1)] have "r = q" "tail_eq a1 b1" by simp_all
  with Cons.IH [of a1 b1] a(2,3) b(2,3) have "rs = qs" by (simp split: option.split)
  with ra rb show ?case by (simp only: fst_conv)
qed simp

lemma feed_split:
  "feed rt ls ft = (rs, ft') \<Longrightarrow> r \<in> set rs \<Longrightarrow>
    \<exists>ls1 ls2 rs1 rs2 ft1. ls = ls1 @ ls2 \<and> rs = rs1 @ r # rs2 \<and> feed rt ls1 ft = (rs1 @ [r], ft1) \<and>
      feed rt ls2 ft1 = (rs2, ft') \<and> ft_partial ft1 = [] \<and> rec_Offset r = ft_offset ft1"
proof (induction ls arbitrary: ft rs)
  case (Cons l ls)
  from Cons.prems(1) obtain q ft1 rs1 where c: "consume rt l (ft\<lparr>ft_offset := ft_offset ft + int (Suc (length l))\<rparr>) = (q, ft1)"
    and f: "feed rt ls ft1 = (rs1, ft')" and rs: "rs = (case q of None \<Rightarrow> rs1 | Some q \<Rightarrow> q # rs1)"
    and off: "ft_offset ft1 = ft_offset ft + int (Suc (length l))" by (rule feed_Cons)
  show ?case
  proof (cases "q = Some r")
    case True
    have "ft_partial ft1 = []" "rec_Offset r = ft_offset ft1" using consume_record [OF c [unfolded True]] off by simp_all
    moreover have "feed rt [l] ft = ([] @ [r], ft1)" using c True by simp
    ultimately show ?thesis using f rs True
      by (intro exI [of _ "[l]"] exI [of _ ls] exI [of _ "[]"] exI [of _ rs1] exI [of _ ft1]) simp
  next
    case False
    then have "r \<in> set rs1" using Cons.prems(2) rs by (cases q) auto
    from Cons.IH [OF f this] obtain ls1 ls2 qs1 qs2 ft2 where i: "ls = ls1 @ ls2" "rs1 = qs1 @ r # qs2"
      "feed rt ls1 ft1 = (qs1 @ [r], ft2)" "feed rt ls2 ft2 = (qs2, ft')" "ft_partial ft2 = []" "rec_Offset r = ft_offset ft2" by blast
    let ?pre = "case q of None \<Rightarrow> [] | Some x \<Rightarrow> [x]"
    have "feed rt (l # ls1) ft = ((?pre @ qs1) @ [r], ft2)" using c i(3) by (cases q) simp_all
    moreover have "rs = (?pre @ qs1) @ r # qs2" using rs i(2) by (cases q) simp_all
    ultimately show ?thesis using i
      by (intro exI [of _ "l # ls1"] exI [of _ ls2] exI [of _ "?pre @ qs1"] exI [of _ qs2] exI [of _ ft2]) simp
  qed
qed simp

lemma complete_lines_drop: "complete_lines s = ls1 @ ls2 \<Longrightarrow> complete_lines (drop (lines_size ls1) s) = ls2"
proof (induction ls1 arbitrary: s)
  case (Cons l ls1)
  then have "NL \<in> set s" by (cases "NL \<in> set s") (simp_all add: complete_lines_none)
  from complete_lines_step [OF this] obtain k t where s: "s = k @ NL # t" "complete_lines s = k # complete_lines t" by blast
  with Cons.prems have "k = l" "complete_lines t = ls1 @ ls2" by simp_all
  with Cons.IH [of t] s(1) drop_drop [of "lines_size ls1" "Suc (length l)" s] show ?case by (simp add: add.commute)
qed simp

lemma feed_path_irrelevant: "fst (feed rt ls (new_tail path pod src off)) = fst (feed rt ls (new_tail path' pod src off))"
  by (rule feed_tail_eq) (simp add: tail_eq_def)

text \<open>The offsets at which a tail may start: none, or the end of a record.\<close>

definition record_end :: "int \<Rightarrow> log_record list \<Rightarrow> bool" where
  "record_end off rs \<longleftrightarrow> off = 0 \<or> off \<in> rec_Offset ` set rs"

lemma resume_records:
  assumes "record_end off (file_records rt pod src f)"
  shows "fst (feed rt (complete_lines (drop (nat off) f)) (new_tail path pod src off)) =
      filter (\<lambda>q. off < rec_Offset q) (file_records rt pod src f)"
    and "nat off \<le> length f" and "0 \<le> off"
proof -
  obtain rs ft' where f: "feed rt (complete_lines f) (new_tail [] pod src 0) = (rs, ft')"
    by (cases "feed rt (complete_lines f) (new_tail [] pod src 0)")
  then have rs: "file_records rt pod src f = rs" by (simp add: file_records_def)
  note offs = feed_offsets [OF f, simplified]
  have "fst (feed rt (complete_lines (drop (nat off) f)) (new_tail path pod src off)) = filter (\<lambda>q. off < rec_Offset q) rs \<and>
    nat off \<le> length f \<and> 0 \<le> off"
  proof (cases "off = 0")
    case True
    have "filter (\<lambda>q. 0 < rec_Offset q) rs = rs" using offs by (simp add: filter_id_conv)
    with True f feed_path_irrelevant [of rt "complete_lines f" path pod src 0 "[]"] show ?thesis by simp
  next
    case False
    then obtain r where r: "r \<in> set rs" "off = rec_Offset r" using assms rs by (auto simp: record_end_def)
    from feed_split [OF f r(1)] obtain ls1 ls2 rs1 rs2 ft1 where sp: "complete_lines f = ls1 @ ls2" "rs = rs1 @ r # rs2"
      "feed rt ls1 (new_tail [] pod src 0) = (rs1 @ [r], ft1)" "feed rt ls2 ft1 = (rs2, ft')" "ft_partial ft1 = []"
      "rec_Offset r = ft_offset ft1" by blast
    have off: "off = int (lines_size ls1)" "ft_src ft1 = src" "ft_pod ft1 = pod" using feed_keeps [OF sp(3)] r(2) sp(6) by simp_all
    have "lines_size ls1 \<le> length f" using lines_size_le [of f] sp(1) by simp
    moreover have "tail_eq (new_tail path pod src off) ft1" using off sp(5,6) r(2) by (simp add: tail_eq_def)
    from feed_tail_eq [OF this, of rt ls2] have "fst (feed rt ls2 (new_tail path pod src off)) = rs2" using sp(4) by simp
    moreover have "filter (\<lambda>q. off < rec_Offset q) rs = rs2"
    proof -
      have "sorted_wrt (\<lambda>a b. rec_Offset a < rec_Offset b) (rs1 @ r # rs2)" using offs sp(2) by simp
      then have "\<forall>q \<in> set rs1. rec_Offset q < off" "\<forall>q \<in> set rs2. off < rec_Offset q"
        unfolding r(2) by (simp_all add: sorted_wrt_append)
      then have "filter (\<lambda>q. off < rec_Offset q) rs1 = []" "filter (\<lambda>q. off < rec_Offset q) rs2 = rs2"
        by (auto simp: filter_empty_conv filter_id_conv)
      then show ?thesis using sp(2) r(2) by simp
    qed
    ultimately show ?thesis using complete_lines_drop [OF sp(1)] off(1) by simp
  qed
  then show "fst (feed rt (complete_lines (drop (nat off) f)) (new_tail path pod src off)) =
      filter (\<lambda>q. off < rec_Offset q) (file_records rt pod src f)" and "nat off \<le> length f" and "0 \<le> off"
    unfolding rs by blast+
qed

text \<open>A longer file has more records.\<close>

lemma file_records_prefix:
  assumes "prefix f g"
  shows "prefix (file_records rt pod src f) (file_records rt pod src g)"
proof -
  obtain ls where g: "complete_lines g = complete_lines f @ ls"
    by (rule that [OF complete_lines_prefix [OF assms le0, unfolded drop0]])
  show ?thesis unfolding file_records_def g feed_append by (simp split: prod.split)
qed



section \<open>Properties\<close>

lemma record_end_prefix: "record_end off rs \<Longrightarrow> prefix rs qs \<Longrightarrow> record_end off qs"
  by (auto simp: record_end_def prefix_def)

lemma discover_path_new:
  "discover_path cp p t = Some ft \<Longrightarrow>
    ft = new_tail (pb_path p) (ft_pod ft) (ft_src ft) (cp (Key (ft_src ft))) \<and> tl_active t (Key (ft_src ft)) = None \<and>
    pi_Namespace (ft_pod ft) \<notin> tl_exclude t \<and> pb_ingest p"
  by (auto simp: discover_path_def new_tail_def Let_def split: option.splits if_splits)

lemma tail_run_records:
  assumes "discover_path cp pr t = Some ft" and "off = cp (Key (ft_src ft))"
    and "ti_open io = None" and "ti_seek io" and "ti_ingest io"
    and "case ti_await io of None \<Rightarrow> True | Some (rdy, now, ws) \<Rightarrow> awaitMetadata (tl_cfg t) rdy now ws = Some True"
    and "ti_polls io = qs @ [p]" and "list_all (\<lambda>q. calm q \<and> \<not> rotatedOrGone (pl_stat q) ft) qs"
    and "calm p" and "rotatedOrGone (pl_stat p) ft"
    and "sorted_wrt prefix (map pl_file qs @ [pl_file p, pl_last p])"
    and "record_end off (file_records rt (ft_pod ft) (ft_src ft) (pl_file (hd (qs @ [p]))))"
  shows "fst (tail_run rt (tl_cfg t) io ft) =
    filter (\<lambda>r. off < rec_Offset r) (file_records rt (ft_pod ft) (ft_src ft) (pl_last p))"
proof -
  let ?f = "pl_file (hd (qs @ [p]))"
  have ft: "ft = new_tail (pb_path pr) (ft_pod ft) (ft_src ft) off" using discover_path_new [OF assms(1)] assms(2) by blast
  then have ftoff: "ft_offset ft = off" by (metis new_tail_sel(1))
  note start = resume_records(2,3) [OF assms(12)]
  have pre: "prefix ?f (pl_last p)" "\<forall>q \<in> set (qs @ [p]). prefix ?f (pl_file q)"
    using assms(11) by (cases qs; auto)+
  have pos: "\<forall>q \<in> set (qs @ [p]). nat off \<le> length (pl_file q)"
    using pre(2) start(1) prefix_length_le order_trans by blast
  have "tail_run rt (tl_cfg t) io ft = tail_loop rt (qs @ [p]) (nat off) ft"
    using assms(3-7) ftoff by (simp add: tail_run_def Let_def)
  also have "\<dots> = feed rt (complete_lines (drop (nat off) (pl_last p))) ft"
    using tail_loop_feed [of qs ft p "nat off" rt] assms(8-11) ftoff start(2) pos by (simp add: list_all_iff)
  finally have "fst (tail_run rt (tl_cfg t) io ft) = fst (feed rt (complete_lines (drop (nat off) (pl_last p)))
      (new_tail (pb_path pr) (ft_pod ft) (ft_src ft) off))" using ft by simp
  also have "\<dots> = filter (\<lambda>r. off < rec_Offset r) (file_records rt (ft_pod ft) (ft_src ft) (pl_last p))"
    by (rule resume_records(1) [OF record_end_prefix [OF assms(12) file_records_prefix [OF pre(1)]]])
  finally show ?thesis .
qed

text \<open>A file whose second line is written in two parts, read in two rounds, and a checkpoint after its first.\<close>

definition cri_runtime :: runtime where
  "cri_runtime = bare_runtime\<lparr>parse_rfc3339 := \<lambda>t. if t = ''T'' then Some 7 else None\<rparr>"

definition sample_first :: string where
  "sample_first = ''T stdout F a'' @ [NL]"

definition sample_tail :: fileTail where
  "sample_tail = new_tail ''/var/log/pods/d_p_u/c/0.log'' \<lparr>pi_Namespace = ''d'', pi_Pod = ''p'', pi_UID = ''u'', pi_Container = ''c''\<rparr>
     sample_source 13"

definition sample_poll :: "bool \<Rightarrow> string \<Rightarrow> string \<Rightarrow> poll" where
  "sample_poll gone f g = \<lparr>pl_cancel = None, pl_err = None, pl_seek = True, pl_file = f,
     pl_stat = (if gone then None else Some \<lparr>fi_sys = Some (1, 2), fi_statx = None\<rparr>), pl_last = g\<rparr>"

definition sample_tailer :: Tailer where
  "sample_tailer = Tailer_New \<lparr>tc_Root = ''/var/log/pods'', tc_Node = ''n'', tc_Glob = [], tc_PollInterval = 0,
     tc_ExcludeNamespaces = [''kube-system''], tc_MetadataWait = 0\<rparr>"

definition sample_probe :: probe where
  "sample_probe = \<lparr>pb_path = ''/var/log/pods/d_p_u/c/0.log'', pb_stat = Some \<lparr>fi_sys = Some (1, 2), fi_statx = None\<rparr>, pb_ingest = True\<rparr>"

lemma sample_discover: "discover_path (\<lambda>_. 13) sample_probe sample_tailer = Some sample_tail"
  by (simp add: discover_path_def sample_probe_def sample_tailer_def Tailer_New_def TailConfig_defaults_def sample_tail_def sample_source_def
      parsePath_def sourceFromStat_def statBirthNano_def new_tail_def eval_nat_numeral)

lemma sample_records:
  "map (\<lambda>r. (rec_Offset r, rec_Message r)) (file_records cri_runtime (ft_pod sample_tail) (ft_src sample_tail)
     (sample_first @ ''T stderr F b'' @ [NL])) = [(13, ''a''), (26, ''b'')]"
  "map rec_Offset (file_records cri_runtime (ft_pod sample_tail) (ft_src sample_tail) (sample_first @ ''T std'')) = [13]"
  by code_simp+

text \<open>
  C26: a tail delivers each record of its file once.  Let discovery start a tail whose checkpoint is
  0 or the end of a record, and let it run without read errors while the file grows, until the file
  is rotated or removed.  Then the tail emits exactly the records of the whole file whose
  offset lies above the checkpoint, in the order of the file, however the writes and the reads
  interleave, half written lines included.  So a restarted agent re-reads just what was not
  committed, and gives the same records the same offsets.
\<close>

theorem tail_emits_records_after_checkpoint:
  assumes "discover_path cp pr t = Some ft" and "off = cp (Key (ft_src ft))"
    and "ti_open io = None" and "ti_seek io" and "ti_ingest io"
    and "case ti_await io of None \<Rightarrow> True | Some (rdy, now, ws) \<Rightarrow> awaitMetadata (tl_cfg t) rdy now ws = Some True"
    and "ti_polls io = qs @ [p]" and "list_all (\<lambda>q. calm q \<and> \<not> rotatedOrGone (pl_stat q) ft) qs"
    and "calm p" and "rotatedOrGone (pl_stat p) ft"
    and "sorted_wrt prefix (map pl_file qs @ [pl_file p, pl_last p])"
    and "record_end off (file_records rt (ft_pod ft) (ft_src ft) (pl_file (hd (qs @ [p]))))"
  shows "fst (tail_run rt (tl_cfg t) io ft) =
    filter (\<lambda>r. off < rec_Offset r) (file_records rt (ft_pod ft) (ft_src ft) (pl_last p))"
  by (rule tail_run_records [OF assms])

theorem tail_emits_records_after_checkpoint_witness:
  "map rec_Message (fst (tail_run cri_runtime (tl_cfg sample_tailer) \<lparr>ti_open = None, ti_seek = True, ti_await = None, ti_ingest = True,
      ti_polls = [sample_poll False (sample_first @ ''T std'') [],
        sample_poll True (sample_first @ ''T stderr F b'') (sample_first @ ''T stderr F b'' @ [NL])]\<rparr> sample_tail)) = [''b'']"
proof -
  let ?io = "\<lparr>ti_open = None, ti_seek = True, ti_await = None, ti_ingest = True,
      ti_polls = [sample_poll False (sample_first @ ''T std'') [],
        sample_poll True (sample_first @ ''T stderr F b'') (sample_first @ ''T stderr F b'' @ [NL])]\<rparr>"
  let ?rs = "file_records cri_runtime (ft_pod sample_tail) (ft_src sample_tail) (sample_first @ ''T stderr F b'' @ [NL])"
  have "13 \<in> rec_Offset ` set (file_records cri_runtime (ft_pod sample_tail) (ft_src sample_tail) (sample_first @ ''T std''))"
    using sample_records(2) by (metis list.set_intros(1) list.set_map)
  then have "fst (tail_run cri_runtime (tl_cfg sample_tailer) ?io sample_tail) = filter (\<lambda>r. 13 < rec_Offset r) ?rs"
    using tail_emits_records_after_checkpoint [OF sample_discover refl, of ?io
        "[sample_poll False (sample_first @ ''T std'') []]"
        "sample_poll True (sample_first @ ''T stderr F b'') (sample_first @ ''T stderr F b'' @ [NL])" cri_runtime]
    by (simp add: sample_poll_def calm_def rotatedOrGone_def sourceFromStat_def sample_tail_def sample_source_def record_end_def)
  moreover obtain x y where "?rs = [x, y]" "rec_Offset x = 13" "rec_Offset y = 26" "rec_Message y = ''b''"
    using sample_records(1) by (auto simp: map_eq_Cons_conv)
  ultimately show ?thesis by simp
qed

text \<open>Partial lines emit nothing; they add to the partial message and keep its time and stream.\<close>

abbreviation partial_as :: "runtime \<Rightarrow> string list \<Rightarrow> criLine list \<Rightarrow> bool" where
  "partial_as rt ls cs \<equiv> map (parseCRILine rt) ls = map Some cs \<and> list_all cri_partial cs"

lemma feed_partial_more:
  "partial_as rt ls cs \<Longrightarrow> ft_partial ft \<noteq> [] \<Longrightarrow> feed rt ls ft = ([], ft\<lparr>ft_offset := ft_offset ft + int (lines_size ls),
    ft_partial := ft_partial ft @ concat (map cri_message cs)\<rparr>)"
proof (induction ls arbitrary: cs ft)
  case (Cons l ls)
  then obtain c cs' where cs: "cs = c # cs'" "parseCRILine rt l = Some c" "cri_partial c" "partial_as rt ls cs'"
    by (cases cs) auto
  with Cons.IH [OF cs(4)] Cons.prems(2) show ?case by (simp add: consume_def Let_def algebra_simps)
qed simp

lemma feed_partial:
  assumes "partial_as rt (l # ls) (c # cs)" and "ft_partial ft = []" and "cri_message c \<noteq> []"
  shows "feed rt (l # ls) ft = ([], ft\<lparr>ft_offset := ft_offset ft + int (lines_size (l # ls)),
    ft_partial := concat (map cri_message (c # cs)), ft_pts := cri_ts c, ft_pstream := cri_stream c\<rparr>)"
  using assms feed_partial_more [of rt ls cs "ft\<lparr>ft_offset := ft_offset ft + int (Suc (length l)), ft_partial := cri_message c,
      ft_pts := cri_ts c, ft_pstream := cri_stream c\<rparr>"]
  by (cases ft) (simp add: consume_def Let_def algebra_simps)

lemma feed_partial_none: "partial_as rt ls cs \<Longrightarrow> fst (feed rt ls ft) = []"
proof (induction ls arbitrary: cs ft)
  case (Cons l ls)
  then obtain c cs' where cs: "cs = c # cs'" "parseCRILine rt l = Some c" "cri_partial c" "partial_as rt ls cs'"
    by (cases cs) auto
  with Cons.IH [OF cs(4)] show ?case by (simp add: consume_def Let_def split_beta)
qed simp

abbreviation unlines :: "string list \<Rightarrow> string" where
  "unlines ls \<equiv> concat (map (\<lambda>l. l @ [NL]) ls)"

lemma complete_lines_unlines: "list_all (\<lambda>l. NL \<notin> set l) ls \<Longrightarrow> complete_lines (unlines ls) = ls"
  by (induction ls) (simp_all add: complete_lines_def split_on_append)

text \<open>
  C40: partial lines are joined per file, not per stream.  A first partial line with text,
  any further partial lines and the next complete line of the file become one record, with the
  time and the stream of the first line, whichever streams the others are of: a line of stderr that
  comes between the parts of a long line of stdout is delivered as its end.  And partial
  lines at the end of a file, as a rotation between the parts leaves them, are in no record of it,
  while the tail of the next file starts with no partial message.
\<close>

theorem partial_lines_cross_streams:
  assumes "partial_as rt (l # ls) (c # cs)" and "cri_message c \<noteq> []"
    and "parseCRILine rt q = Some d" and "\<not> cri_partial d" and "ft_partial ft = []"
    and "list_all (\<lambda>x. NL \<notin> set x) (before @ l # ls)"
  shows "fst (feed rt (l # ls @ [q]) ft) = [buildRecord rt (ft_src ft) (ft_pod ft)
      \<lparr>cri_ts = cri_ts c, cri_stream = cri_stream c, cri_partial = False,
       cri_message = concat (map cri_message (c # cs)) @ cri_message d\<rparr>
      (ft_offset ft + int (lines_size (l # ls @ [q])))] \<and>
    file_records rt pod src (unlines (before @ l # ls)) = file_records rt pod src (unlines before)"
proof
  have d: "d\<lparr>cri_message := m, cri_ts := t, cri_stream := u\<rparr> = \<lparr>cri_ts = t, cri_stream = u, cri_partial = False, cri_message = m\<rparr>" for m t u
    using assms(4) by (cases d) simp
  have fed: "feed rt (l # ls @ [q]) ft = feed rt [q] (ft\<lparr>ft_offset := ft_offset ft + int (lines_size (l # ls)),
      ft_partial := concat (map cri_message (c # cs)), ft_pts := cri_ts c, ft_pstream := cri_stream c\<rparr>)"
    using feed_append [of rt "l # ls" "[q]" ft, unfolded feed_partial [OF assms(1,5,2)]]
    by (simp del: feed.simps split: prod.splits)
  show "fst (feed rt (l # ls @ [q]) ft) = [buildRecord rt (ft_src ft) (ft_pod ft)
      \<lparr>cri_ts = cri_ts c, cri_stream = cri_stream c, cri_partial = False,
       cri_message = concat (map cri_message (c # cs)) @ cri_message d\<rparr> (ft_offset ft + int (lines_size (l # ls @ [q])))]"
    unfolding fed using assms(2,3,4) by (simp add: consume_def Let_def algebra_simps d)
  have "list_all (\<lambda>x. NL \<notin> set x) before" using assms(6) by simp
  note lines = complete_lines_unlines [OF assms(6)] complete_lines_unlines [OF this]
  show "file_records rt pod src (unlines (before @ l # ls)) = file_records rt pod src (unlines before)"
    using feed_partial_none [OF assms(1)] unfolding file_records_def lines feed_append by (simp add: split_beta)
qed

theorem partial_lines_cross_streams_witness:
  "map (\<lambda>r. (rec_Stream r, rec_Message r)) (fst (feed cri_runtime [''T stdout P long'', ''T stderr F err''] sample_tail))
    = [(''stdout'', ''longerr'')] \<and>
   file_records cri_runtime (ft_pod sample_tail) sample_source (unlines [''T stdout P long'']) = []"
proof -
  have "partial_as cri_runtime [''T stdout P long''] [\<lparr>cri_ts = 7, cri_stream = ''stdout'', cri_partial = True, cri_message = ''long''\<rparr>]"
    and "parseCRILine cri_runtime ''T stderr F err'' = Some \<lparr>cri_ts = 7, cri_stream = ''stderr'', cri_partial = False, cri_message = ''err''\<rparr>"
    by code_simp+
  note cross = partial_lines_cross_streams [OF this(1) _ this(2), of sample_tail "[]" "ft_pod sample_tail" sample_source]
  have "file_records cri_runtime (ft_pod sample_tail) sample_source [] = []" by (simp add: file_records_def complete_lines_def)
  moreover have "list_all (\<lambda>x. NL \<notin> set x) ([] @ [''T stdout P long''])" by code_simp
  moreover have "ft_partial sample_tail = []" by (simp add: sample_tail_def)
  ultimately show ?thesis using cross by (simp del: feed.simps)
qed

lemma discover_once:
  assumes "discover cp matches t = (fts, t')"
  shows "distinct (map (\<lambda>ft. Key (ft_src ft)) fts) \<and>
    dom (tl_active t') = dom (tl_active t) \<union> (\<lambda>ft. Key (ft_src ft)) ` set fts \<and>
    list_all (\<lambda>ft. Key (ft_src ft) \<notin> dom (tl_active t) \<and> pi_Namespace (ft_pod ft) \<notin> tl_exclude t \<and>
      ft_offset ft = cp (Key (ft_src ft)) \<and> ft_partial ft = []) fts"
proof -
  have "discover_paths cp ps t = (fts, t') \<Longrightarrow> ?thesis" for ps
  proof (induction ps arbitrary: t fts)
    case (Cons p ps)
    show ?case
    proof (cases "discover_path cp p t")
      case None
      with Cons show ?thesis by simp
    next
      case (Some ft)
      let ?t = "t\<lparr>tl_active := (tl_active t)(Key (ft_src ft) \<mapsto> ft)\<rparr>"
      from Some Cons.prems obtain gts where g: "discover_paths cp ps ?t = (gts, t')" "fts = ft # gts"
        by (auto split: prod.splits)
      note new = discover_path_new [OF Some]
      then have "ft_offset ft = cp (Key (ft_src ft))" "ft_partial ft = []" by (metis new_tail_sel(1), metis new_tail_sel(5))
      with Cons.IH [OF g(1)] g(2) new show ?thesis by (auto simp: list_all_iff)
    qed
  qed simp
  with assms show ?thesis by (auto simp: discover_def split: sum.splits)
qed

lemma discover_excludes:
  "discover cp matches t = (fts, t') \<Longrightarrow> list_all (\<lambda>ft. pi_Namespace (ft_pod ft) \<notin> tl_exclude t) fts"
  using discover_once [of cp matches t fts t'] by (simp add: list_all_iff)

lemma discover_exclude: "discover cp matches t = (fts, t') \<Longrightarrow> tl_exclude t' = tl_exclude t"
proof -
  have "discover_paths cp ps t = (fts, t') \<Longrightarrow> tl_exclude t' = tl_exclude t" for ps
    by (induction ps arbitrary: t fts) (fastforce split: option.splits prod.splits)+
  then show "discover cp matches t = (fts, t') \<Longrightarrow> tl_exclude t' = tl_exclude t"
    by (auto simp: discover_def split: sum.splits)
qed

lemma tail_ends_keys:
  assumes "distinct (map f xs)" and "i < length xs"
  shows "distinct (map f (take i xs @ drop (Suc i) xs))" and "f ` set (take i xs @ drop (Suc i) xs) = f ` set xs - {f (xs ! i)}"
proof -
  have xs: "xs = take i xs @ xs ! i # drop (Suc i) xs" using assms(2) by (rule id_take_nth_drop)
  with assms(1) have d: "distinct (map f (take i xs @ xs ! i # drop (Suc i) xs))" by simp
  then show "distinct (map f (take i xs @ drop (Suc i) xs))" by simp
  have "f ` set xs = f ` set (take i xs @ xs ! i # drop (Suc i) xs)" using xs by simp
  with d show "f ` set (take i xs @ drop (Suc i) xs) = f ` set xs - {f (xs ! i)}" by (simp add: image_Un)
qed

lemma Tailer_Run_keys:
  assumes "distinct (map (\<lambda>ft. Key (ft_src ft)) running)" and "dom (tl_active t) = (\<lambda>ft. Key (ft_src ft)) ` set running"
    and "list_all (\<lambda>ft. pi_Namespace (ft_pod ft) \<notin> tl_exclude t) running" and "Tailer_Run evs (running, t) = (running', t')"
  shows "distinct (map (\<lambda>ft. Key (ft_src ft)) running') \<and> dom (tl_active t') = (\<lambda>ft. Key (ft_src ft)) ` set running' \<and>
    list_all (\<lambda>ft. pi_Namespace (ft_pod ft) \<notin> tl_exclude t) running'"
  using assms
proof (induction evs "(running, t)" arbitrary: running t rule: Tailer_Run.induct)
  case (2 cp matches evs running t)
  obtain fts t1 where d: "discover cp matches t = (fts, t1)" by (cases "discover cp matches t")
  have ex: "tl_exclude t1 = tl_exclude t" by (rule discover_exclude [OF d])
  note once = discover_once [OF d]
  have "(\<lambda>ft. Key (ft_src ft)) ` set fts \<inter> dom (tl_active t) = {}" using once unfolding list_all_iff by blast
  then have "distinct (map (\<lambda>ft. Key (ft_src ft)) (running @ fts))"
    using "2.prems"(1,2) once by (simp add: Int_commute)
  moreover have "dom (tl_active t1) = (\<lambda>ft. Key (ft_src ft)) ` set (running @ fts)" using "2.prems"(2) once by auto
  moreover have "list_all (\<lambda>ft. pi_Namespace (ft_pod ft) \<notin> tl_exclude t1) (running @ fts)"
    using "2.prems"(3) once ex by (auto simp: list_all_iff)
  ultimately show ?case using "2.hyps" [OF d [symmetric]] "2.prems"(4) d ex by simp
next
  case (3 i evs running t)
  show ?case
  proof (cases "i < length running")
    case True
    note k = tail_ends_keys [OF "3.prems"(1) True]
    have "dom (tl_active (tail_done (running ! i) t)) = (\<lambda>ft. Key (ft_src ft)) ` set (take i running @ drop (Suc i) running)"
      unfolding k(2) "3.prems"(2) [symmetric] by (auto simp: tail_done_def)
    moreover have "list_all (\<lambda>ft. pi_Namespace (ft_pod ft) \<notin> tl_exclude (tail_done (running ! i) t)) (take i running @ drop (Suc i) running)"
      using "3.prems"(3) by (auto simp: list_all_iff tail_done_def dest: in_set_takeD in_set_dropD)
    ultimately show ?thesis using "3.hyps"(1) [OF True k(1)] "3.prems"(4) True by (simp add: tail_done_def)
  qed (use 3 in simp)
qed simp

text \<open>
  C38: one tail per file.  Whatever scans find and whenever tails end, the tails that run belong to
  different sources, the active ones are those, and none is of a pod in an excluded namespace.
\<close>

theorem one_tail_per_source:
  assumes "Tailer_Run evs ([], Tailer_New cfg) = (running, t)"
  shows "distinct (map (\<lambda>ft. Key (ft_src ft)) running) \<and> dom (tl_active t) = (\<lambda>ft. Key (ft_src ft)) ` set running \<and>
    list_all (\<lambda>ft. pi_Namespace (ft_pod ft) \<notin> tl_exclude (Tailer_New cfg)) running"
  by (rule Tailer_Run_keys [OF _ _ _ assms]) (simp_all add: Tailer_New_def Let_def)

theorem one_tail_per_source_witness:
  "\<exists>t. Tailer_Run [Scan (\<lambda>_. 13) (Inr [sample_probe]), Scan (\<lambda>_. 13) (Inr [sample_probe])] ([], sample_tailer) = ([sample_tail], t) \<and>
    dom (tl_active t) = {Key (ft_src sample_tail)}"
proof -
  let ?t = "sample_tailer\<lparr>tl_active := [Key (ft_src sample_tail) \<mapsto> sample_tail]\<rparr>"
  have act: "tl_active sample_tailer = Map.empty" by (simp add: sample_tailer_def Tailer_New_def Let_def)
  have "discover_path (\<lambda>_. 13) sample_probe ?t = None"
    by (simp add: discover_path_def sample_probe_def sample_tailer_def Tailer_New_def TailConfig_defaults_def sample_tail_def sample_source_def
        parsePath_def sourceFromStat_def statBirthNano_def new_tail_def eval_nat_numeral)
  then have r: "Tailer_Run [Scan (\<lambda>_. 13) (Inr [sample_probe]), Scan (\<lambda>_. 13) (Inr [sample_probe])] ([], sample_tailer) = ([sample_tail], ?t)"
    using sample_discover act by (simp add: discover_def)
  from one_tail_per_source [OF r [unfolded sample_tailer_def]] r show ?thesis by (simp add: sample_tailer_def)
qed

text \<open>
  A pod that opts out by its annotation: as soon as the informer has delivered it, no scan starts a
  tail for it, and a tail that already waits for its metadata emits nothing.
\<close>

theorem excluded_pod_not_ingested:
  assumes "er_excludeAnno e \<noteq> []" and "map_of (po_Annotations po) (er_excludeAnno e) = Some ''false''"
    and "e' = upsert (Some po) e"
  shows "Ready (po_UID po) e'" and "\<not> ShouldIngest (po_UID po) e'"
    and "pb_ingest pr = ShouldIngest (po_UID po) e' \<Longrightarrow> discover_path cp pr t = None"
    and "ti_ingest io = ShouldIngest (po_UID po) e' \<Longrightarrow> fst (tail_run rt cfg io ft) = []"
proof -
  show "Ready (po_UID po) e'" using assms by (simp add: Ready_def upsert_def)
  show no: "\<not> ShouldIngest (po_UID po) e'" using assms by (simp add: ShouldIngest_def upsert_def)
  show "pb_ingest pr = ShouldIngest (po_UID po) e' \<Longrightarrow> discover_path cp pr t = None"
    using no by (simp add: discover_path_def split: option.split)
  show "ti_ingest io = ShouldIngest (po_UID po) e' \<Longrightarrow> fst (tail_run rt cfg io ft) = []"
    using no by (simp add: tail_run_def Let_def)
qed

text \<open>A poll leaves the tail waiting or ends the wait with an answer.\<close>

definition keeps_waiting :: "time \<Rightarrow> bool \<times> bool \<times> time \<Rightarrow> bool" where
  "keeps_waiting deadline = (\<lambda>(cancelled, rdy, now). \<not> cancelled \<and> \<not> rdy \<and> now \<le> deadline)"

definition answers :: "time \<Rightarrow> bool \<times> bool \<times> time \<Rightarrow> bool \<Rightarrow> bool" where
  "answers deadline = (\<lambda>(cancelled, rdy, now) b. if cancelled then \<not> b else (rdy \<or> now > deadline) \<and> b)"

lemma await_loop_None: "await_loop deadline ws = None \<longleftrightarrow> list_all (keeps_waiting deadline) ws"
  by (induction deadline ws rule: await_loop.induct) (auto simp: keeps_waiting_def)

lemma await_loop_Some:
  "await_loop deadline ws = Some b \<longleftrightarrow>
    (\<exists>ps p qs. ws = ps @ p # qs \<and> list_all (keeps_waiting deadline) ps \<and> answers deadline p b)"
proof (induction deadline ws rule: await_loop.induct)
  case (2 deadline cancelled rdy now ws)
  let ?p = "(cancelled, rdy, now)"
  have split: "(\<exists>ps p qs. ?p # ws = ps @ p # qs \<and> list_all (keeps_waiting deadline) ps \<and> answers deadline p b) \<longleftrightarrow>
      answers deadline ?p b \<or> (keeps_waiting deadline ?p \<and>
        (\<exists>ps p qs. ws = ps @ p # qs \<and> list_all (keeps_waiting deadline) ps \<and> answers deadline p b))"
    (is "?l \<longleftrightarrow> ?r")
  proof
    assume ?l
    then obtain ps p qs where l: "?p # ws = ps @ p # qs" "list_all (keeps_waiting deadline) ps" "answers deadline p b" by blast
    then show ?r
    proof (cases ps)
      case (Cons x ps')
      with l have "keeps_waiting deadline ?p" "ws = ps' @ p # qs" "list_all (keeps_waiting deadline) ps'" by auto
      with l(3) show ?r by blast
    qed simp
  next
    assume ?r
    then show ?l
    proof
      assume "answers deadline ?p b"
      then show ?l by (intro exI [of _ "[]"] exI [of _ ?p] exI [of _ ws]) simp
    next
      assume "keeps_waiting deadline ?p \<and> (\<exists>ps p qs. ws = ps @ p # qs \<and> list_all (keeps_waiting deadline) ps \<and> answers deadline p b)"
      then obtain ps p qs where "keeps_waiting deadline ?p" "ws = ps @ p # qs" "list_all (keeps_waiting deadline) ps" "answers deadline p b"
        by blast
      then show ?l by (intro exI [of _ "?p # ps"] exI [of _ p] exI [of _ qs]) simp
    qed
  qed
  show ?case unfolding split using 2 by (auto simp: keeps_waiting_def answers_def)
qed simp

text \<open>
  C36: the wait for metadata ends at the right poll.  A tail that has the metadata at once does not
  wait.  Any other is still waiting exactly as long as no poll found the context cancelled, the
  metadata there or the time past the deadline; and it goes on (or gives up) exactly when the first
  poll that found one of these found the metadata or the deadline (or the context cancelled).
\<close>

theorem awaitMetadata_ends:
  "awaitMetadata cfg True now ws = Some True \<and>
   (awaitMetadata cfg False now ws = None \<longleftrightarrow> list_all (keeps_waiting (now + tc_MetadataWait cfg)) ws) \<and>
   (awaitMetadata cfg False now ws = Some b \<longleftrightarrow>
     (\<exists>ps p qs. ws = ps @ p # qs \<and> list_all (keeps_waiting (now + tc_MetadataWait cfg)) ps \<and>
       answers (now + tc_MetadataWait cfg) p b))"
  by (simp add: awaitMetadata_def await_loop_None await_loop_Some)

end
