(* ===== verification/HttpApi.thy ===== *)
theory HttpApi
  imports Manager
begin

text \<open>
  The query API, \<open>internal/manager/http.go\<close>: queries, live tails that begin with a replay of the
  history, histograms and field suggestions.  A request is the texts of its parameters (a missing
  one is empty), a response its status and contents; HTTP itself and the contents of the embedded UI are
  not modelled.
\<close>


section \<open>Parameters\<close>

text \<open>
  \<open>strconv.ParseInt(s, 10, 64)\<close>: the value, and the error of a text that is no number (value 0) or
  out of range (value at the end of the range).
\<close>

datatype num_error = ErrSyntax | ErrRange

definition digits_value :: "string \<Rightarrow> int" where
  "digits_value ds = foldl (\<lambda>a c. 10 * a + (int (of_char c) - 48)) 0 ds"

definition ParseInt :: "string \<Rightarrow> int \<times> num_error option" where
  "ParseInt s =
     (let neg = (case s of c # _ \<Rightarrow> c = CHR ''-'' | [] \<Rightarrow> False);
          ds = (case s of c # t \<Rightarrow> if c = CHR ''-'' \<or> c = CHR ''+'' then t else s | [] \<Rightarrow> []) in
      if ds = [] \<or> \<not> list_all is_digit_char ds then (0, Some ErrSyntax)
      else
        (let v = (if neg then - digits_value ds else digits_value ds) in
         if v \<ge> 2 ^ 63 then (2 ^ 63 - 1, Some ErrRange)
         else if v < - (2 ^ 63) then (- (2 ^ 63), Some ErrRange)
         else (v, None)))"

text \<open>
  \<open>parseTime\<close>.  \<open>time.Unix(n, 0)\<close> counts its seconds from the year 1 in an \<open>int64\<close>.
\<close>

definition unix_seconds :: "int \<Rightarrow> time" where
  "unix_seconds n = (wrap64 (n + 62135596800) - 62135596800) * 1000000000"

definition parseTime :: "runtime \<Rightarrow> string \<Rightarrow> go_error + time" where
  "parseTime rt s =
     (if s = [] then Inr zero_time
      else
        (case parse_rfc3339 rt s of
           Some t \<Rightarrow> Inr t
         | None \<Rightarrow>
             (case ParseInt s of
                (n, None) \<Rightarrow> Inr (unix_seconds n)
              | (n, Some e) \<Rightarrow> Inl (OtherError ''expected RFC3339 or unix seconds''))))"

record params =
  pa_expr :: string
  pa_start :: string
  pa_end :: string
  pa_limit :: string
  pa_follow :: string
  pa_direction :: string
  pa_buckets :: string


section \<open>Queries\<close>

text \<open>
  The callback of \<open>handleQuery\<close>: the records written so far and the highest offset per source.
  \<open>enc\<close> is the outcome of writing a record to the connection.
\<close>

type_synonym stream = "log_record list \<times> (string \<rightharpoonup> int)"

definition emit_record :: "(log_record \<Rightarrow> go_error option) \<Rightarrow> stream emitter" where
  "emit_record enc r = (\<lambda>(out, mx).
     case enc r of
       Some e \<Rightarrow> (Some e, (out, mx))
     | None \<Rightarrow> (None, (out @ [r], if rec_Offset r > get0 mx (rec_key r) then mx(rec_key r \<mapsto> rec_Offset r) else mx)))"

text \<open>The loop over the live feed.\<close>

fun follow_loop :: "(log_record \<Rightarrow> go_error option) \<Rightarrow> time \<Rightarrow> log_record list \<Rightarrow> stream \<Rightarrow> stream" where
  "follow_loop enc start [] x = x"
| "follow_loop enc start (r # rs) x =
     (if \<not> is_zero start \<and> rec_Timestamp r < start then follow_loop enc start rs x
      else if (case snd x (rec_key r) of None \<Rightarrow> False | Some off \<Rightarrow> rec_Offset r \<le> off) then follow_loop enc start rs x
      else
        (case emit_record enc r x of
           (Some e, x1) \<Rightarrow> x1
         | (None, x1) \<Rightarrow> follow_loop enc start rs x1))"

text \<open>
  \<open>streamFollow\<close>, given the time of the subscription and the records that arrive on the channel
  until the client leaves or the subscriber is dropped.
\<close>

definition streamFollow ::
  "runtime \<Rightarrow> 'st segment_store \<Rightarrow> (time \<Rightarrow> time \<Rightarrow> log_record list) option \<Rightarrow> (log_record \<Rightarrow> go_error option) \<Rightarrow>
    node \<Rightarrow> time \<Rightarrow> time \<Rightarrow> log_record list \<Rightarrow> 'st \<Rightarrow> stream \<Rightarrow> 'st \<times> stream" where
  "streamFollow rt S opn enc expr start treg live st x =
     (case Run rt S opn \<lparr>rq_Expr = Some expr, rq_Start = start, rq_End = treg, rq_Limit = 0, rq_Desc = False\<rparr>
             (emit_record enc) st x of
        (Some e, st1, x1) \<Rightarrow> (st1, x1)
      | (None, st1, x1) \<Rightarrow> (st1, follow_loop enc start live x1))"

datatype reply = BadRequest | Replied "log_record list" "go_error option"

definition handleQuery ::
  "runtime \<Rightarrow> 'st segment_store \<Rightarrow> (time \<Rightarrow> time \<Rightarrow> log_record list) option \<Rightarrow> (log_record \<Rightarrow> go_error option) \<Rightarrow>
    params \<Rightarrow> time \<Rightarrow> log_record list \<Rightarrow> 'st \<Rightarrow> reply \<times> 'st" where
  "handleQuery rt S opn enc q treg live st =
     (case Parse rt (pa_expr q) of
        Inl e \<Rightarrow> (BadRequest, st)
      | Inr expr \<Rightarrow>
          (case parseTime rt (pa_start q) of
             Inl e \<Rightarrow> (BadRequest, st)
           | Inr start \<Rightarrow>
               (case parseTime rt (pa_end q) of
                  Inl e \<Rightarrow> (BadRequest, st)
                | Inr stop \<Rightarrow>
                    (let limit = fst (ParseInt (pa_limit q));
                         follow = (pa_follow q = ''true'' \<or> pa_follow q = ''1'');
                         desc = (if follow then False else pa_direction q = ''desc'') in
                     if \<not> follow then
                       (case Run rt S opn \<lparr>rq_Expr = Some expr, rq_Start = start, rq_End = stop, rq_Limit = limit, rq_Desc = desc\<rparr>
                               (emit_record enc) st ([], Map.empty) of
                          (err, st1, out, mx) \<Rightarrow> (Replied out err, st1))
                     else
                       (case streamFollow rt S opn enc expr start treg live st ([], Map.empty) of
                          (st1, out, mx) \<Rightarrow> (Replied out None, st1))))))"


section \<open>Histograms\<close>

text \<open>\<open>Time.Sub\<close> saturates; the division of durations truncates.\<close>

definition time_sub :: "time \<Rightarrow> time \<Rightarrow> int" where
  "time_sub a b = max (- (2 ^ 63)) (min (2 ^ 63 - 1) (a - b))"

definition trunc_div :: "int \<Rightarrow> int \<Rightarrow> int" where
  "trunc_div a b = (if a \<ge> 0 then a div b else - ((- a) div b))"

definition bucket_index :: "time \<Rightarrow> int \<Rightarrow> int \<Rightarrow> log_record \<Rightarrow> int" where
  "bucket_index start interval buckets r =
     (let i0 = trunc_div (time_sub (rec_Timestamp r) start) interval;
          i1 = (if i0 < 0 then 0 else i0) in
      if i1 \<ge> buckets then buckets - 1 else i1)"

record histogram =
  hg_start :: time
  hg_end :: time
  hg_intervalMs :: int
  hg_counts :: "int list"
  hg_total :: int

datatype histogram_reply = HBadRequest | HError go_error | HPanic | Histogram histogram

definition count_record :: "time \<Rightarrow> int \<Rightarrow> int \<Rightarrow> (int list \<times> int) emitter" where
  "count_record start interval buckets r = (\<lambda>(counts, n).
     (let i = nat (bucket_index start interval buckets r) in (None, (counts[i := counts ! i + 1], n + 1))))"

text \<open>
  \<open>make\<close> panics for a slice that exceeds the address space (\<open>maxAlloc\<close>, \<open>2\<^sup>4\<^sup>8\<close> bytes); the times and the
  bucket count that do not parse are taken as missing.
\<close>

definition or_zero :: "go_error + time \<Rightarrow> time" where
  "or_zero x = (case x of Inl e \<Rightarrow> zero_time | Inr t \<Rightarrow> t)"

definition histogram_window :: "runtime \<Rightarrow> time \<Rightarrow> params \<Rightarrow> time \<times> time \<times> int \<times> int" where
  "histogram_window rt now q =
     (let end0 = or_zero (parseTime rt (pa_end q));
          stop = (if is_zero end0 then now else end0);
          start0 = or_zero (parseTime rt (pa_start q));
          start = (if is_zero start0 then stop - 86400000000000 else start0);
          b0 = fst (ParseInt (pa_buckets q));
          buckets = (if b0 \<le> 0 then 60 else b0);
          span0 = time_sub stop start;
          span = (if span0 \<le> 0 then 1000000000 else span0);
          interval0 = trunc_div span buckets;
          interval = (if interval0 \<le> 0 then 1000000 else interval0) in
      (start, stop, buckets, interval))"

definition handleHistogram ::
  "runtime \<Rightarrow> 'st segment_store \<Rightarrow> (time \<Rightarrow> time \<Rightarrow> log_record list) option \<Rightarrow> time \<Rightarrow> params \<Rightarrow> 'st \<Rightarrow>
    histogram_reply \<times> 'st" where
  "handleHistogram rt S opn now q st =
     (case Parse rt (pa_expr q) of
        Inl e \<Rightarrow> (HBadRequest, st)
      | Inr expr \<Rightarrow>
          (case histogram_window rt now q of
             (start, stop, buckets, interval) \<Rightarrow>
               if 8 * buckets > 2 ^ 48 then (HPanic, st)
               else
                 (case Run rt S opn \<lparr>rq_Expr = Some expr, rq_Start = start, rq_End = stop, rq_Limit = 0, rq_Desc = False\<rparr>
                         (count_record start interval buckets) st (replicate (nat buckets) 0, 0) of
                    (Some e, st1, x) \<Rightarrow> (HError e, st1)
                  | (None, st1, counts, n) \<Rightarrow>
                      (Histogram \<lparr>hg_start = start, hg_end = stop, hg_intervalMs = trunc_div interval 1000000,
                         hg_counts = counts, hg_total = n\<rparr>, st1))))"


section \<open>Field suggestions\<close>

text \<open>A \<open>set\<close> of strings, as a list without repetitions, and its elements in order.\<close>

definition addAll :: "string list \<Rightarrow> string list \<Rightarrow> string list" where
  "addAll vs s = fold (\<lambda>v s. if v \<noteq> [] then List.insert v s else s) vs s"

definition set_sorted :: "string list \<Rightarrow> string list" where
  "set_sorted s = sort_strings s"

record fields_reply =
  fr_labels :: "string list"
  fr_fields :: "string list"
  fr_namespaces :: "string list"
  fr_pods :: "string list"
  fr_nodes :: "string list"
  fr_containers :: "string list"

definition handleFields :: "'st segment_store \<Rightarrow> 'st \<Rightarrow> go_error + fields_reply" where
  "handleFields S st =
     rbind (ss_Overlapping S zero_time zero_time st) (\<lambda>segs.
     (let all = (\<lambda>f. set_sorted (fold (\<lambda>m. addAll (f m)) segs [])) in
      Inr \<lparr>fr_labels = all sm_LabelKeys, fr_fields = all sm_FieldKeys, fr_namespaces = all sm_Namespaces,
        fr_pods = all sm_Pods, fr_nodes = all sm_Nodes, fr_containers = all sm_Containers\<rparr>))"

text \<open>
  \<open>Handler\<close>: the answers to a path of the server's mux.  The embedded UI gets every path that has no
  handler of its own.
\<close>

datatype response = QueryReply reply | FieldsReply "go_error + fields_reply" | HistogramReply histogram_reply | Healthy | UI string

definition Handler ::
  "runtime \<Rightarrow> 'st segment_store \<Rightarrow> (time \<Rightarrow> time \<Rightarrow> log_record list) option \<Rightarrow> (log_record \<Rightarrow> go_error option) \<Rightarrow>
    string \<Rightarrow> params \<Rightarrow> time \<Rightarrow> log_record list \<Rightarrow> 'st \<Rightarrow> response \<times> 'st" where
  "Handler rt S opn enc path q now live st =
     (if path = ''/v1/query'' then apfst QueryReply (handleQuery rt S opn enc q now live st)
      else if path = ''/v1/fields'' then (FieldsReply (handleFields S st), st)
      else if path = ''/v1/histogram'' then apfst HistogramReply (handleHistogram rt S opn now q st)
      else if path = ''/healthz'' then (Healthy, st)
      else (UI path, st))"



section \<open>Callbacks that do not fail\<close>

lemma run_loop_pure:
  assumes em: "\<And>r x. em r x = (None, f r x)"
  shows "run_loop rt expr req em its cnt (fold f acc e) =
    map_prod id (\<lambda>out. fold f out e) (run_loop rt expr req collect its cnt acc)"
proof (induction "iters_left its" arbitrary: its cnt acc rule: less_induct)
  case less
  obtain c its1 where pn: "pickNext (rq_Desc req) its = (c, its1)" by (cases "pickNext (rq_Desc req) its")
  show ?case
  proof (cases c)
    case None
    with pn show ?thesis by (subst (1 2) run_loop.simps) simp
  next
    case (Some k)
    let ?its = "its1[k := pop (its1 ! k)]" let ?r = "the (fst (peek (its1 ! k)))"
    note pn' = pn [unfolded Some]
    note IH = less [OF iters_left_pop [OF pn']]
    have IH1: "run_loop rt expr req em ?its n (f ?r (fold f acc e)) =
        map_prod id (\<lambda>out. fold f out e) (run_loop rt expr req collect ?its n (acc @ [?r]))" for n
      using IH [of n "acc @ [?r]"] by simp
    show ?thesis
      by (subst (1 2) run_loop.simps)
        (simp add: pn' Let_def em collect_def IH IH1 split: option.split bool.split)
  qed
qed

lemma Run_pure:
  assumes "\<And>r x. em r x = (None, f r x)" and "Run rt S opn req collect st [] = (err, st', out)"
  shows "Run rt S opn req em st e = (err, st', fold f out e)"
  using assms(2) run_loop_pure [where em = em and f = f and acc = "[]" and e = e, OF assms(1)]
  unfolding Run_def Let_def by (auto simp: map_prod_def split: sum.splits prod.splits)


section \<open>Live tails\<close>

definition track :: "log_record \<Rightarrow> stream \<Rightarrow> stream" where
  "track r = (\<lambda>(out, mx). (out @ [r], if rec_Offset r > get0 mx (rec_key r) then mx(rec_key r \<mapsto> rec_Offset r) else mx))"

lemma emit_record_ok: "emit_record (\<lambda>_. None) r x = (None, track r x)"
  by (simp add: emit_record_def track_def split: prod.split)

definition covered :: "log_record list \<Rightarrow> log_record \<Rightarrow> bool" where
  "covered out r \<longleftrightarrow> (\<exists>h \<in> set out. rec_key h = rec_key r \<and> rec_Offset r \<le> rec_Offset h)"

text \<open>The map of the callback holds the greatest offset written per source.\<close>

definition tracks :: "stream \<Rightarrow> bool" where
  "tracks x \<longleftrightarrow> (\<forall>r. (case snd x (rec_key r) of None \<Rightarrow> False | Some off \<Rightarrow> rec_Offset r \<le> off) = covered (fst x) r) \<and>
     (\<forall>k v. snd x k = Some v \<longrightarrow> 0 < v)"

lemma tracks_track:
  assumes "tracks x" and "0 < rec_Offset r"
  shows "tracks (track r x)"
proof -
  obtain out mx where x: "x = (out, mx)" by (cases x)
  have cov: "(case mx (rec_key q) of None \<Rightarrow> False | Some off \<Rightarrow> rec_Offset q \<le> off) = covered out q"
    and pos: "\<And>k v. mx k = Some v \<Longrightarrow> 0 < v" for q
    using assms(1) x by (simp_all add: tracks_def)
  let ?mx = "if rec_Offset r > get0 mx (rec_key r) then mx(rec_key r \<mapsto> rec_Offset r) else mx"
  have some: "\<not> rec_Offset r > get0 mx (rec_key r) \<Longrightarrow> \<exists>v. mx (rec_key r) = Some v \<and> rec_Offset r \<le> v"
    using assms(2) by (auto simp: get0_def split: option.splits)
  have "(case ?mx (rec_key q) of None \<Rightarrow> False | Some off \<Rightarrow> rec_Offset q \<le> off) = covered (out @ [r]) q" for q
  proof (cases "rec_key q = rec_key r")
    case True
    then show ?thesis
      using cov [of q] some by (auto simp: covered_def get0_def split: option.splits)
  next
    case False
    then show ?thesis using cov [of q] by (auto simp: covered_def)
  qed
  moreover have "0 < v" if "?mx k = Some v" for k v
    using that pos assms(2) by (auto split: if_splits)
  ultimately show ?thesis unfolding tracks_def x track_def by simp
qed

lemma track_fold: "fst (fold track rs x) = fst x @ rs"
  by (induction rs arbitrary: x) (simp_all add: track_def split: prod.split)

lemma tracks_fold: "tracks x \<Longrightarrow> \<forall>r \<in> set rs. 0 < rec_Offset r \<Longrightarrow> tracks (fold track rs x)"
  by (induction rs arbitrary: x) (simp_all add: tracks_track)

lemma tracks_start: "tracks ([], Map.empty)"
  by (simp add: tracks_def covered_def)

lemma follow_loop_output:
  assumes "tracks x" and "rising live" and "\<forall>r \<in> set live. 0 < rec_Offset r"
  shows "fst (follow_loop (\<lambda>_. None) start live x) =
    fst x @ filter (\<lambda>r. (is_zero start \<or> start \<le> rec_Timestamp r) \<and> \<not> covered (fst x) r) live"
  using assms
proof (induction live arbitrary: x)
  case (Cons r rs)
  have rs: "rising rs" "\<forall>q \<in> set rs. rec_key r = rec_key q \<longrightarrow> rec_Offset r < rec_Offset q"
    using Cons.prems(2) by (simp_all add: rising_def)
  have cov: "(case snd x (rec_key r) of None \<Rightarrow> False | Some off \<Rightarrow> rec_Offset r \<le> off) = covered (fst x) r"
    using Cons.prems(1) by (simp add: tracks_def)
  show ?case
  proof (cases "(is_zero start \<or> start \<le> rec_Timestamp r) \<and> \<not> covered (fst x) r")
    case False
    then have "follow_loop (\<lambda>_. None) start (r # rs) x = follow_loop (\<lambda>_. None) start rs x"
      using cov by auto
    with False Cons.IH [OF Cons.prems(1) rs(1)] Cons.prems(3) show ?thesis by auto
  next
    case True
    then have step: "follow_loop (\<lambda>_. None) start (r # rs) x = follow_loop (\<lambda>_. None) start rs (track r x)"
      using cov by (auto simp: emit_record_ok)
    have out: "fst (track r x) = fst x @ [r]" using track_fold [of "[r]" x] by simp
    have "covered (fst x @ [r]) q = covered (fst x) q" if "q \<in> set rs" for q
      using that rs(2) by (fastforce simp: covered_def)
    then have "filter (\<lambda>q. (is_zero start \<or> start \<le> rec_Timestamp q) \<and> \<not> covered (fst x @ [r]) q) rs =
        filter (\<lambda>q. (is_zero start \<or> start \<le> rec_Timestamp q) \<and> \<not> covered (fst x) q) rs"
      by (intro filter_cong) auto
    with Cons.IH [OF tracks_track [OF Cons.prems(1)] rs(1), of r] Cons.prems(3) True show ?thesis
      unfolding step out by simp
  qed
qed simp


section \<open>Histograms\<close>

lemma bucket_index_range: "0 < buckets \<Longrightarrow> 0 \<le> bucket_index start interval buckets r \<and> bucket_index start interval buckets r < buckets"
  by (simp add: bucket_index_def Let_def)

definition count_step :: "(log_record \<Rightarrow> nat) \<Rightarrow> log_record \<Rightarrow> int list \<times> int \<Rightarrow> int list \<times> int" where
  "count_step ix r = (\<lambda>(counts, n). (counts[ix r := counts ! ix r + 1], n + 1))"

lemma count_fold:
  assumes "\<forall>r \<in> set rs. ix r < length counts"
  shows "snd (fold (count_step ix) rs (counts, n)) = n + int (length rs) \<and>
    length (fst (fold (count_step ix) rs (counts, n))) = length counts \<and>
    (\<forall>i < length counts. fst (fold (count_step ix) rs (counts, n)) ! i = counts ! i + int (length (filter (\<lambda>r. ix r = i) rs)))"
  using assms
proof (induction rs arbitrary: counts n)
  case (Cons r rs)
  have "fold (count_step ix) (r # rs) (counts, n) = fold (count_step ix) rs (counts[ix r := counts ! ix r + 1], n + 1)"
    by (simp add: count_step_def)
  with Cons.IH [of "counts[ix r := counts ! ix r + 1]" "n + 1"] Cons.prems show ?case by (simp add: nth_list_update)
qed simp

lemma sum_counts: "\<forall>r \<in> set rs. ix r < (n :: nat) \<Longrightarrow> (\<Sum>i < n. int (length (filter (\<lambda>r. ix r = i) rs))) = int (length rs)"
proof (induction rs)
  case (Cons r rs)
  have "(\<Sum>i < n. int (length (filter (\<lambda>r. ix r = i) (r # rs)))) =
      (\<Sum>i < n. int (length (filter (\<lambda>r. ix r = i) rs))) + (\<Sum>i < n. if ix r = i then 1 else 0)"
    unfolding sum.distrib [symmetric] by (rule sum.cong) simp_all
  moreover have "(\<Sum>i < n. if ix r = i then 1 else 0) = (1 :: int)"
    using sum.delta' [of "{..<n}" "ix r" "\<lambda>_. 1 :: int"] Cons.prems by simp
  ultimately show ?case using Cons by simp
qed simp

lemma histogram_window_positive:
  "histogram_window rt now q = (start, stop, buckets, interval) \<Longrightarrow> 0 < buckets \<and> 0 < interval"
  by (auto simp: histogram_window_def Let_def split: if_splits)



section \<open>Field suggestions\<close>

lemma addAll_set: "set (addAll vs s) = set s \<union> {v \<in> set vs. v \<noteq> []}" and addAll_distinct: "distinct s \<Longrightarrow> distinct (addAll vs s)"
proof -
  have "set (addAll vs s) = set s \<union> {v \<in> set vs. v \<noteq> []} \<and> (distinct s \<longrightarrow> distinct (addAll vs s))"
    unfolding addAll_def by (induction vs arbitrary: s) auto
  then show "set (addAll vs s) = set s \<union> {v \<in> set vs. v \<noteq> []}" and "distinct s \<Longrightarrow> distinct (addAll vs s)" by blast+
qed

lemma addAll_fold:
  "set (fold (\<lambda>m. addAll (f m)) segs s) = set s \<union> {v \<in> (\<Union>m \<in> set segs. set (f m)). v \<noteq> []} \<and>
    (distinct s \<longrightarrow> distinct (fold (\<lambda>m. addAll (f m)) segs s))"
  by (induction segs arbitrary: s) (auto simp: addAll_set addAll_distinct)


section \<open>Properties\<close>

text \<open>
  C33: what a live tail writes.  When the history is read without an error and the live records of
  each source arrive in the order of their offsets, a follower gets the history, then every live
  record from the start time on but for those at or below an offset the history has shown of
  their source, each once and in the order they arrived.  (So a live record is missing, not only
  repeated, when the history skipped it and shows a later one of its source.)
\<close>

theorem follow_output:
  assumes "Run rt S opn \<lparr>rq_Expr = Some expr, rq_Start = start, rq_End = treg, rq_Limit = 0, rq_Desc = False\<rparr> collect st []
      = (None, st', hist)"
    and "rising live" and "list_all (\<lambda>r. 0 < rec_Offset r) (hist @ live)"
  shows "\<exists>mx. streamFollow rt S opn (\<lambda>_. None) expr start treg live st ([], Map.empty) =
    (st', hist @ filter (\<lambda>r. (is_zero start \<or> start \<le> rec_Timestamp r) \<and>
       \<not> (\<exists>h \<in> set hist. rec_key h = rec_key r \<and> rec_Offset r \<le> rec_Offset h)) live, mx)"
proof -
  let ?x = "fold track hist ([], Map.empty)"
  have run: "Run rt S opn \<lparr>rq_Expr = Some expr, rq_Start = start, rq_End = treg, rq_Limit = 0, rq_Desc = False\<rparr>
      (emit_record (\<lambda>_. None)) st ([], Map.empty) = (None, st', ?x)"
    by (rule Run_pure [OF emit_record_ok assms(1)])
  have "tracks ?x" using tracks_fold [OF tracks_start] assms(3) by (simp add: list_all_iff)
  from follow_loop_output [OF this assms(2)] assms(3) track_fold [of hist "([], Map.empty)"]
  have "fst (follow_loop (\<lambda>_. None) start live ?x) = hist @ filter (\<lambda>r. (is_zero start \<or> start \<le> rec_Timestamp r) \<and>
       \<not> (\<exists>h \<in> set hist. rec_key h = rec_key r \<and> rec_Offset r \<le> rec_Offset h)) live"
    by (simp add: list_all_iff covered_def)
  then show ?thesis unfolding streamFollow_def run by (cases "follow_loop (\<lambda>_. None) start live ?x") auto
qed

definition empty_source :: "unit segment_store" where
  "empty_source = \<lparr>ss_Overlapping = (\<lambda>_ _ _. Inr []), ss_Reader = (\<lambda>_ st. (Inl (OtherError ''none''), st))\<rparr>"

lemma empty_source_run:
  "Run bare_runtime empty_source (Some (\<lambda>_ _. [sample_record])) \<lparr>rq_Expr = Some matchAll, rq_Start = zero_time,
     rq_End = 1700000002000000000, rq_Limit = 0, rq_Desc = False\<rparr> collect () [] = (None, (), [sample_record])"
  by code_simp

theorem follow_output_witness:
  "\<exists>mx. streamFollow bare_runtime empty_source (Some (\<lambda>_ _. [sample_record])) (\<lambda>_. None) matchAll zero_time 1700000002000000000
      [sample_record, later_record] () ([], Map.empty) = ((), [sample_record, later_record], mx)"
proof -
  have "rising [sample_record, later_record]" "list_all (\<lambda>r. 0 < rec_Offset r) ([sample_record] @ [sample_record, later_record])"
    by (simp_all add: rising_def sample_record_def later_record_def)
  moreover have "[sample_record] @ filter (\<lambda>r. (is_zero zero_time \<or> zero_time \<le> rec_Timestamp r) \<and>
       \<not> (\<exists>h \<in> set [sample_record]. rec_key h = rec_key r \<and> rec_Offset r \<le> rec_Offset h)) [sample_record, later_record]
      = [sample_record, later_record]"
    by (simp add: sample_record_def later_record_def)
  ultimately show ?thesis using follow_output [OF empty_source_run, of "[sample_record, later_record]"] by simp
qed

text \<open>
  C34: a histogram counts every match once.  When the query succeeds, the reply has one count per
  bucket; the count of a bucket is the number of matching records whose index, clamped to the
  window, is that bucket, and the counts add up to the total, the number of matches.  A bucket
  count for which the slice cannot exist panics instead.
\<close>

theorem histogram_counts:
  assumes "Parse rt (pa_expr q) = Inr expr" and "histogram_window rt now q = (start, stop, buckets, interval)"
    and "Run rt S opn \<lparr>rq_Expr = Some expr, rq_Start = start, rq_End = stop, rq_Limit = 0, rq_Desc = False\<rparr> collect st []
      = (None, st', out)"
  shows "if 8 * buckets > 2 ^ 48 then handleHistogram rt S opn now q st = (HPanic, st)
    else \<exists>counts. handleHistogram rt S opn now q st = (Histogram \<lparr>hg_start = start, hg_end = stop,
        hg_intervalMs = trunc_div interval 1000000, hg_counts = counts, hg_total = int (length out)\<rparr>, st') \<and>
      counts = map (\<lambda>i. int (length (filter (\<lambda>r. bucket_index start interval buckets r = i) out))) [0..buckets - 1] \<and>
      sum_list counts = int (length out)"
proof (cases "8 * buckets > 2 ^ 48")
  case True
  with assms(1,2) show ?thesis by (simp add: handleHistogram_def)
next
  case False
  let ?ix = "\<lambda>r. nat (bucket_index start interval buckets r)"
  let ?x = "fold (count_step ?ix) out (replicate (nat buckets) 0, 0)"
  have pos: "0 < buckets" using histogram_window_positive [OF assms(2)] by simp
  note ran = bucket_index_range [OF pos, of start interval]
  then have ix: "\<forall>r \<in> set out. ?ix r < nat buckets" using pos by (auto simp: nat_less_iff)
  have step: "count_record start interval buckets r x = (None, count_step ?ix r x)" for r x
    by (simp add: count_record_def count_step_def Let_def split: prod.split)
  have run: "Run rt S opn \<lparr>rq_Expr = Some expr, rq_Start = start, rq_End = stop, rq_Limit = 0, rq_Desc = False\<rparr>
      (count_record start interval buckets) st (replicate (nat buckets) 0, 0) = (None, st', ?x)"
    by (rule Run_pure [OF step assms(3)])
  obtain counts n where x: "?x = (counts, n)" by (cases ?x)
  have c: "n = int (length out)" "length counts = nat buckets"
    "\<And>i. i < nat buckets \<Longrightarrow> counts ! i = int (length (filter (\<lambda>r. ?ix r = i) out))"
    using count_fold [of out ?ix "replicate (nat buckets) 0" 0] ix x by simp_all
  have same: "(?ix r = i) = (bucket_index start interval buckets r = int i)" for r i
    using ran [of r] by auto
  have "counts = map (\<lambda>i. int (length (filter (\<lambda>r. bucket_index start interval buckets r = i) out))) [0..buckets - 1]"
    using c(2,3) by (intro nth_equalityI) (simp_all add: same)
  moreover have "sum_list counts = int (length out)"
    using sum_counts [OF ix] c(2,3) by (simp add: sum_list_sum_nth atLeast0LessThan)
  moreover have "handleHistogram rt S opn now q st = (Histogram \<lparr>hg_start = start, hg_end = stop,
        hg_intervalMs = trunc_div interval 1000000, hg_counts = counts, hg_total = int (length out)\<rparr>, st')"
    using False assms(1,2) run x c(1) by (simp add: handleHistogram_def)
  ultimately show ?thesis using False by auto
qed

text \<open>Two buckets over four seconds: the one record falls into the second.\<close>

definition sample_params :: "string \<Rightarrow> params" where
  "sample_params b = \<lparr>pa_expr = [], pa_start = ''1'', pa_end = ''5'', pa_limit = [], pa_follow = [], pa_direction = [], pa_buckets = b\<rparr>"

definition sample_snapshot :: "time \<Rightarrow> time \<Rightarrow> log_record list" where
  "sample_snapshot start stop = [sample_record\<lparr>rec_Timestamp := 3500000000\<rparr>]"

theorem histogram_counts_witness:
  "(\<exists>h. handleHistogram bare_runtime empty_source (Some sample_snapshot) 0 (sample_params ''2'') () = (Histogram h, ()) \<and>
      hg_counts h = [0, 1]) \<and>
    handleHistogram bare_runtime empty_source (Some sample_snapshot) 0 (sample_params ''99999999999999999999'') () = (HPanic, ())"
proof -
  have p: "Parse bare_runtime (pa_expr (sample_params b)) = Inr matchAll" for b
  proof -
    have "Parse bare_runtime [] = Inr matchAll" by code_simp
    then show ?thesis by (simp add: sample_params_def)
  qed
  have w: "histogram_window bare_runtime 0 (sample_params ''2'') = (1000000000, 5000000000, 2, 2000000000)"
    "histogram_window bare_runtime 0 (sample_params ''99999999999999999999'') = (1000000000, 5000000000, 9223372036854775807, 1000000)"
    by code_simp+
  have r: "Run bare_runtime empty_source (Some sample_snapshot) \<lparr>rq_Expr = Some matchAll, rq_Start = 1000000000,
      rq_End = 5000000000, rq_Limit = 0, rq_Desc = False\<rparr> collect () [] = (None, (), [sample_record\<lparr>rec_Timestamp := 3500000000\<rparr>])"
    by code_simp
  have i: "bucket_index 1000000000 2000000000 2 (sample_record\<lparr>rec_Timestamp := 3500000000\<rparr>) = 1" by code_simp
  have u: "[0..1] = [0 :: int, 1]" by (simp add: upto.simps)
  show ?thesis using histogram_counts [OF p w(1) r] histogram_counts [OF p w(2) r] by (auto simp: i u)
qed

text \<open>
  The field suggestions.  Each list of the reply is sorted, without repetitions and without the
  empty name, and holds the names that the summaries of the cataloged segments list.
\<close>

theorem fields_reply_lists:
  assumes "ss_Overlapping S zero_time zero_time st = Inr segs" and "handleFields S st = Inr fr"
  shows "sorted_wrt string_less (fr_namespaces fr) \<and> set (fr_namespaces fr) = (\<Union>m \<in> set segs. set (sm_Namespaces m)) - {[]} \<and>
    sorted_wrt string_less (fr_fields fr) \<and> set (fr_fields fr) = (\<Union>m \<in> set segs. set (sm_FieldKeys m)) - {[]} \<and>
    sorted_wrt string_less (fr_labels fr) \<and> set (fr_labels fr) = (\<Union>m \<in> set segs. set (sm_LabelKeys m)) - {[]}"
proof -
  have all: "set (set_sorted (fold (\<lambda>m. addAll (f m)) segs [])) = (\<Union>m \<in> set segs. set (f m)) - {[]}" 
    "sorted_wrt string_less (set_sorted (fold (\<lambda>m. addAll (f m)) segs []))" for f :: "segment_meta \<Rightarrow> string list"
    using addAll_fold [of f segs "[]"] by (auto simp: set_sorted_def sorted_sort_strings)
  from assms have "fr_namespaces fr = set_sorted (fold (\<lambda>m. addAll (sm_Namespaces m)) segs [])"
    "fr_fields fr = set_sorted (fold (\<lambda>m. addAll (sm_FieldKeys m)) segs [])"
    "fr_labels fr = set_sorted (fold (\<lambda>m. addAll (sm_LabelKeys m)) segs [])"
    by (simp_all add: handleFields_def Let_def) (auto simp: fields_reply.defs)
  then show ?thesis by (simp add: all)
qed

theorem fields_reply_lists_witness:
  "\<exists>fr. handleFields (empty_source\<lparr>ss_Overlapping := \<lambda>_ _ _. Inr [empty_meta\<lparr>sm_Namespaces := [''b'', ''a'']\<rparr>]\<rparr>) () = Inr fr \<and>
    set (fr_namespaces fr) = {''a'', ''b''}"
proof -
  let ?S = "empty_source\<lparr>ss_Overlapping := \<lambda>_ _ _. Inr [empty_meta\<lparr>sm_Namespaces := [''b'', ''a'']\<rparr>]\<rparr>"
  obtain fr where f: "handleFields ?S () = Inr fr" by (simp add: handleFields_def Let_def)
  have o: "ss_Overlapping ?S zero_time zero_time () = Inr [empty_meta\<lparr>sm_Namespaces := [''b'', ''a'']\<rparr>]" by simp
  from fields_reply_lists [OF o f] f show ?thesis by auto
qed

end
