(* ===== verification/Settings.thy ===== *)
theory Settings
  imports Tailer HttpApi
begin

text \<open>
  The settings of the two commands, \<open>cmd/agent/main.go\<close> and \<open>cmd/manager/main.go\<close>, and the version
  text of \<open>internal/buildinfo/buildinfo.go\<close>.  The environment is a map; a missing variable reads as
  the empty string.
\<close>


section \<open>Environment variables\<close>

definition getenv :: "(string \<rightharpoonup> string) \<Rightarrow> string \<Rightarrow> string" where
  "getenv e k = (case e k of None \<Rightarrow> [] | Some v \<Rightarrow> v)"

definition env_or :: "(string \<rightharpoonup> string) \<Rightarrow> string \<Rightarrow> string \<Rightarrow> string" where
  "env_or e k def = (if getenv e k \<noteq> [] then getenv e k else def)"

definition envInt64 :: "(string \<rightharpoonup> string) \<Rightarrow> string \<Rightarrow> int \<Rightarrow> int" where
  "envInt64 e k def =
     (if getenv e k \<noteq> [] then (case ParseInt (getenv e k) of (n, None) \<Rightarrow> n | (n, Some err) \<Rightarrow> def) else def)"

text \<open>\<open>pd\<close> is \<open>time.ParseDuration\<close>.\<close>

definition envDuration :: "(string \<Rightarrow> int option) \<Rightarrow> (string \<rightharpoonup> string) \<Rightarrow> string \<Rightarrow> int \<Rightarrow> int" where
  "envDuration pd e k def =
     (if getenv e k \<noteq> [] then (case pd (getenv e k) of Some d \<Rightarrow> d | None \<Rightarrow> def) else def)"

definition splitCSV :: "string \<Rightarrow> string list" where
  "splitCSV s = filter (\<lambda>p. p \<noteq> []) (map trim_space (split_on (CHR '','') s))"


section \<open>The agent\<close>

definition agent_exclude :: "string \<Rightarrow> string \<Rightarrow> string list" where
  "agent_exclude excludeNS ownNS = splitCSV excludeNS @ (if ownNS \<noteq> [] then [ownNS] else [])"

definition agent_tailer :: "string \<Rightarrow> string \<Rightarrow> string \<Rightarrow> string \<Rightarrow> int \<Rightarrow> Tailer" where
  "agent_tailer logRoot nodeName excludeNS ownNS metaWait =
     Tailer_New \<lparr>tc_Root = logRoot, tc_Node = nodeName, tc_Glob = [], tc_PollInterval = 0,
       tc_ExcludeNamespaces = agent_exclude excludeNS ownNS, tc_MetadataWait = metaWait\<rparr>"

text \<open>The commit function of the agent's client: an acknowledgement advances the checkpoint.\<close>

definition agent_commit :: "'d bolt \<Rightarrow> string \<times> int \<Rightarrow> 'd \<Rightarrow> 'd" where
  "agent_commit D c d = snd (Advance D (fst c) (snd c) d)"

definition agent_client :: "int \<Rightarrow> client" where
  "agent_client maxHeld = NewClient \<lparr>cc_MaxHeldBytes = maxHeld, cc_HardMaxBytes = 0, cc_BatchBytes = 0, cc_BatchWait = 0, cc_Backoff = 0\<rparr>"


section \<open>The version text\<close>

record build =
  bi_Version :: string
  bi_Commit :: string
  bi_Date :: string

text \<open>\<open>init\<close> fills in what the linker did not set from the settings Go embeds, if there are any.\<close>

definition build_setting :: "string \<times> string \<Rightarrow> build \<Rightarrow> build" where
  "build_setting s b =
     (if fst s = ''vcs.revision'' then (if bi_Commit b = [] then b\<lparr>bi_Commit := snd s\<rparr> else b)
      else if fst s = ''vcs.time'' then (if bi_Date b = [] then b\<lparr>bi_Date := snd s\<rparr> else b)
      else b)"

definition build_init :: "(string \<times> string) list option \<Rightarrow> build \<Rightarrow> build" where
  "build_init info b = (case info of None \<Rightarrow> b | Some settings \<Rightarrow> fold build_setting settings b)"

definition build_String :: "build \<Rightarrow> string" where
  "build_String b =
     (let commit = (if length (bi_Commit b) > 12 then take 12 (bi_Commit b) else bi_Commit b) in
      if commit \<noteq> [] \<and> bi_Date b \<noteq> [] then bi_Version b @ '' (commit '' @ commit @ '', built '' @ bi_Date b @ '')''
      else if commit \<noteq> [] then bi_Version b @ '' (commit '' @ commit @ '')''
      else bi_Version b)"

text \<open>What the linker set is kept.\<close>

lemma build_setting_keeps:
  "bi_Commit b \<noteq> [] \<Longrightarrow> bi_Commit (build_setting s b) = bi_Commit b"
  "bi_Date b \<noteq> [] \<Longrightarrow> bi_Date (build_setting s b) = bi_Date b" "bi_Version (build_setting s b) = bi_Version b"
  by (simp_all add: build_setting_def)

lemma build_init_keeps:
  assumes "bi_Commit b \<noteq> []" and "bi_Date b \<noteq> []"
  shows "build_init info b = b"
proof (cases info)
  case (Some settings)
  have "build_setting s b = b" for s using assms by (simp add: build_setting_def)
  then have "fold build_setting settings b = b" by (induction settings) simp_all
  with Some show ?thesis by (simp add: build_init_def)
qed (simp add: build_init_def)


section \<open>Properties\<close>

text \<open>
  C35: the agent never tails itself.  When it knows its own namespace, no scan starts a tail for
  a pod of that namespace, nor of one listed in the setting, whatever blanks surround the names in
  the list; so the log lines of the agent and the manager do not come back as records.
\<close>

theorem agent_never_tails_itself:
  assumes "ownNS \<noteq> []" and "tl_exclude t = tl_exclude (agent_tailer logRoot nodeName excludeNS ownNS metaWait)"
    and "discover cp matches t = (fts, t')"
  shows "list_all (\<lambda>ft. pi_Namespace (ft_pod ft) \<noteq> ownNS \<and>
    pi_Namespace (ft_pod ft) \<notin> trim_space ` set (split_on (CHR '','') excludeNS) - {[]}) fts"
proof -
  have "tl_exclude t = insert ownNS (trim_space ` set (split_on (CHR '','') excludeNS) - {[]})"
    using assms(1) unfolding assms(2)
    by (auto simp: agent_tailer_def Tailer_New_def TailConfig_defaults_def agent_exclude_def splitCSV_def Let_def)
  with discover_excludes [OF assms(3)] show ?thesis by (simp add: list_all_iff)
qed

theorem agent_never_tails_itself_witness:
  "fst (discover (\<lambda>_. 0) (Inr [sample_probe]) (agent_tailer ''/var/log/pods'' ''n'' ''kube-system, x'' ''d'' 0)) = []"
proof -
  obtain fts t' where d: "discover (\<lambda>_. 0) (Inr [sample_probe]) (agent_tailer ''/var/log/pods'' ''n'' ''kube-system, x'' ''d'' 0) = (fts, t')"
    by (cases "discover (\<lambda>_. 0) (Inr [sample_probe]) (agent_tailer ''/var/log/pods'' ''n'' ''kube-system, x'' ''d'' 0)")
  have "list_all (\<lambda>ft. pi_Namespace (ft_pod ft) = ''d'') fts"
    using d by (auto simp: discover_def discover_path_def sample_probe_def parsePath_def Let_def eval_nat_numeral
        split: if_splits)
  moreover have "list_all (\<lambda>ft. pi_Namespace (ft_pod ft) \<noteq> ''d'') fts"
    using agent_never_tails_itself [OF _ refl d] by (simp add: list_all_iff)
  ultimately show ?thesis using d by (cases fts) simp_all
qed

end
