(* ===== verification/Watermarks.thy ===== *)
theory Watermarks
  imports AckSafety
begin

text \<open>
  What a restarted manager knows of the sources: the offsets in the metadata of sealed segments.
  The locale \<open>watermarked_store\<close> adds to the contract of the manager's machine that these offsets
  come from batches whose records are durable; it is discharged for the production store.
\<close>


section \<open>Offsets of sealed segments\<close>

definition sealed_tops :: "('s, 'd) env \<Rightarrow> (string \<rightharpoonup> string) \<Rightarrow> (string \<times> int) set" where
  "sealed_tops E Ob = {(k, v). \<exists>m. sealed_in E Ob m \<and> sm_SourceOffsets m k = Some v}"

abbreviation batch_tops :: "log_record list \<Rightarrow> (string \<times> int) set" where
  "batch_tops b \<equiv> {(k, v). max_offsets b k = Some v}"

context durable_store
begin

text \<open>The sidecar of a seal is the only way a segment becomes a sealed one.\<close>

lemma sidecar_new:
  assumes inv: "inv st" and k: "plain_id k" and fresh: "fresh_id E (Obj st) k" and good: "good (keyed E k meta)"
    and b: "bl_PutReader (env_B E) (sm_S3Key (keyed E k meta)) (Inr body) (st_blobs st) = (None, s1)"
    and sc: "enc_sidecar (env_M E) (keyed E k meta) = Inr sc"
    and p: "bl_Put (env_B E) (sm_S3Key (keyed E k meta) @ metaSuffix) sc s1 = (r2, s2)"
    and m: "sealed_in E (objs s2) m"
  shows "sealed_in E (Obj st) m \<or> (no_path m = no_path (keyed E k meta) \<and> objs s2 (sm_S3Key m) = Some body)"
proof -
  let ?m = "keyed E k meta" let ?k = "sm_S3Key ?m"
  note o = seal_objects(1-4) [OF inv k fresh good b]
  note kk = keyed_key [OF k, of E meta]
  obtain j where j: "?k = j @ ''.seg''" using kk(3) by blast
  have cok: "cok (st_cat st)" using inv by (simp add: store_inv_def)
  have fr: "\<And>m. sealed_in E (objs s1) m \<Longrightarrow> sm_ID m \<noteq> idFromSegKey ?k"
    using fresh kk(1) o(3) by (simp add: fresh_id_def)
  have good': "good (no_path ?m)" unfolding no_path_def by (rule good_path [OF cok good])
  have id: "sm_ID (no_path ?m) = idFromSegKey ?k" "sm_ID (no_path ?m) \<noteq> []"
    using kk(1,4) k by (simp_all add: plain_id_def)
  have bd: "objs s1 ?k = Some body" using o(4) by simp
  note side = objects_ok_sidecar [OF o(2) j kk(2) fr sidecar_codec [OF cok good sc] good' _ _ id]
  have s2: "objs s2 = objs s1 \<or> objs s2 = (objs s1)(?k @ metaSuffix \<mapsto> sc)"
    using bl.put_None [OF o(1), of "?k @ metaSuffix" sc s2] bl.put_Some [OF o(1), of "?k @ metaSuffix" sc _ s2] p
    by (cases r2; force)
  from s2 show ?thesis
  proof
    assume "objs s2 = objs s1"
    with m o(3) show ?thesis by simp
  next
    assume upd: "objs s2 = (objs s1)(?k @ metaSuffix \<mapsto> sc)"
    with m side(1) bd have "sealed_in E (objs s1) m \<or> no_path m = no_path ?m" by simp
    then show ?thesis
    proof
      assume np: "no_path m = no_path ?m"
      then have "sm_S3Key m = ?k" by (metis no_path_simps(4))
      with upd bd np show ?thesis by (simp add: metaSuffix_def)
    qed (use o(3) in simp)
  qed
qed

text \<open>What a seal may add to the sealed segments, whatever its outcome.\<close>

definition adds_only :: "(string \<rightharpoonup> string) \<Rightarrow> (string \<rightharpoonup> string) \<Rightarrow> segment_meta \<Rightarrow> string \<Rightarrow> bool" where
  "adds_only Ob Ob' m0 body \<longleftrightarrow> (\<forall>m. sealed_in E Ob' m \<longrightarrow>
     sealed_in E Ob m \<or> (no_path m = no_path m0 \<and> Ob' (sm_S3Key m) = Some body))"

lemma adds_only_body:
  assumes "inv st" and "plain_id k" and "fresh_id E (Obj st) k" and "good (keyed E k meta)"
    and "bl_PutReader (env_B E) (sm_S3Key (keyed E k meta)) (Inr body) (st_blobs st) = (r1, s1)"
  shows "adds_only (Obj st) (objs s1) (keyed E k meta) body"
  using seal_objects(3) [OF assms] by (simp add: adds_only_def)

lemma adds_only_Store_Seal:
  assumes inv: "inv st" and k: "plain_id k" and fresh: "fresh_id E (Obj st) k" and good: "good (keyed E k meta)"
    and fs: "st_fs st lp = Some body" and seal: "Store_Seal E lp k meta st = (r, st')"
  shows "adds_only (Obj st) (Obj st') (keyed E k meta) body"
proof (cases "file_read E lp (st_fs st)")
  case (Inl e)
  with seal show ?thesis by (auto simp: Store_Seal_def Let_def adds_only_def)
next
  case (Inr x)
  then have x: "x = body" using fs by (auto simp: file_read_def split: option.splits)
  let ?m = "keyed E k meta"
  obtain r1 s1 where b: "bl_PutReader (env_B E) (sm_S3Key ?m) (Inr body) (st_blobs st) = (r1, s1)"
    by (cases "bl_PutReader (env_B E) (sm_S3Key ?m) (Inr body) (st_blobs st)")
  show ?thesis
  proof (cases "r1 \<noteq> None \<or> (\<exists>e. enc_sidecar (env_M E) ?m = Inl e)")
    case True
    then have "st_blobs st' = s1"
      using seal Inr x b by (auto simp: Store_Seal_def Let_def keyed_def split: option.splits sum.splits)
    with adds_only_body [OF inv k fresh good b] show ?thesis by simp
  next
    case False
    then obtain sc where r1: "r1 = None" and sc: "enc_sidecar (env_M E) ?m = Inr sc"
      by (cases "enc_sidecar (env_M E) ?m") auto
    obtain r2 s2 where p: "bl_Put (env_B E) (sm_S3Key ?m @ metaSuffix) sc s1 = (r2, s2)"
      by (cases "bl_Put (env_B E) (sm_S3Key ?m @ metaSuffix) sc s1")
    have "st_blobs st' = s2"
      using seal Inr x b r1 sc p by (auto simp: Store_Seal_def Let_def keyed_def split: option.splits prod.splits)
    with sidecar_new [OF inv k fresh good b [unfolded r1] sc p] show ?thesis by (simp add: adds_only_def)
  qed
qed

lemma adds_only_torn:
  assumes inv: "inv st" and k: "plain_id (io_id io)" and fresh: "fresh_id E (Obj st) (io_id io)"
    and ws: "write_segment (env_C E) (io_writer io) (unix_nano (io_now io)) b = Inr (meta, body)"
    and good: "good (keyed E (io_id io) meta)" and torn: "torn_upload E io b (st_blobs st) s0"
  shows "adds_only (Obj st) (objs s0) (keyed E (io_id io) meta) body"
proof -
  let ?m = "keyed E (io_id io) meta"
  from torn ws obtain r1 s1 where p: "bl_PutReader (env_B E) (sm_S3Key ?m) (Inr body) (st_blobs st) = (r1, s1)"
    and s0: "s0 = s1 \<or> (r1 = None \<and> (\<exists>sc r2. enc_sidecar (env_M E) ?m = Inr sc \<and>
            bl_Put (env_B E) (sm_S3Key ?m @ metaSuffix) sc s1 = (r2, s0)))"
    unfolding torn_upload_def by auto
  from s0 show ?thesis
  proof
    assume "s0 = s1"
    with adds_only_body [OF inv k fresh good p] show ?thesis by simp
  next
    assume "r1 = None \<and> (\<exists>sc r2. enc_sidecar (env_M E) ?m = Inr sc \<and>
            bl_Put (env_B E) (sm_S3Key ?m @ metaSuffix) sc s1 = (r2, s0))"
    then obtain sc r2 where r1: "r1 = None" and q: "enc_sidecar (env_M E) ?m = Inr sc"
      "bl_Put (env_B E) (sm_S3Key ?m @ metaSuffix) sc s1 = (r2, s0)" by blast
    from sidecar_new [OF inv k fresh good p [unfolded r1] q] show ?thesis by (simp add: adds_only_def)
  qed
qed

text \<open>The offsets a batch adds belong to records that are durable.\<close>

lemma adds_only_tops:
  assumes add: "adds_only Ob Ob' (keyed E k meta) body"
    and rec: "set b = set (seg_records (env_C E) body)" and off: "sm_SourceOffsets meta = max_offsets b"
  shows "sealed_tops E Ob' \<subseteq> sealed_tops E Ob \<or>
    (set b \<subseteq> durable_records E Ob' \<and> sealed_tops E Ob' \<subseteq> sealed_tops E Ob \<union> batch_tops b)"
proof (cases "\<exists>m. sealed_in E Ob' m \<and> \<not> sealed_in E Ob m")
  case False
  then show ?thesis by (fastforce simp: sealed_tops_def)
next
  case True
  then obtain m where m: "sealed_in E Ob' m" "\<not> sealed_in E Ob m" by blast
  with add have "Ob' (sm_S3Key m) = Some body" by (auto simp: adds_only_def)
  from durable_sealed [OF m(1) this] rec have "set b \<subseteq> durable_records E Ob'" by simp
  moreover have "sm_SourceOffsets x = max_offsets b" if "sealed_in E Ob' x" "\<not> sealed_in E Ob x" for x
  proof -
    have "no_path x = no_path (keyed E k meta)" using add that by (auto simp: adds_only_def)
    then have "sm_SourceOffsets x = sm_SourceOffsets (keyed E k meta)" by (metis no_path_simps(5))
    then show ?thesis using off by (simp add: keyed_def)
  qed
  then have "sealed_tops E Ob' \<subseteq> sealed_tops E Ob \<union> batch_tops b" by (fastforce simp: sealed_tops_def)
  ultimately show ?thesis by blast
qed

end


section \<open>The contract\<close>

locale watermarked_store = batch_store M wok durable
  for M :: "('u, 'w) machine" and wok durable +
  fixes tops :: "'w \<Rightarrow> (string \<times> int) set"
  assumes upload_tops: "wok w \<Longrightarrow> batch_ok M b \<Longrightarrow> mc_allowed M u b w \<Longrightarrow> mc_upload M u b w = (res, w') \<Longrightarrow>
      tops w' \<subseteq> tops w \<or> (set b \<subseteq> durable w' \<and> tops w' \<subseteq> tops w \<union> batch_tops b)"
    and other_tops: "wok w \<Longrightarrow> mc_other M w w' \<Longrightarrow> tops w' \<subseteq> tops w"
    and restart_tops: "wok w \<Longrightarrow> \<forall>b \<in> set bs. batch_ok M b \<Longrightarrow> mc_restart M bs w (w', s) \<Longrightarrow>
      tops w' \<subseteq> tops w \<or> (\<exists>b \<in> set bs. set b \<subseteq> durable w' \<and> tops w' \<subseteq> tops w \<union> batch_tops b)"
    and restart_received: "wok w \<Longrightarrow> \<forall>b \<in> set bs. batch_ok M b \<Longrightarrow> mc_restart M bs w (w', s) \<Longrightarrow>
      sp_received s k = Some v \<Longrightarrow> (k, v) \<in> tops w'"


section \<open>The production store\<close>

abbreviation s3_tops :: "('c, 'd) env \<Rightarrow> ('c, 'u) s3_client \<Rightarrow> ('c \<Rightarrow> string \<rightharpoonup> string) \<Rightarrow> ('c, 'd) store \<Rightarrow> (string \<times> int) set" where
  "s3_tops E K bucket st \<equiv> sealed_tops (s3_env E K) (bucket (st_blobs st))"

lemma merged_offset: "fold merge_offsets ms w k = Some v \<Longrightarrow> w k = Some v \<or> (\<exists>m \<in> set ms. sm_SourceOffsets m k = Some v)"
proof (induction ms arbitrary: w)
  case (Cons m ms)
  then have "merge_offsets m w k = Some v \<or> (\<exists>m \<in> set ms. sm_SourceOffsets m k = Some v)" by simp
  then show ?case by (auto simp: merge_offsets_def split: option.splits if_splits)
qed simp

lemma s3_batch:
  assumes "s3_wok srt E K bucket key_of staged gr gn good st" and "b \<noteq> []" "ts_sorted False b" "\<forall>r \<in> set b. storable gr gn r"
    and "seal_allowed (s3_env E K) bucket good io b st"
    and ws: "write_segment (env_C E) (io_writer io) (unix_nano (io_now io)) b = Inr (meta, body)"
  shows "plain_id (io_id io)" and "fresh_id (s3_env E K) (bucket (st_blobs st)) (io_id io)"
    and "good (keyed (s3_env E K) (io_id io) meta)" and "set b = set (seg_records (env_C (s3_env E K)) body)"
    and "sm_SourceOffsets meta = max_offsets b"
proof -
  have C: "codec_ok (env_C E) gr gn" using assms(1) by (simp add: s3_wok_def manager_env_ok_def)
  have io: "io_contract (io_writer io)" "length body < 2 ^ 31" "good (keyed (s3_env E K) (io_id io) meta)"
    using assms(5) ws by (auto simp: seal_allowed_def)
  note w = write_segment_body [OF C io(1) ws io(2) assms(2,4,3)]
  show "plain_id (io_id io)" "fresh_id (s3_env E K) (bucket (st_blobs st)) (io_id io)"
    using assms(5) by (simp_all add: seal_allowed_def)
  show "good (keyed (s3_env E K) (io_id io) meta)" by fact
  show "set b = set (seg_records (env_C (s3_env E K)) body)" "sm_SourceOffsets meta = max_offsets b"
    using w(2,3) by (simp_all add: max_offsets_def)
qed

lemma seal_segment_tops:
  assumes wok: "s3_wok srt E K bucket key_of staged gr gn good st"
    and b: "b \<noteq> []" "ts_sorted False b" "\<forall>r \<in> set b. storable gr gn r"
    and allowed: "seal_allowed (s3_env E K) bucket good io b st"
    and seal: "seal_segment (s3_env E K) io tmpPath b st = (res, st')"
  shows "s3_tops E K bucket st' \<subseteq> s3_tops E K bucket st \<or>
    (set b \<subseteq> s3_durable E K bucket st' \<and> s3_tops E K bucket st' \<subseteq> s3_tops E K bucket st \<union> batch_tops b)"
proof (cases "io_create io = None \<and> io_close io = None \<and>
    (\<exists>x. write_segment (env_C E) (io_writer io) (unix_nano (io_now io)) b = Inr x)")
  case False
  then have "st' = st \<or> (\<exists>F. st' = st\<lparr>st_fs := F\<rparr>)"
    using seal by (cases "io_create io"; cases "io_close io"; auto simp: seal_segment_def split: sum.splits)
  then show ?thesis by auto
next
  case True
  then obtain meta body where ws: "write_segment (env_C E) (io_writer io) (unix_nano (io_now io)) b = Inr (meta, body)"
    by auto
  let ?E = "s3_env E K" and ?k = "io_id io" and ?st = "st\<lparr>st_fs := (st_fs st)(tmpPath \<mapsto> body)\<rparr>"
  obtain r st1 where s1: "Store_Seal ?E tmpPath ?k meta ?st = (r, st1)" by (cases "Store_Seal ?E tmpPath ?k meta ?st")
  note sb = s3_batch [OF wok b allowed ws]
  have inv: "s3_inv E K bucket key_of staged good ?st" using wok by (simp add: s3_wok_def)
  note add = s3_store.adds_only_Store_Seal [OF inv [unfolded s3_inv_def] sb(1) _ sb(3) _ s1, of body]
  have "st_blobs st' = st_blobs st1" using seal True ws s1 by (auto simp: seal_segment_def split: sum.splits)
  with s3_store.adds_only_tops [OF add sb(4,5)] sb(2) show ?thesis by simp
qed

lemma manager_restart_received:
  assumes wok: "s3_wok srt E K bucket key_of staged gr gn good st"
    and re: "manager_restart cfg (s3_env E K) (st_cat st) (st_blobs st) (st', sp)" and "sp_received sp k = Some v"
  shows "(k, v) \<in> s3_tops E K bucket st'"
proof -
  from re obtain st0 where n: "NewSpool cfg (s3_env E K) st' = Inr sp" by (auto simp: manager_restart_def)
  have inv: "s3_inv E K bucket key_of staged good st'"
    using manager_restart_ok [OF wok re] by (simp add: s3_wok_def)
  from s3_store.SourceWatermarks_entries [OF inv [unfolded s3_inv_def]] n
  have "sp_received sp = fold merge_offsets (catalog_metas E st') Map.empty"
    by (auto simp: NewSpool_def Let_def split: option.splits)
  with assms(3) merged_offset [of "catalog_metas E st'" Map.empty k v] obtain m where
    "m \<in> set (catalog_metas E st')" "sm_SourceOffsets m k = Some v" by auto
  with inv show ?thesis by (auto simp: s3_inv_def store_inv_def sealed_tops_def)
qed

interpretation s3_watermarks: watermarked_store
    "manager_machine srt cfg n (s3_env E K) bucket good (storable gr gn)"
    "s3_wok srt E K bucket key_of staged gr gn good" "s3_durable E K bucket" "s3_tops E K bucket"
  for srt cfg n and E :: "('c, 'd) env" and K :: "('c, 'u) s3_client" and bucket key_of staged gr gn good
proof
  let ?M = "manager_machine srt cfg n (s3_env E K) bucket good (storable gr gn)"
  let ?wok = "s3_wok srt E K bucket key_of staged gr gn good" and ?dur = "s3_durable E K bucket" and ?tops = "s3_tops E K bucket"
  fix st st' assume wok: "?wok st"
  then have inv: "s3_inv E K bucket key_of staged good st" by (simp add: s3_wok_def)
  show "batch_ok ?M b \<Longrightarrow> mc_allowed ?M u b st \<Longrightarrow> mc_upload ?M u b st = (res, st') \<Longrightarrow>
      ?tops st' \<subseteq> ?tops st \<or> (set b \<subseteq> ?dur st' \<and> ?tops st' \<subseteq> ?tops st \<union> batch_tops b)" for u b res
    using seal_segment_tops [OF wok, of b "fst u" "snd u" res st']
    by (cases u) (simp add: manager_machine_def batch_ok_def)
  show "mc_other ?M st st' \<Longrightarrow> ?tops st' \<subseteq> ?tops st"
  proof -
    assume "mc_other ?M st st'"
    then consider k r where "Store_Snapshot (s3_env E K) k st = (r, st')" | m r where "Store_Reader (s3_env E K) m st = (r, st')"
      | tmp r where "Recover (s3_env E K) tmp st = (r, st')"
      by (auto simp: manager_machine_def)
    then show ?thesis
    proof cases
      case 1
      from s3_store.Store_Snapshot_inv [OF inv [unfolded s3_inv_def] 1] show ?thesis by (auto simp: sealed_tops_def)
    next
      case 2
      from s3_store.Store_Reader_objects [OF inv [unfolded s3_inv_def] 2] show ?thesis by simp
    next
      case 3
      from s3_recover(2) [OF inv 3] show ?thesis by simp
    qed
  qed
  fix bs s assume bs: "\<forall>b \<in> set bs. batch_ok ?M b" and re0: "mc_restart ?M bs st (st', s)"
  then obtain s0 where re: "manager_restart cfg (s3_env E K) (st_cat st) s0 (st', s)"
    and s0: "s0 = st_blobs st \<or> (\<exists>io b. b \<in> set bs \<and>
      seal_allowed (s3_env E K) bucket good io b st \<and> torn_upload (s3_env E K) io b (st_blobs st) s0)"
    by (auto simp: manager_machine_def)
  have rec: "b \<noteq> []" "ts_sorted False b" "\<forall>r \<in> set b. storable gr gn r" if "b \<in> set bs" for b
    using bs that by (simp_all add: batch_ok_def manager_machine_def)
  have mid: "?wok (st\<lparr>st_blobs := s0\<rparr>)" using s0 wok torn_upload_ok [OF wok rec(3)] by fastforce
  have same: "bucket (st_blobs st') = bucket s0"
  proof -
    from re obtain f F tmp st0 where f: "catalog_file (env_D E) (st_cat st) f"
      and o: "Store_Open (s3_env E K) s0 f F = Inr st0" "Recover (s3_env E K) tmp st0 = (None, st')"
      by (auto simp: manager_restart_def)
    have "s3_inv E K bucket key_of staged good (st\<lparr>st_blobs := s0\<rparr>)" using mid by (simp add: s3_wok_def)
    from s3_inv_restarted [OF this, of f F st0] f o(1) have "s3_inv E K bucket key_of staged good st0 \<and> st_blobs st0 = s0" by simp
    then have i: "s3_inv E K bucket key_of staged good st0" and b: "st_blobs st0 = s0" by simp_all
    from s3_recover(2) [OF i o(2)] b show ?thesis by simp
  qed
  show "sp_received s k = Some v \<Longrightarrow> (k, v) \<in> ?tops st'" for k v
    using manager_restart_received [of srt E K bucket key_of staged gr gn good "st\<lparr>st_blobs := s0\<rparr>"] mid re by simp
  show "?tops st' \<subseteq> ?tops st \<or> (\<exists>b \<in> set bs. set b \<subseteq> ?dur st' \<and> ?tops st' \<subseteq> ?tops st \<union> batch_tops b)"
    using s0
  proof
    assume "s0 = st_blobs st"
    with same show ?thesis by simp
  next
    assume "\<exists>io b. b \<in> set bs \<and> seal_allowed (s3_env E K) bucket good io b st \<and> torn_upload (s3_env E K) io b (st_blobs st) s0"
    then obtain io b where b: "b \<in> set bs" and al: "seal_allowed (s3_env E K) bucket good io b st"
      and torn: "torn_upload (s3_env E K) io b (st_blobs st) s0" by blast
    from torn obtain meta body where ws: "write_segment (env_C E) (io_writer io) (unix_nano (io_now io)) b = Inr (meta, body)"
      by (auto simp: torn_upload_def)
    note sb = s3_batch [OF wok rec [OF b] al ws]
    have ws': "write_segment (env_C (s3_env E K)) (io_writer io) (unix_nano (io_now io)) b = Inr (meta, body)" using ws by simp
    note add = s3_store.adds_only_torn [OF inv [unfolded s3_inv_def] sb(1,2) ws' sb(3) torn]
    from s3_store.adds_only_tops [OF add sb(4,5)] b same show ?thesis by auto
  qed
qed

end
