(* ===== verification/Delivery.thy ===== *)
theory Delivery
  imports Watermarks Ingest Checkpoint
begin

text \<open>
  The way of a line from a log file to the bucket: an agent that reads its files, keeps the window
  of \<open>internal/ingest/client.go\<close>, connects, sends and commits acknowledged offsets to its
  checkpoint, and the manager with its store at the other end.  Either side may be killed, and
  connections may break, at any time.
\<close>


section \<open>Lines\<close>

text \<open>A line of a file: the key of its source, the offset of its end, and its text.\<close>

type_synonym line = "string \<times> int \<times> string"

abbreviation line_key :: "line \<Rightarrow> string" where "line_key \<equiv> fst"
abbreviation line_end :: "line \<Rightarrow> int" where "line_end y \<equiv> fst (snd y)"

definition log_line :: "log_record \<Rightarrow> line" where
  "log_line r = (rec_key r, rec_Offset r, rec_Message r)"

lemma log_line_sel [simp]: "line_key (log_line r) = rec_key r" "line_end (log_line r) = rec_Offset r"
  by (simp_all add: log_line_def)

text \<open>No two lines of a source end at the same offset, and offsets are positive file positions.\<close>

definition lines_ok :: "line set \<Rightarrow> bool" where
  "lines_ok L \<longleftrightarrow> (\<forall>y \<in> L. \<forall>z \<in> L. line_key y = line_key z \<and> line_end y = line_end z \<longrightarrow> y = z) \<and>
     (\<forall>y \<in> L. 0 < line_end y \<and> line_end y < 2 ^ 63)"

definition within :: "line set \<Rightarrow> string \<Rightarrow> int \<Rightarrow> line set" where
  "within L k v = {y \<in> L. line_key y = k \<and> line_end y \<le> v}"

definition ends_line :: "line set \<Rightarrow> string \<Rightarrow> int \<Rightarrow> bool" where
  "ends_line L k v \<longleftrightarrow> (\<exists>y \<in> L. line_key y = k \<and> line_end y = v)"

definition line_at :: "line set \<Rightarrow> string \<Rightarrow> int \<Rightarrow> bool" where
  "line_at L k v \<longleftrightarrow> (k \<in> line_key ` L \<longrightarrow> ends_line L k v)"

lemma within_mono: "v \<le> u \<Longrightarrow> within L k v \<subseteq> within L k u"
  by (auto simp: within_def)

lemma within_foreign: "k \<notin> line_key ` L \<Longrightarrow> within L k v = {}"
  unfolding within_def by blast

lemma line_at_line: "log_line r \<in> L \<Longrightarrow> line_at L (rec_key r) (rec_Offset r)"
  unfolding line_at_def ends_line_def by force

text \<open>
  A list of lines without gaps: all lines of a source before one of them are in a given set or
  earlier in the list.
\<close>

fun gap_free :: "line set \<Rightarrow> line set \<Rightarrow> line list \<Rightarrow> bool" where
  "gap_free L C [] \<longleftrightarrow> True"
| "gap_free L C (x # xs) \<longleftrightarrow>
     x \<in> L \<and> (\<forall>y \<in> L. line_key y = line_key x \<and> line_end y < line_end x \<longrightarrow> y \<in> C) \<and> gap_free L (insert x C) xs"

lemma gap_free_mono: "gap_free L C xs \<Longrightarrow> C \<subseteq> C' \<Longrightarrow> gap_free L C' xs"
proof (induction xs arbitrary: C C')
  case (Cons x xs)
  from Cons.IH [of "insert x C" "insert x C'"] Cons.prems show ?case by auto
qed simp

lemma gap_free_append: "gap_free L C (xs @ ys) \<longleftrightarrow> gap_free L C xs \<and> gap_free L (C \<union> set xs) ys"
  by (induction xs arbitrary: C) simp_all

lemma gap_free_lines: "gap_free L C xs \<Longrightarrow> set xs \<subseteq> L"
  by (induction xs arbitrary: C) auto

lemma gap_free_take: "gap_free L C xs \<Longrightarrow> gap_free L C (take n xs)"
  using gap_free_append [of L C "take n xs" "drop n xs"] by simp

text \<open>Lines that are in the set already may be left out.\<close>

lemma gap_free_filter:
  "gap_free L C (map f xs) \<Longrightarrow> (\<And>x. x \<in> set xs \<Longrightarrow> \<not> P x \<Longrightarrow> f x \<in> C) \<Longrightarrow> gap_free L C (map f (filter P xs))"
proof (induction xs arbitrary: C)
  case (Cons x xs)
  show ?case
  proof (cases "P x")
    case True
    with Cons.prems Cons.IH [of "insert (f x) C"] show ?thesis by auto
  next
    case False
    with Cons.prems(2) [of x] have "insert (f x) C = C" by auto
    with False Cons.prems Cons.IH [of C] show ?thesis by auto
  qed
qed simp


text \<open>What a round of \<open>flush\<close> marks is in its batch.\<close>

lemma collect_batch_marks:
  "collect_batch lim n es = (b, es') \<Longrightarrow> e \<in> set es' \<Longrightarrow> en_sent e \<Longrightarrow> en_raw e \<in> set b \<or> e \<in> set es"
proof (induction lim n es arbitrary: b es' rule: collect_batch.induct)
  case (2 lim n x es)
  show ?case
  proof (cases "en_sent x")
    case True
    with 2 show ?thesis by (auto split: prod.splits)
  next
    case False
    note ns = False
    let ?n = "n + int (length (en_raw x))"
    show ?thesis
    proof (cases "?n \<ge> lim")
      case True
      with ns "2.prems" show ?thesis by (auto simp: Let_def)
    next
      case False
      obtain b1 es1 where c: "collect_batch lim ?n es = (b1, es1)" by (cases "collect_batch lim ?n es")
      with ns False "2.prems" "2.IH"(2) [OF ns refl False c] show ?thesis by (auto simp: Let_def)
    qed
  qed
qed simp


section \<open>The system\<close>

text \<open>
  What the agent is made of: the database of its checkpoint, the JSON codec of the wire, the
  configuration of its client and the records its tails hand over, which are those of the lines of
  its files with the metadata of their pods at the time.
\<close>

record 'd agent_env =
  ae_bolt :: "'d bolt"
  ae_marshal :: "log_record \<Rightarrow> go_error + string"
  ae_unmarshal :: "string \<Rightarrow> go_error + log_record"
  ae_cfg :: ClientConfig
  ae_records :: "log_record set"

text \<open>The lines of its files.\<close>

definition ae_lines :: "'d agent_env \<Rightarrow> line set" where
  "ae_lines A = log_line ` ae_records A"

lemma ae_lines_record: "r \<in> ae_records A \<Longrightarrow> log_line r \<in> ae_lines A"
  by (simp add: ae_lines_def)

text \<open>
  A connection as the server sees it: the keys of \<open>Stream\<close>'s map \<open>seen\<close> and the records that were
  sent and not yet received.
\<close>

record conn =
  cn_seen :: "string list"
  cn_queue :: "string list"

text \<open>
  The system.  The last connection is the client's current one while \<open>sy_live\<close>; the others are of
  earlier sessions, whose handlers still run.  \<open>sy_acks\<close> are all acknowledgements sent so far: any
  of them may arrive, late, again or never.  \<open>sy_read\<close> is how far the tail of a source has read.
\<close>

record ('w, 'd) system =
  sy_client :: client
  sy_conns :: "conn list"
  sy_live :: bool
  sy_acks :: "ack list"
  sy_mgr :: "'w mgr"
  sy_ckpt :: 'd
  sy_read :: "string \<Rightarrow> int"

text \<open>The server's handling of one record, on the manager's machine.\<close>

definition mgr_recv ::
  "runtime \<Rightarrow> (string \<Rightarrow> go_error + log_record) \<Rightarrow> nat list \<times> time \<times> string \<Rightarrow> string list \<Rightarrow> 'w mgr \<Rightarrow>
    (string list \<times> 'w mgr) option" where
  "mgr_recv rt unmarshal e seen w =
     map_option (\<lambda>(seen', s, h). (seen', w\<lparr>mg_spool := s, mg_hub := h,
       mg_accepted := (case unmarshal (snd (snd e)) of
          Inl err \<Rightarrow> mg_accepted w
        | Inr r \<Rightarrow> if duplicate r (mg_spool w) then mg_accepted w else insert r (mg_accepted w))\<rparr>))
     (recv_record rt unmarshal e (seen, mg_spool w, mg_hub w))"

text \<open>
  The steps.  A tail hands over the next line of its file; \<open>flush\<close> is a sequence of rounds, each
  of which marks what it collects and sends it or fails; a connection may lose the end of what is
  under way.  The commits of an acknowledgement may be cut off by a crash of the agent.
\<close>

inductive sys_step :: "('u, 'w) machine \<Rightarrow> 'd agent_env \<Rightarrow> ('w, 'd) system \<Rightarrow> ('w, 'd) system \<Rightarrow> bool" for M A where
  enqueue: "r \<in> ae_records A \<Longrightarrow> sy_read s (rec_key r) < rec_Offset r \<Longrightarrow>
    \<forall>y \<in> ae_lines A. line_key y = rec_key r \<and> line_end y < rec_Offset r \<longrightarrow> line_end y \<le> sy_read s (rec_key r) \<Longrightarrow>
    Enqueue (ae_marshal A) r (sy_client s) = Enqueued c \<Longrightarrow>
    sys_step M A s (s\<lparr>sy_client := c, sy_read := (sy_read s)(rec_key r := rec_Offset r)\<rparr>)"
| reconnect: "sys_step M A s (s\<lparr>sy_client := reset_window (sy_client s),
    sy_conns := sy_conns s @ [\<lparr>cn_seen = [], cn_queue = []\<rparr>], sy_live := True\<rparr>)"
| send: "sy_live s \<Longrightarrow> sy_conns s = cs @ [x] \<Longrightarrow>
    collect_batch (cc_BatchBytes (cl_cfg (sy_client s))) 0 (cl_unacked (sy_client s)) = (b, es) \<Longrightarrow>
    sys_step M A s (s\<lparr>sy_client := (sy_client s)\<lparr>cl_unacked := es\<rparr>,
      sy_conns := cs @ [x\<lparr>cn_queue := cn_queue x @ b\<rparr>]\<rparr>)"
| send_fails: "collect_batch (cc_BatchBytes (cl_cfg (sy_client s))) 0 (cl_unacked (sy_client s)) = (b, es) \<Longrightarrow>
    sys_step M A s (s\<lparr>sy_client := (sy_client s)\<lparr>cl_unacked := es\<rparr>, sy_live := False\<rparr>)"
| lose: "sy_conns s = cs @ x # cs' \<Longrightarrow>
    sys_step M A s (s\<lparr>sy_conns := cs @ x\<lparr>cn_queue := take n (cn_queue x)\<rparr> # cs', sy_live := sy_live s \<and> cs' \<noteq> []\<rparr>)"
| recv: "sy_conns s = cs @ x # cs' \<Longrightarrow> cn_queue x = raw # q \<Longrightarrow>
    mgr_recv rt (ae_unmarshal A) (ids, now, raw) (cn_seen x) (sy_mgr s) = Some (seen, w) \<Longrightarrow>
    sys_step M A s (s\<lparr>sy_conns := cs @ \<lparr>cn_seen = seen, cn_queue = q\<rparr> # cs', sy_mgr := w\<rparr>)"
| ack: "x \<in> set (sy_conns s) \<Longrightarrow> set seen = set (cn_seen x) \<Longrightarrow>
    Stream_ack seen (mg_spool (sy_mgr s)) = Some a \<Longrightarrow> sys_step M A s (s\<lparr>sy_acks := a # sy_acks s\<rparr>)"
| deliver: "a \<in> set (sy_acks s) \<Longrightarrow>
    sys_step M A s (s\<lparr>sy_client := applyAck a (sy_client s), sy_ckpt := advance_all (ae_bolt A) a (sy_ckpt s)\<rparr>)"
| crash: "a \<in> set ([] # sy_acks s) \<Longrightarrow> d = advance_all (ae_bolt A) (take n a) (sy_ckpt s) \<Longrightarrow>
    sys_step M A s (s\<lparr>sy_client := NewClient (ae_cfg A), sy_live := False, sy_ckpt := d,
      sy_read := (\<lambda>k. Checkpoint_Get (ae_bolt A) k d)\<rparr>)"
| tail: "sys_step M A s (s\<lparr>sy_read := (sy_read s)(k := Checkpoint_Get (ae_bolt A) k (sy_ckpt s))\<rparr>)"
| manager: "mgr_step M (sy_mgr s) w \<Longrightarrow>
    \<forall>k \<in> line_key ` ae_lines A. sp_received (mg_spool w) k = sp_received (mg_spool (sy_mgr s)) k \<Longrightarrow>
    sys_step M A s (s\<lparr>sy_mgr := w\<rparr>)"
| restart: "mc_restart M (uploading (sy_mgr s)) (mg_world (sy_mgr s)) (w1, sp) \<Longrightarrow>
    sys_step M A s (s\<lparr>sy_conns := [], sy_live := False, sy_mgr := \<lparr>mg_spool = sp, mg_hub = Some (NewHub 4096),
      mg_world = w1, mg_flight = [], mg_accepted = {}\<rparr>\<rparr>)"

text \<open>The system starts with an empty checkpoint and a manager that has just opened its store.\<close>

inductive sys_reachable :: "('u, 'w) machine \<Rightarrow> 'd agent_env \<Rightarrow> 'w \<Rightarrow> 'd \<Rightarrow> ('w, 'd) system \<Rightarrow> bool" for M A w0 d0 where
  start: "mc_restart M [] w0 (w1, sp) \<Longrightarrow>
    sys_reachable M A w0 d0 \<lparr>sy_client = NewClient (ae_cfg A), sy_conns = [], sy_live = False, sy_acks = [],
      sy_mgr = \<lparr>mg_spool = sp, mg_hub = Some (NewHub 4096), mg_world = w1, mg_flight = [], mg_accepted = {}\<rparr>,
      sy_ckpt = d0, sy_read = (\<lambda>k. Checkpoint_Get (ae_bolt A) k d0)\<rparr>"
| step: "sys_reachable M A w0 d0 s \<Longrightarrow> sys_step M A s s' \<Longrightarrow> sys_reachable M A w0 d0 s'"

text \<open>
  What is asked of the agent's surroundings: a working database, lines as above, and of the records
  that the tails hand over, and of no others, that the codec takes them, that their texts fit
  between the caps of the client, and that the server reads the line back from them (JSON
  replaces bytes that are not UTF-8).  A record that the codec refuses would be skipped by its tail,
  and the checkpoint would pass it.
\<close>

definition agent_ok :: "(log_record \<Rightarrow> bool) \<Rightarrow> 'd agent_env \<Rightarrow> bool" where
  "agent_ok ok A \<longleftrightarrow> bolt_ok (ae_bolt A) \<and> lines_ok (ae_lines A) \<and>
     (\<forall>r \<in> ae_records A. (\<exists>raw r'. ae_marshal A r = Inr raw \<and>
       int (length raw) \<le> cc_HardMaxBytes (ClientConfig_defaults (ae_cfg A)) - cc_MaxHeldBytes (ClientConfig_defaults (ae_cfg A)) \<and>
       ae_unmarshal A raw = Inr r' \<and> log_line r' = log_line r \<and> ok r'))"


section \<open>The lines a manager holds\<close>

context watermarked_store
begin

text \<open>
  Of the lines of the agent's files: those up to the received offset of their source are durable or
  accepted since the manager started, those up to an offset in the metadata of a sealed segment are
  durable, and every offset the manager keeps of these sources is the end of a line.
\<close>

definition lines_kept :: "line set \<Rightarrow> 'w mgr \<Rightarrow> bool" where
  "lines_kept L w \<longleftrightarrow>
     (\<forall>k v. sp_received (mg_spool w) k = Some v \<longrightarrow> within L k v \<subseteq> log_line ` (durable (mg_world w) \<union> mg_accepted w)) \<and>
     (\<forall>k v. (k, v) \<in> tops (mg_world w) \<longrightarrow> within L k v \<subseteq> log_line ` durable (mg_world w))"

definition ends_known :: "line set \<Rightarrow> 'w mgr \<Rightarrow> bool" where
  "ends_known L w \<longleftrightarrow>
     (\<forall>k v. sp_received (mg_spool w) k = Some v \<longrightarrow> line_at L k v) \<and>
     (\<forall>k v. sp_committed (mg_spool w) k = Some v \<longrightarrow> line_at L k v) \<and>
     (\<forall>k v. (k, v) \<in> tops (mg_world w) \<longrightarrow> line_at L k v) \<and>
     (\<forall>r \<in> set (sp_buf (mg_spool w)) \<union> in_flight w. line_at L (rec_key r) (rec_Offset r))"

definition mgr_lines :: "line set \<Rightarrow> 'w mgr \<Rightarrow> bool" where
  "mgr_lines L w \<longleftrightarrow> mgr_inv w \<and> mgr_wf w \<and> lines_kept L w \<and> ends_known L w"

text \<open>Lines up to a committed offset are durable.\<close>

lemma committed_durable:
  assumes "mgr_lines L w" and c: "sp_committed (mg_spool w) k = Some v"
  shows "within L k v \<subseteq> log_line ` durable (mg_world w)"
proof
  fix y assume y: "y \<in> within L k v"
  from assms have inv: "mgr_inv w" and kept: "lines_kept L w" by (simp_all add: mgr_lines_def)
  from inv c obtain u where u: "sp_received (mg_spool w) k = Some u" "v \<le> u" unfolding mgr_inv_def by blast
  have "y \<in> within L k u" using y within_mono [OF u(2)] by blast
  with kept u(1) obtain r where r: "y = log_line r" "r \<in> durable (mg_world w) \<union> mg_accepted w"
    unfolding lines_kept_def by blast
  have "acked (mg_spool w) r" using c y r(1) by (simp add: acked_def Committed_def within_def)
  with r mgr_inv_acked [OF inv] show "y \<in> log_line ` durable (mg_world w)" by blast
qed

text \<open>So are those up to an offset of a batch in flight, once its records are.\<close>

lemma batch_tops_durable:
  assumes "mgr_lines L w" and fl: "mg_flight w = [(b, None)]"
    and D: "set b \<subseteq> D" "durable (mg_world w) \<subseteq> D" and top: "max_offsets b k = Some v"
  shows "within L k v \<subseteq> log_line ` D" and "line_at L k v"
proof -
  from assms(1) have inv: "mgr_inv w" and kept: "lines_kept L w" and ends: "ends_known L w"
    by (simp_all add: mgr_lines_def)
  from max_offsets_mem [OF top] obtain q where q: "q \<in> set b" "rec_key q = k" "rec_Offset q = v" by blast
  have infl: "in_flight w = set b" using fl by (simp add: in_flight_def)
  from ends q infl show "line_at L k v" unfolding ends_known_def by blast
  from inv q infl obtain u where u: "sp_received (mg_spool w) k = Some u" "v \<le> u"
    unfolding mgr_inv_def seen_below_def by blast
  show "within L k v \<subseteq> log_line ` D"
  proof
    fix y assume y: "y \<in> within L k v"
    with within_mono [OF u(2)] kept u(1) obtain r where r: "y = log_line r" "r \<in> durable (mg_world w) \<union> mg_accepted w"
      unfolding lines_kept_def by blast
    have "\<not> (\<forall>q \<in> in_flight w. rec_key q = rec_key r \<longrightarrow> rec_Offset q < rec_Offset r)"
      using y r(1) q infl by (auto simp: within_def)
    with inv have "r \<notin> set (sp_buf (mg_spool w))" unfolding mgr_inv_def by blast
    with inv r(2) fl have "r \<in> durable (mg_world w) \<or> r \<in> set b" by (auto simp: mgr_inv_def pending_def)
    with D r(1) show "y \<in> log_line ` D" by blast
  qed
qed

lemma mgr_step_inv:
  "mgr_step M w w' \<Longrightarrow> mgr_lines L w \<Longrightarrow> mc_seals M = 1 \<Longrightarrow>
    mgr_inv w' \<and> mgr_wf w' \<and> durable (mg_world w) \<subseteq> durable (mg_world w')"
  using mgr_inv_step mgr_wf_step unfolding mgr_lines_def by blast

text \<open>What a step does to the offsets in the metadata of sealed segments.\<close>

lemma tops_step:
  assumes lines: "mgr_lines L w" and D: "durable (mg_world w) \<subseteq> D"
    and step: "T \<subseteq> tops (mg_world w) \<or> (\<exists>b. mg_flight w = [(b, None)] \<and> set b \<subseteq> D \<and> T \<subseteq> tops (mg_world w) \<union> batch_tops b)"
    and kv: "(k, v) \<in> T"
  shows "within L k v \<subseteq> log_line ` D \<and> line_at L k v"
proof (cases "(k, v) \<in> tops (mg_world w)")
  case True
  with lines have "within L k v \<subseteq> log_line ` durable (mg_world w) \<and> line_at L k v"
    by (simp add: mgr_lines_def lines_kept_def ends_known_def)
  with D show ?thesis by blast
next
  case False
  with step kv obtain b where "mg_flight w = [(b, None)]" "set b \<subseteq> D" "max_offsets b k = Some v" by blast
  with batch_tops_durable [OF lines _ _ D] show ?thesis by blast
qed

lemma flight_single:
  assumes "mgr_lines L w" and "i < length (mg_flight w)" and "mg_flight w ! i = x"
  shows "mg_flight w = [x]"
  using assms flight_cases(1) [of "mg_flight w" i x] by (auto simp: mgr_lines_def mgr_inv_def)

lemma tops_restart:
  assumes lines: "mgr_lines L w" and re: "mc_restart M (uploading w) (mg_world w) (w1, s)" and kv: "(k, v) \<in> tops w1"
  shows "within L k v \<subseteq> log_line ` durable w1 \<and> line_at L k v"
proof -
  from lines have wok: "wok (mg_world w)" and len: "length (mg_flight w) \<le> 1"
    and bs: "\<forall>b \<in> set (uploading w). batch_ok M b"
    by (auto simp: mgr_lines_def mgr_inv_def mgr_wf_def uploading_def)
  have fl: "mg_flight w = [(b, None)]" if "b \<in> set (uploading w)" for b
    using that len by (cases "mg_flight w") (auto simp: uploading_def split: if_splits)
  from restart_ok [OF wok bs re] have D: "durable (mg_world w) \<subseteq> durable w1" by blast
  show ?thesis by (rule tops_step [OF lines D _ kv]) (use restart_tops [OF wok bs re] fl in blast)
qed

lemma mgr_lines_restart:
  assumes lines: "mgr_lines L w" and re: "mc_restart M (uploading w) (mg_world w) (w1, s)" and one: "mc_seals M = 1"
  shows "mgr_lines L \<lparr>mg_spool = s, mg_hub = Some (NewHub 4096), mg_world = w1, mg_flight = [], mg_accepted = {}\<rparr>"
proof -
  from lines have wok: "wok (mg_world w)" and bs: "\<forall>b \<in> set (uploading w). batch_ok M b"
    by (auto simp: mgr_lines_def mgr_inv_def mgr_wf_def uploading_def)
  from restart_ok [OF wok bs re] have s: "sp_buf s = []" "sp_committed s = sp_received s" by auto
  note rec = restart_received [OF wok bs re]
  from mgr_step_inv [OF mgr_step.restart [OF re] lines one] s tops_restart [OF lines re] rec show ?thesis
    by (auto simp: mgr_lines_def lines_kept_def ends_known_def in_flight_def)
qed

text \<open>
  A step that leaves the received offsets of the agent's sources alone keeps all this: seals, the
  records of other agents, snapshots and queries.
\<close>

lemma lines_kept_grow:
  assumes "lines_kept L w" and rec: "\<And>k. k \<in> line_key ` L \<Longrightarrow> sp_received (mg_spool w') k = sp_received (mg_spool w) k"
    and "durable (mg_world w) \<subseteq> durable (mg_world w')" and "mg_accepted w \<subseteq> mg_accepted w'"
    and tops: "\<And>k v. (k, v) \<in> tops (mg_world w') \<Longrightarrow> within L k v \<subseteq> log_line ` durable (mg_world w')"
  shows "lines_kept L w'"
proof -
  have "within L k v \<subseteq> log_line ` (durable (mg_world w') \<union> mg_accepted w')"
    if "sp_received (mg_spool w') k = Some v" for k v
  proof (cases "k \<in> line_key ` L")
    case True
    with that rec have "sp_received (mg_spool w) k = Some v" by simp
    with assms(1,3,4) show ?thesis unfolding lines_kept_def by blast
  qed (simp add: within_foreign)
  with tops show ?thesis by (simp add: lines_kept_def)
qed

lemma mgr_lines_background:
  assumes step: "mgr_step M w w'" and lines: "mgr_lines L w" and one: "mc_seals M = 1"
    and same: "\<And>k. k \<in> line_key ` L \<Longrightarrow> sp_received (mg_spool w') k = sp_received (mg_spool w) k"
  shows "mgr_lines L w'"
proof -
  from lines have wok: "wok (mg_world w)" and wf: "mgr_wf w" and kept: "lines_kept L w" and ends: "ends_known L w"
    by (simp_all add: mgr_lines_def mgr_inv_def)
  note inv' = mgr_step_inv [OF step lines one]
  have old: "within L k v \<subseteq> log_line ` durable (mg_world w) \<and> line_at L k v" if "(k, v) \<in> tops (mg_world w)" for k v
    using that kept ends by (simp add: lines_kept_def ends_known_def)
  have D: "durable (mg_world w) \<subseteq> durable (mg_world w')" using inv' by blast
  from step show ?thesis
  proof cases
    case (accept rt ids now r s h)
    show ?thesis
    proof (cases "duplicate r (mg_spool w)")
      case True
      with accept have "s = mg_spool w" by (simp add: Accept_def)
      with accept True inv' kept ends show ?thesis by (simp add: mgr_lines_def lines_kept_def ends_known_def in_flight_def)
    next
      case False
      with accept have s: "s = accept_new now r (mg_spool w)" by (auto simp: Accept_def split: option.splits)
      have "rec_key r \<notin> line_key ` L"
      proof
        assume "rec_key r \<in> line_key ` L"
        from same [OF this] accept(1) s have "sp_received (mg_spool w) (rec_key r) = Some (rec_Offset r)"
          by (simp add: accept_new_def)
        with False show False by (simp add: duplicate_def)
      qed
      then have at: "line_at L (rec_key r) v" for v by (simp add: line_at_def)
      have "lines_kept L w'" by (rule lines_kept_grow [OF kept same D]) (use accept(1) old in auto)
      moreover have "ends_known L w'"
        using ends at accept(1) unfolding ends_known_def in_flight_def s by (auto simp: accept_new_def)
      ultimately show ?thesis using inv' by (simp add: mgr_lines_def)
    qed
  next
    case (take taken s)
    then have s: "taken = sp_buf (mg_spool w)" "sp_buf s = []" "sp_received s = sp_received (mg_spool w)"
      "sp_committed s = sp_committed (mg_spool w)" by (auto simp: seal_take_def)
    have "in_flight w' = set (sp_buf (mg_spool w)) \<union> in_flight w"
      using take(1) s(1) sort_set [OF wok] by (auto simp: in_flight_def)
    with ends take(1) s have "ends_known L w'" by (auto simp: ends_known_def)
    moreover have "lines_kept L w'" by (rule lines_kept_grow [OF kept same D]) (use take(1) old in auto)
    ultimately show ?thesis using inv' by (simp add: mgr_lines_def)
  next
    case (upload i b u res w1)
    note fl = flight_single [OF lines upload(2,3)]
    have b: "batch_ok M b" using wf fl by (simp add: mgr_wf_def)
    have tops: "within L k v \<subseteq> log_line ` durable (mg_world w') \<and> line_at L k v" if "(k, v) \<in> tops (mg_world w')" for k v
      by (rule tops_step [OF lines D _ that]) (use upload_tops [OF wok b upload(4,5)] upload(1) fl in auto)
    have "in_flight w' = in_flight w" using upload(1,2) fl by (simp add: in_flight_def)
    with ends tops upload(1) have "ends_known L w'" by (auto simp: ends_known_def)
    moreover have "lines_kept L w'" by (rule lines_kept_grow [OF kept same D]) (use upload(1) tops in auto)
    ultimately show ?thesis using inv' by (simp add: mgr_lines_def)
  next
    case (commit i b)
    note fl = flight_single [OF lines commit(2,3)]
    have infl: "in_flight w = set b" "in_flight w' = {}" using commit(1,2) fl by (simp_all add: in_flight_def drop_nth_def)
    have "line_at L k v" if "sp_committed (mg_spool w') k = Some v" for k v
      using that seal_commit_mem [of b "mg_spool w" k v] ends commit(1) unfolding ends_known_def infl by auto
    with ends infl commit(1) have "ends_known L w'" by (auto simp: ends_known_def)
    moreover have "lines_kept L w'" by (rule lines_kept_grow [OF kept same D]) (use commit(1) old in auto)
    ultimately show ?thesis using inv' by (simp add: mgr_lines_def)
  next
    case (requeue i b now)
    note fl = flight_single [OF lines requeue(2,3)]
    have infl: "in_flight w = set b" "in_flight w' = {}" using requeue(1,2) fl by (simp_all add: in_flight_def drop_nth_def)
    from ends infl requeue(1) have "ends_known L w'" by (auto simp: ends_known_def)
    moreover have "lines_kept L w'" by (rule lines_kept_grow [OF kept same D]) (use requeue(1) old in auto)
    ultimately show ?thesis using inv' by (simp add: mgr_lines_def)
  next
    case (other w1)
    have tops: "tops w1 \<subseteq> tops (mg_world w)" by (rule other_tops [OF wok other(2)])
    with ends other(1) have "ends_known L w'" by (auto simp: ends_known_def in_flight_def)
    moreover have "lines_kept L w'"
      by (rule lines_kept_grow [OF kept same D]) (use other(1) old tops D in fastforce)+
    ultimately show ?thesis using inv' by (simp add: mgr_lines_def)
  next
    case (restart w1 s)
    with mgr_lines_restart [OF lines restart(2) one] show ?thesis by simp
  qed
qed

text \<open>
  A record of the agent that arrives: all lines of its source before it are durable or accepted.
\<close>

lemma mgr_lines_accept:
  assumes lines: "mgr_lines L w" and one: "mc_seals M = 1" and L: "lines_ok L" and r: "log_line r \<in> L"
    and gap: "\<And>y. y \<in> L \<Longrightarrow> line_key y = rec_key r \<Longrightarrow> line_end y < rec_Offset r \<Longrightarrow>
      y \<in> log_line ` (durable (mg_world w) \<union> mg_accepted w)"
    and step: "mgr_step M w w'" and new: "\<not> duplicate r (mg_spool w)"
    and w': "w' = w\<lparr>mg_spool := accept_new now r (mg_spool w), mg_hub := h, mg_accepted := insert r (mg_accepted w)\<rparr>"
  shows "mgr_lines L w'"
proof -
  from lines have kept: "lines_kept L w" and ends: "ends_known L w" by (simp_all add: mgr_lines_def)
  have "within L (rec_key r) (rec_Offset r) \<subseteq> log_line ` (durable (mg_world w) \<union> insert r (mg_accepted w))"
  proof
    fix y assume y: "y \<in> within L (rec_key r) (rec_Offset r)"
    show "y \<in> log_line ` (durable (mg_world w) \<union> insert r (mg_accepted w))"
    proof (cases "line_end y = rec_Offset r")
      case True
      with y L r have "y = log_line r" by (auto simp: within_def lines_ok_def)
      then show ?thesis by blast
    next
      case False
      with y have "line_end y < rec_Offset r" by (auto simp: within_def)
      with gap [of y] y show ?thesis by (auto simp: within_def)
    qed
  qed
  with kept have "lines_kept L w'"
    unfolding lines_kept_def w' by (auto simp: accept_new_def)
  moreover have "ends_known L w'"
    using ends line_at_line [OF r] unfolding ends_known_def in_flight_def w' by (auto simp: accept_new_def)
  ultimately show ?thesis using mgr_step_inv [OF step lines one] by (simp add: mgr_lines_def)
qed


subsection \<open>The invariant of the system\<close>

definition lines_covered :: "line set \<Rightarrow> 'w mgr \<Rightarrow> line set" where
  "lines_covered L w = log_line ` durable (mg_world w) \<union>
     {y \<in> L. \<exists>v. sp_received (mg_spool w) (line_key y) = Some v \<and> line_end y \<le> v}"

text \<open>The line on the wire, and that the server can read it.\<close>

definition wire :: "'d agent_env \<Rightarrow> string \<Rightarrow> line" where
  "wire A raw = log_line (projr (ae_unmarshal A raw))"

definition raw_ok :: "'d agent_env \<Rightarrow> string \<Rightarrow> bool" where
  "raw_ok A raw \<longleftrightarrow> (\<exists>r. ae_unmarshal A raw = Inr r \<and> mc_record M r)"

definition envelope_ok :: "'d agent_env \<Rightarrow> envelope \<Rightarrow> bool" where
  "envelope_ok A e \<longleftrightarrow> raw_ok A (en_raw e) \<and> line_key (wire A (en_raw e)) = en_sourceKey e \<and>
     line_end (wire A (en_raw e)) = en_offset e"

abbreviation held_lines :: "'d agent_env \<Rightarrow> client \<Rightarrow> line list" where
  "held_lines A c \<equiv> map (\<lambda>e. wire A (en_raw e)) (cl_unacked c)"

definition conn_ok :: "'d agent_env \<Rightarrow> line set \<Rightarrow> conn \<Rightarrow> bool" where
  "conn_ok A C x \<longleftrightarrow> set (cn_seen x) \<subseteq> line_key ` ae_lines A \<and> list_all (raw_ok A) (cn_queue x) \<and>
     gap_free (ae_lines A) C (map (wire A) (cn_queue x))"

definition client_inv :: "'d agent_env \<Rightarrow> line set \<Rightarrow> client \<Rightarrow> bool" where
  "client_inv A D c \<longleftrightarrow> cl_cfg c = ClientConfig_defaults (ae_cfg A) \<and> no_drops (cl_commits c) c \<and>
     list_all (envelope_ok A) (cl_unacked c) \<and> gap_free (ae_lines A) D (held_lines A c)"

definition sent_ok :: "'d agent_env \<Rightarrow> line set \<Rightarrow> client \<Rightarrow> conn list \<Rightarrow> bool" where
  "sent_ok A C c xs \<longleftrightarrow> xs \<noteq> [] \<and>
     (\<forall>e \<in> set (cl_unacked c). en_sent e \<longrightarrow> wire A (en_raw e) \<in> C \<union> wire A ` set (cn_queue (last xs)))"

definition sys_inv :: "'d agent_env \<Rightarrow> ('w, 'd) system \<Rightarrow> bool" where
  "sys_inv A s \<longleftrightarrow>
     (let L = ae_lines A; w = sy_mgr s; D = log_line ` durable (mg_world w); C = lines_covered L w in
      mgr_lines L w \<and> client_inv A D (sy_client s) \<and>
      list_all (conn_ok A C) (sy_conns s) \<and>
      (sy_live s \<longrightarrow> sent_ok A C (sy_client s) (sy_conns s)) \<and>
      (\<forall>k. within L k (sy_read s k) \<subseteq> D \<union> set (held_lines A (sy_client s))) \<and>
      (\<forall>k. within L k (Checkpoint_Get (ae_bolt A) k (sy_ckpt s)) \<subseteq> D \<and>
        (Checkpoint_Get (ae_bolt A) k (sy_ckpt s) = 0 \<or> ends_line L k (Checkpoint_Get (ae_bolt A) k (sy_ckpt s)))) \<and>
      (\<forall>a \<in> set (sy_acks s). \<forall>(k, v) \<in> set a. within L k v \<subseteq> D \<and> ends_line L k v))"

lemma covered_mono:
  assumes "durable (mg_world w) \<subseteq> durable (mg_world w')"
    and "\<And>k v. k \<in> line_key ` L \<Longrightarrow> sp_received (mg_spool w) k = Some v \<Longrightarrow> \<exists>u. sp_received (mg_spool w') k = Some u \<and> v \<le> u"
  shows "lines_covered L w \<subseteq> lines_covered L w'"
proof
  fix y assume "y \<in> lines_covered L w"
  then consider "y \<in> log_line ` durable (mg_world w)" | v where "y \<in> L" "sp_received (mg_spool w) (line_key y) = Some v" "line_end y \<le> v"
    by (auto simp: lines_covered_def)
  then show "y \<in> lines_covered L w'"
  proof cases
    case 2
    with assms(2) [of "line_key y" v] show ?thesis by (auto simp: lines_covered_def intro: order_trans)
  qed (use assms(1) in \<open>auto simp: lines_covered_def\<close>)
qed

lemma covered_held: "mgr_lines L w \<Longrightarrow> lines_covered L w \<subseteq> log_line ` (durable (mg_world w) \<union> mg_accepted w)"
  unfolding lines_covered_def mgr_lines_def lines_kept_def within_def by blast

lemma conn_ok_mono: "conn_ok A C x \<Longrightarrow> C \<subseteq> C' \<Longrightarrow> conn_ok A C' x"
  by (auto simp: conn_ok_def intro: gap_free_mono)

lemma client_inv_mono: "client_inv A D c \<Longrightarrow> D \<subseteq> D' \<Longrightarrow> client_inv A D' c"
  by (auto simp: client_inv_def intro: gap_free_mono)

lemma sent_ok_mono: "sent_ok A C c xs \<Longrightarrow> C \<subseteq> C' \<Longrightarrow> sent_ok A C' c xs"
  by (auto simp: sent_ok_def)

lemma sys_invI:
  assumes "mgr_lines (ae_lines A) (sy_mgr s)" "client_inv A (log_line ` durable (mg_world (sy_mgr s))) (sy_client s)"
    "list_all (conn_ok A (lines_covered (ae_lines A) (sy_mgr s))) (sy_conns s)"
    "sy_live s \<Longrightarrow> sent_ok A (lines_covered (ae_lines A) (sy_mgr s)) (sy_client s) (sy_conns s)"
    "\<And>k. within (ae_lines A) k (sy_read s k) \<subseteq> log_line ` durable (mg_world (sy_mgr s)) \<union> set (held_lines A (sy_client s))"
    "\<And>k. within (ae_lines A) k (Checkpoint_Get (ae_bolt A) k (sy_ckpt s)) \<subseteq> log_line ` durable (mg_world (sy_mgr s)) \<and>
      (Checkpoint_Get (ae_bolt A) k (sy_ckpt s) = 0 \<or> ends_line (ae_lines A) k (Checkpoint_Get (ae_bolt A) k (sy_ckpt s)))"
    "\<And>a k v. a \<in> set (sy_acks s) \<Longrightarrow> (k, v) \<in> set a \<Longrightarrow>
      within (ae_lines A) k v \<subseteq> log_line ` durable (mg_world (sy_mgr s)) \<and> ends_line (ae_lines A) k v"
  shows "sys_inv A s"
  using assms unfolding sys_inv_def Let_def by blast

lemma sys_inv_parts:
  assumes "sys_inv A s"
  shows "mgr_lines (ae_lines A) (sy_mgr s)" "client_inv A (log_line ` durable (mg_world (sy_mgr s))) (sy_client s)"
    "list_all (conn_ok A (lines_covered (ae_lines A) (sy_mgr s))) (sy_conns s)"
    "sy_live s \<Longrightarrow> sent_ok A (lines_covered (ae_lines A) (sy_mgr s)) (sy_client s) (sy_conns s)"
    "within (ae_lines A) k (sy_read s k) \<subseteq> log_line ` durable (mg_world (sy_mgr s)) \<union> set (held_lines A (sy_client s))"
    "within (ae_lines A) k (Checkpoint_Get (ae_bolt A) k (sy_ckpt s)) \<subseteq> log_line ` durable (mg_world (sy_mgr s)) \<and>
      (Checkpoint_Get (ae_bolt A) k (sy_ckpt s) = 0 \<or> ends_line (ae_lines A) k (Checkpoint_Get (ae_bolt A) k (sy_ckpt s)))"
    "a \<in> set (sy_acks s) \<Longrightarrow> (k, v) \<in> set a \<Longrightarrow> within (ae_lines A) k v \<subseteq> log_line ` durable (mg_world (sy_mgr s)) \<and> ends_line (ae_lines A) k v"
  using assms unfolding sys_inv_def Let_def by blast+

lemma sys_inv_mgr:
  assumes "sys_inv A s" and "mgr_lines (ae_lines A) w" and D: "durable (mg_world (sy_mgr s)) \<subseteq> durable (mg_world w)"
    and C: "lines_covered (ae_lines A) (sy_mgr s) \<subseteq> lines_covered (ae_lines A) w"
  shows "sys_inv A (s\<lparr>sy_mgr := w\<rparr>)"
proof -
  have D': "log_line ` durable (mg_world (sy_mgr s)) \<subseteq> log_line ` durable (mg_world w)" using D by blast
  note p = sys_inv_parts [OF assms(1)]
  show ?thesis
  proof (rule sys_invI)
    show "list_all (conn_ok A (lines_covered (ae_lines A) (sy_mgr (s\<lparr>sy_mgr := w\<rparr>)))) (sy_conns (s\<lparr>sy_mgr := w\<rparr>))"
      using p(3) conn_ok_mono [OF _ C] by (auto simp: list_all_iff)
    show "within (ae_lines A) k v \<subseteq> log_line ` durable (mg_world (sy_mgr (s\<lparr>sy_mgr := w\<rparr>))) \<and> ends_line (ae_lines A) k v"
      if "a \<in> set (sy_acks (s\<lparr>sy_mgr := w\<rparr>))" "(k, v) \<in> set a" for a k v
      using p(7) [of a k v] that subset_trans [OF _ D'] by simp
    show "within (ae_lines A) k (sy_read (s\<lparr>sy_mgr := w\<rparr>) k) \<subseteq>
        log_line ` durable (mg_world (sy_mgr (s\<lparr>sy_mgr := w\<rparr>))) \<union> set (held_lines A (sy_client (s\<lparr>sy_mgr := w\<rparr>)))" for k
      using subset_trans [OF p(5) Un_mono [OF D' subset_refl]] by simp
  qed (use assms(2) client_inv_mono [OF p(2) D'] sent_ok_mono [OF p(4) C] p(6) subset_trans [OF _ D'] in simp_all)
qed

text \<open>The window when only marks change.\<close>

lemma core_lists:
  assumes "map core es = map core es'"
  shows "map en_raw es = map en_raw es'" and "list_all (envelope_ok A) es = list_all (envelope_ok A) es'"
proof -
  from assms have "map en_raw (map core es) = map en_raw (map core es')" by simp
  then show "map en_raw es = map en_raw es'" by (simp add: o_def)
  have "list_all (envelope_ok A) es = list_all (envelope_ok A) (map core es)" for es
    by (induction es) (simp_all add: envelope_ok_def)
  with assms show "list_all (envelope_ok A) es = list_all (envelope_ok A) es'" by metis
qed

lemma held_lines_alt: "held_lines A c = map (wire A) (map en_raw (cl_unacked c))"
  by simp

lemma client_inv_marks:
  assumes "client_inv A D c" and core: "map core es = map core (cl_unacked c)"
  shows "client_inv A D (c\<lparr>cl_unacked := es\<rparr>)" and "held_lines A (c\<lparr>cl_unacked := es\<rparr>) = held_lines A c"
proof -
  note l = core_lists [OF core]
  show h: "held_lines A (c\<lparr>cl_unacked := es\<rparr>) = held_lines A c" unfolding held_lines_alt using l(1) by simp
  show "client_inv A D (c\<lparr>cl_unacked := es\<rparr>)"
    using assms(1) l(2) [of A] raw_bytes_core [OF core] unfolding client_inv_def h by (auto simp: no_drops_def client_ok_def)
qed

lemma sys_inv_client:
  assumes "sys_inv A s" and "client_inv A (log_line ` durable (mg_world (sy_mgr s))) c"
    and "list_all (conn_ok A (lines_covered (ae_lines A) (sy_mgr s))) xs"
    and "lv \<Longrightarrow> sent_ok A (lines_covered (ae_lines A) (sy_mgr s)) c xs"
    and "\<And>k. within (ae_lines A) k (rd k) \<subseteq> log_line ` durable (mg_world (sy_mgr s)) \<union> set (held_lines A c)"
  shows "sys_inv A (s\<lparr>sy_client := c, sy_conns := xs, sy_live := lv, sy_read := rd\<rparr>)"
  using assms unfolding sys_inv_def Let_def by simp

lemma sys_inv_reconnect:
  assumes inv: "sys_inv A s"
  shows "sys_inv A (s\<lparr>sy_client := reset_window (sy_client s),
    sy_conns := sy_conns s @ [\<lparr>cn_seen = [], cn_queue = []\<rparr>], sy_live := True\<rparr>)"
proof -
  note p = sys_inv_parts [OF inv]
  let ?es = "map (\<lambda>e. e\<lparr>en_sent := False\<rparr>) (cl_unacked (sy_client s))"
  have "map core ?es = map core (cl_unacked (sy_client s))" by (simp add: core_def)
  note c = client_inv_marks [OF p(2) this]
  have "sys_inv A (s\<lparr>sy_client := (sy_client s)\<lparr>cl_unacked := ?es\<rparr>,
      sy_conns := sy_conns s @ [\<lparr>cn_seen = [], cn_queue = []\<rparr>], sy_live := True, sy_read := sy_read s\<rparr>)"
    by (rule sys_inv_client [OF inv c(1)]) (use p c(2) in \<open>auto simp: conn_ok_def sent_ok_def\<close>)
  then show ?thesis by (simp add: reset_window_def)
qed

lemma sys_inv_send_fails:
  assumes inv: "sys_inv A s" and b: "collect_batch lim 0 (cl_unacked (sy_client s)) = (b, es)"
  shows "sys_inv A (s\<lparr>sy_client := (sy_client s)\<lparr>cl_unacked := es\<rparr>, sy_live := False\<rparr>)"
proof -
  note p = sys_inv_parts [OF inv]
  have "map core es = map core (cl_unacked (sy_client s))"
    using collect_batch_split [OF b] by (simp add: core_def [abs_def])
  note c = client_inv_marks [OF p(2) this]
  have "sys_inv A (s\<lparr>sy_client := (sy_client s)\<lparr>cl_unacked := es\<rparr>, sy_conns := sy_conns s, sy_live := False, sy_read := sy_read s\<rparr>)"
    by (rule sys_inv_client [OF inv c(1)]) (use p c(2) in auto)
  then show ?thesis by simp
qed

lemma sys_inv_send:
  assumes inv: "sys_inv A s" and lv: "sy_live s" and cs: "sy_conns s = cs @ [x]"
    and b: "collect_batch lim 0 (cl_unacked (sy_client s)) = (b, es)"
  shows "sys_inv A (s\<lparr>sy_client := (sy_client s)\<lparr>cl_unacked := es\<rparr>, sy_conns := cs @ [x\<lparr>cn_queue := cn_queue x @ b\<rparr>]\<rparr>)"
proof -
  note p = sys_inv_parts [OF inv]
  let ?C = "lines_covered (ae_lines A) (sy_mgr s)" and ?c = "sy_client s" and ?x = "x\<lparr>cn_queue := cn_queue x @ b\<rparr>"
  let ?sent = "?C \<union> wire A ` set (cn_queue x)"
  note split = collect_batch_split [OF b]
  then have core: "map core es = map core (cl_unacked ?c)" by (simp add: core_def [abs_def])
  note c = client_inv_marks [OF p(2) core]
  have sent: "sent_ok A ?C ?c (cs @ [x])" using p(4) [OF lv] cs by simp
  have old: "conn_ok A ?C x" "list_all (conn_ok A ?C) cs" using p(3) cs by simp_all
  have "gap_free (ae_lines A) ?sent (held_lines A ?c)"
    using p(2) by (auto simp: client_inv_def lines_covered_def elim: gap_free_mono)
  then have "gap_free (ae_lines A) ?sent (map (\<lambda>e. wire A (en_raw e)) (unsent (cl_unacked ?c)))"
    unfolding unsent_def by (rule gap_free_filter) (use sent in \<open>simp add: sent_ok_def\<close>)
  also have "map (\<lambda>e. wire A (en_raw e)) (unsent (cl_unacked ?c)) = map (wire A) (b @ map en_raw (unsent es))"
    using arg_cong [OF conjunct1 [OF split], of "map (wire A)"] by (simp add: o_def)
  finally have gap: "gap_free (ae_lines A) ?sent (map (wire A) b)" by (simp add: gap_free_append)
  have "set b \<subseteq> en_raw ` set (cl_unacked ?c)"
  proof -
    have "set b \<subseteq> set (map en_raw (unsent (cl_unacked ?c)))" using split by (metis set_append Un_upper1)
    then show ?thesis by (auto simp: unsent_def)
  qed
  then have "list_all (raw_ok A) b" using p(2) by (auto simp: client_inv_def list_all_iff envelope_ok_def)
  with old(1) gap have x': "conn_ok A ?C ?x" by (simp add: conn_ok_def gap_free_append)
  have "wire A (en_raw e) \<in> ?C \<union> wire A ` set (cn_queue ?x)" if e: "e \<in> set es" "en_sent e" for e
    using collect_batch_marks [OF b e] e(2) sent by (auto simp: sent_ok_def)
  then have "sent_ok A ?C (?c\<lparr>cl_unacked := es\<rparr>) (cs @ [?x])" by (simp add: sent_ok_def)
  moreover have "within (ae_lines A) k (sy_read s k) \<subseteq> log_line ` durable (mg_world (sy_mgr s)) \<union>
      set (held_lines A (?c\<lparr>cl_unacked := es\<rparr>))" for k using p(5) [of k] unfolding c(2) .
  ultimately have "sys_inv A (s\<lparr>sy_client := ?c\<lparr>cl_unacked := es\<rparr>, sy_conns := cs @ [?x], sy_live := sy_live s, sy_read := sy_read s\<rparr>)"
    by (intro sys_inv_client [OF inv c(1)]) (use old(2) x' in simp_all)
  then show ?thesis by simp
qed

lemma sys_inv_enqueue:
  assumes inv: "sys_inv A s" and ok: "agent_ok (mc_record M) A" and rec: "r \<in> ae_records A"
    and nxt: "\<forall>y \<in> ae_lines A. line_key y = rec_key r \<and> line_end y < rec_Offset r \<longrightarrow> line_end y \<le> sy_read s (rec_key r)"
    and e: "Enqueue (ae_marshal A) r (sy_client s) = Enqueued c"
  shows "sys_inv A (s\<lparr>sy_client := c, sy_read := (sy_read s)(rec_key r := rec_Offset r)\<rparr>)"
proof -
  note p = sys_inv_parts [OF inv] and r = ae_lines_record [OF rec]
  let ?c = "sy_client s" and ?D = "log_line ` durable (mg_world (sy_mgr s))" and ?L = "ae_lines A"
  have cfg: "cl_cfg ?c = ClientConfig_defaults (ae_cfg A)" and nd: "no_drops (cl_commits ?c) ?c"
    using p(2) by (simp_all add: client_inv_def)
  obtain raw where raw: "ae_marshal A r = Inr raw" "c = append_envelope r raw ?c"
    "cl_heldByte ?c + int (length raw) \<le> cc_MaxHeldBytes (cl_cfg ?c)"
  proof (rule EnqueueE [OF e])
    fix raw assume m: "ae_marshal A r = Inr raw" and "cl_heldByte ?c + int (length raw) > cc_HardMaxBytes (cl_cfg ?c)"
    moreover have "int (length raw) \<le> cc_HardMaxBytes (cl_cfg ?c) - cc_MaxHeldBytes (cl_cfg ?c)"
      using ok rec m unfolding agent_ok_def cfg by fastforce
    ultimately show ?thesis using nd by (simp add: no_drops_def)
  qed (use that in blast)
  from ok rec raw(1) obtain r' where r': "ae_unmarshal A raw = Inr r'" "log_line r' = log_line r" "mc_record M r'"
    unfolding agent_ok_def by fastforce
  have w: "wire A raw = log_line r" using r' by (simp add: wire_def)
  have un: "cl_unacked c = cl_unacked ?c @ [envelope_of r raw]" by (simp add: raw(2) append_envelope_def)
  have h: "held_lines A c = held_lines A ?c @ [log_line r]" by (simp add: un envelope_of_def w)
  have before: "y \<in> ?D \<union> set (held_lines A ?c)" if "y \<in> ?L" "line_key y = rec_key r" "line_end y < rec_Offset r" for y
    using p(5) [of "rec_key r"] nxt that by (auto simp: within_def)
  have "envelope_ok A (envelope_of r raw)" using r' w by (auto simp: envelope_ok_def raw_ok_def envelope_of_def)
  moreover have "no_drops (cl_commits c) c"
    using nd raw(3) append_envelope_ok by (auto simp: no_drops_def raw(2) append_envelope_def client_ok_def envelope_of_def)
  moreover have "gap_free ?L ?D (held_lines A c)"
    using p(2) before r unfolding h gap_free_append by (simp add: client_inv_def)
  ultimately have ci: "client_inv A ?D c"
    using p(2) by (simp add: client_inv_def un raw(2) append_envelope_def)
  have rd: "within ?L k (((sy_read s)(rec_key r := rec_Offset r)) k) \<subseteq> ?D \<union> set (held_lines A c)" for k
  proof (cases "k = rec_key r")
    case True
    show ?thesis
    proof
      fix y assume y: "y \<in> within ?L k (((sy_read s)(rec_key r := rec_Offset r)) k)"
      with True have y': "y \<in> ?L" "line_key y = rec_key r" "line_end y \<le> rec_Offset r" by (auto simp: within_def)
      show "y \<in> ?D \<union> set (held_lines A c)"
      proof (cases "line_end y = rec_Offset r")
        case True
        then have "y = log_line r" using ok y' r by (auto simp: agent_ok_def lines_ok_def)
        then show ?thesis unfolding h by simp
      next
        case False
        with before [OF y'(1,2)] y'(3) show ?thesis unfolding h by auto
      qed
    qed
  qed (use p(5) [of k] h in auto)
  have "sent_ok A C c (sy_conns s)" if "sent_ok A C ?c (sy_conns s)" for C
    using that by (auto simp: sent_ok_def un envelope_of_def)
  from sys_inv_client [OF inv ci p(3) this [OF p(4)] rd, of "sy_live s"] show ?thesis by (simp add: fun_upd_def)
qed

lemma sys_inv_conns:
  assumes inv: "sys_inv A s" and cs: "sy_conns s = cs @ x # cs'"
    and x': "conn_ok A (lines_covered (ae_lines A) (sy_mgr s)) x'"
    and lv: "lv \<Longrightarrow> sy_live s \<and> (cs' = [] \<longrightarrow>
      wire A ` set (cn_queue x) \<subseteq> lines_covered (ae_lines A) (sy_mgr s) \<union> wire A ` set (cn_queue x'))"
  shows "sys_inv A (s\<lparr>sy_conns := cs @ x' # cs', sy_live := lv\<rparr>)"
proof -
  note p = sys_inv_parts [OF inv]
  let ?C = "lines_covered (ae_lines A) (sy_mgr s)"
  have all: "list_all (conn_ok A ?C) (cs @ x' # cs')" using p(3) x' cs by simp
  have "sent_ok A ?C (sy_client s) (cs @ x' # cs')" if "lv"
  proof (cases "cs' = []")
    case True
    with lv [OF that] p(4) cs show ?thesis unfolding sent_ok_def by simp blast
  qed (use lv [OF that] p(4) cs in \<open>simp add: sent_ok_def\<close>)
  from sys_inv_client [OF inv p(2) all this p(5)] show ?thesis by simp
qed

lemma sys_inv_lose:
  assumes inv: "sys_inv A s" and cs: "sy_conns s = cs @ x # cs'"
  shows "sys_inv A (s\<lparr>sy_conns := cs @ x\<lparr>cn_queue := take n (cn_queue x)\<rparr> # cs', sy_live := sy_live s \<and> cs' \<noteq> []\<rparr>)"
proof (rule sys_inv_conns [OF inv cs])
  have "conn_ok A (lines_covered (ae_lines A) (sy_mgr s)) x" using sys_inv_parts(3) [OF inv] cs by simp
  then show "conn_ok A (lines_covered (ae_lines A) (sy_mgr s)) (x\<lparr>cn_queue := take n (cn_queue x)\<rparr>)"
    by (auto simp: conn_ok_def list_all_iff take_map [symmetric] intro: gap_free_take dest: in_set_takeD)
qed simp

text \<open>A record that arrives is covered from then on.\<close>

lemma mgr_recv_lines:
  assumes lines: "mgr_lines L w" and one: "mc_seals M = 1" and L: "lines_ok L"
    and un: "unmarshal raw = Inr r" "mc_record M r" "log_line r \<in> L"
    and gap: "\<And>y. y \<in> L \<Longrightarrow> line_key y = rec_key r \<Longrightarrow> line_end y < rec_Offset r \<Longrightarrow> y \<in> lines_covered L w"
    and recv: "mgr_recv rt unmarshal (ids, now, raw) seen w = Some (seen', w')"
  shows "mgr_lines L w'" and "durable (mg_world w') = durable (mg_world w)" and "lines_covered L w \<subseteq> lines_covered L w'"
    and "log_line r \<in> lines_covered L w'" and "set seen' = insert (rec_key r) (set seen)"
proof -
  from recv un(1) obtain s h where a: "Accept rt ids now r (mg_spool w, mg_hub w) = Some (s, h)"
    and w': "w' = w\<lparr>mg_spool := s, mg_hub := h,
      mg_accepted := (if duplicate r (mg_spool w) then mg_accepted w else insert r (mg_accepted w))\<rparr>"
    and seen: "seen' = List.insert (rec_key r) seen"
    by (auto simp: mgr_recv_def recv_record_def)
  have step: "mgr_step M w w'" unfolding w' by (rule mgr_step.accept [OF a un(2)])
  show "durable (mg_world w') = durable (mg_world w)" by (simp add: w')
  show "set seen' = insert (rec_key r) (set seen)" by (simp add: seen)
  have "mgr_lines L w' \<and> lines_covered L w \<subseteq> lines_covered L w' \<and> log_line r \<in> lines_covered L w'"
  proof (cases "duplicate r (mg_spool w)")
    case True
    with a have "s = mg_spool w" by (simp add: Accept_def)
    with True w' un(3) have "lines_covered L w' = lines_covered L w" "log_line r \<in> lines_covered L w'"
      by (auto simp: lines_covered_def duplicate_def split: option.splits)
    with mgr_lines_background [OF step lines one] \<open>s = mg_spool w\<close> w' show ?thesis by simp
  next
    case False
    with a have s: "s = accept_new now r (mg_spool w)" by (auto simp: Accept_def split: option.splits)
    have "mgr_lines L w'"
      by (rule mgr_lines_accept [OF lines one L un(3) _ step False]) (use gap covered_held [OF lines] False w' s in auto)
    moreover have "lines_covered L w \<subseteq> lines_covered L w'"
      by (rule covered_mono) (use False in \<open>auto simp: w' s accept_new_def duplicate_def\<close>)
    moreover have "log_line r \<in> lines_covered L w'" using un(3) by (simp add: lines_covered_def w' s accept_new_def)
    ultimately show ?thesis by blast
  qed
  then show "mgr_lines L w'" "lines_covered L w \<subseteq> lines_covered L w'" "log_line r \<in> lines_covered L w'" by blast+
qed

lemma sys_inv_recv:
  assumes inv: "sys_inv A s" and one: "mc_seals M = 1" and ok: "agent_ok (mc_record M) A"
    and cs: "sy_conns s = cs @ x # cs'" "cn_queue x = raw # q"
    and recv: "mgr_recv rt (ae_unmarshal A) (ids, now, raw) (cn_seen x) (sy_mgr s) = Some (seen, w)"
  shows "sys_inv A (s\<lparr>sy_conns := cs @ \<lparr>cn_seen = seen, cn_queue = q\<rparr> # cs', sy_mgr := w\<rparr>)"
proof -
  note p = sys_inv_parts [OF inv]
  let ?L = "ae_lines A" let ?x = "\<lparr>cn_seen = seen, cn_queue = q\<rparr>"
  have x: "conn_ok A (lines_covered ?L (sy_mgr s)) x" using p(3) cs by simp
  then obtain r where r: "ae_unmarshal A raw = Inr r" "mc_record M r" by (auto simp: conn_ok_def cs(2) raw_ok_def)
  have w: "wire A raw = log_line r" using r by (simp add: wire_def)
  with x have g: "log_line r \<in> ?L" "\<forall>y \<in> ?L. line_key y = rec_key r \<and> line_end y < rec_Offset r \<longrightarrow> y \<in> lines_covered ?L (sy_mgr s)"
    "gap_free ?L (insert (log_line r) (lines_covered ?L (sy_mgr s))) (map (wire A) q)"
    by (auto simp: conn_ok_def cs(2))
  have "lines_ok ?L" using ok by (simp add: agent_ok_def)
  note m = mgr_recv_lines [OF p(1) one this r g(1) _ recv]
  have gap: "y \<in> lines_covered ?L (sy_mgr s)" if "y \<in> ?L" "line_key y = rec_key r" "line_end y < rec_Offset r" for y
    using g(2) that by blast
  have inv': "sys_inv A (s\<lparr>sy_mgr := w\<rparr>)" by (rule sys_inv_mgr [OF inv]) (use m gap in auto)
  have "rec_key r \<in> line_key ` ?L" using g(1) by (metis log_line_sel(1) imageI)
  moreover have "insert (log_line r) (lines_covered ?L (sy_mgr s)) \<subseteq> lines_covered ?L w" using m(3,4) gap by auto
  ultimately have "conn_ok A (lines_covered ?L w) ?x"
    using x m(5) gap gap_free_mono [OF g(3)] by (auto simp: conn_ok_def cs(2))
  moreover have "wire A ` set (cn_queue x) \<subseteq> lines_covered ?L w \<union> wire A ` set q" using m(4) gap w cs(2) by auto
  ultimately have "sys_inv A (s\<lparr>sy_mgr := w, sy_conns := cs @ ?x # cs', sy_live := sy_live s\<rparr>)"
    using sys_inv_conns [OF inv', of cs x cs' ?x "sy_live s"] cs(1) by simp
  moreover have "s\<lparr>sy_mgr := w, sy_conns := cs @ ?x # cs', sy_live := sy_live s\<rparr> = s\<lparr>sy_conns := cs @ ?x # cs', sy_mgr := w\<rparr>"
    by (cases s) simp
  ultimately show ?thesis by simp
qed

lemma sys_inv_ack:
  assumes inv: "sys_inv A s" and x: "x \<in> set (sy_conns s)" "set seen = set (cn_seen x)"
    and ack: "Stream_ack seen (mg_spool (sy_mgr s)) = Some a"
  shows "sys_inv A (s\<lparr>sy_acks := a # sy_acks s\<rparr>)"
proof -
  have a: "a = buildAck seen (Committed (mg_spool (sy_mgr s)))" using ack by (simp add: Stream_ack_def Let_def split: if_splits)
  note p = sys_inv_parts [OF inv]
  have "within (ae_lines A) k v \<subseteq> log_line ` durable (mg_world (sy_mgr s)) \<and> ends_line (ae_lines A) k v"
    if "(k, v) \<in> set a" for k v
  proof -
    from that have k: "k \<in> set (cn_seen x)" and c: "sp_committed (mg_spool (sy_mgr s)) k = Some v"
      using x(2) by (auto simp: a buildAck_def Committed_def)
    have "k \<in> line_key ` ae_lines A" using p(3) x(1) k by (auto simp: list_all_iff conn_ok_def)
    moreover have "line_at (ae_lines A) k v" using p(1) c by (simp add: mgr_lines_def ends_known_def)
    ultimately show ?thesis using committed_durable [OF p(1) c] by (simp add: line_at_def)
  qed
  with inv show ?thesis unfolding sys_inv_def Let_def by auto
qed

text \<open>Commits, also those of an acknowledgement that a crash cuts off, stay below durable lines.\<close>

lemma ckpt_advance:
  assumes inv: "sys_inv A s" and ok: "agent_ok ok A" and a: "a \<in> set ([] # sy_acks s)" and sub: "set a' \<subseteq> set a"
    and v: "v = Checkpoint_Get (ae_bolt A) k (advance_all (ae_bolt A) a' (sy_ckpt s))"
  shows "within (ae_lines A) k v \<subseteq> log_line ` durable (mg_world (sy_mgr s)) \<and> (v = 0 \<or> ends_line (ae_lines A) k v)"
proof -
  note p = sys_inv_parts [OF inv]
  have B: "bolt_ok (ae_bolt A)" and L: "lines_ok (ae_lines A)" using ok by (simp_all add: agent_ok_def)
  have all: "within (ae_lines A) k v \<subseteq> log_line ` durable (mg_world (sy_mgr s)) \<and> ends_line (ae_lines A) k v"
    if "(k, v) \<in> set a'" for k v
  proof -
    from that a sub have "a \<in> set (sy_acks s)" "(k, v) \<in> set a" by auto
    from p(7) [OF this] show ?thesis .
  qed
  have "\<forall>c \<in> set a'. in_int64 (snd c) \<and> 0 \<le> snd c"
  proof
    fix c assume "c \<in> set a'"
    with all [of "fst c" "snd c"] obtain y where "y \<in> ae_lines A" "line_end y = snd c" by (auto simp: ends_line_def)
    with L show "in_int64 (snd c) \<and> 0 \<le> snd c" by (fastforce simp: lines_ok_def in_int64_def)
  qed
  from advance_all_bounds [OF B this, of k "sy_ckpt s"]
  consider "v = Checkpoint_Get (ae_bolt A) k (sy_ckpt s)" | "(k, v) \<in> set a'" unfolding v by blast
  then show ?thesis
  proof cases
    case 1
    with p(6) [of k] show ?thesis by simp
  next
    case 2
    from all [OF this] show ?thesis by blast
  qed
qed

lemma sys_inv_deliver:
  assumes inv: "sys_inv A s" and ok: "agent_ok (mc_record M) A" and a: "a \<in> set (sy_acks s)"
  shows "sys_inv A (s\<lparr>sy_client := applyAck a (sy_client s), sy_ckpt := advance_all (ae_bolt A) a (sy_ckpt s)\<rparr>)"
proof -
  note p = sys_inv_parts [OF inv]
  let ?c = "sy_client s" and ?D = "log_line ` durable (mg_world (sy_mgr s))" and ?L = "ae_lines A"
  note ck = ckpt_advance [OF inv ok, of a a, OF _ _ refl]
  have un: "cl_unacked (applyAck a ?c) = filter (\<lambda>e. \<not> acks_envelope a e) (cl_unacked ?c)"
    by (simp add: applyAck_def Let_def)
  have gone: "wire A (en_raw e) \<in> ?D" if e: "e \<in> set (cl_unacked ?c)" "acks_envelope a e" for e
  proof -
    from e(2) obtain v where v: "(en_sourceKey e, v) \<in> set a" "en_offset e \<le> v"
      by (auto simp: acks_envelope_def dest: ack_map_mem split: option.splits)
    moreover have "wire A (en_raw e) \<in> ?L" "envelope_ok A e"
      using p(2) e(1) gap_free_lines by (fastforce simp: client_inv_def list_all_iff)+
    ultimately have "wire A (en_raw e) \<in> within ?L (en_sourceKey e) v" by (simp add: envelope_ok_def within_def)
    with p(7) [OF a v(1)] show ?thesis by blast
  qed
  have nd: "no_drops (cl_commits ?c) ?c" using p(2) by (simp add: client_inv_def)
  have "gap_free ?L ?D (held_lines A (applyAck a ?c))"
    unfolding un by (rule gap_free_filter) (use p(2) gone in \<open>auto simp: client_inv_def\<close>)
  moreover have "no_drops (cl_commits (applyAck a ?c)) (applyAck a ?c)"
    using no_drops_step [OF nd, of "OnAck a" "ae_marshal A"] by (simp add: applyAck_def Let_def)
  moreover have "cl_cfg (applyAck a ?c) = cl_cfg ?c" by (simp add: applyAck_def Let_def)
  ultimately have c: "client_inv A ?D (applyAck a ?c)"
    using p(2) un by (auto simp: client_inv_def list_all_iff)
  have rd: "within ?L k (sy_read s k) \<subseteq> ?D \<union> set (held_lines A (applyAck a ?c))" for k
  proof
    fix y assume "y \<in> within ?L k (sy_read s k)"
    with p(5) [of k] consider "y \<in> ?D" | e where "e \<in> set (cl_unacked ?c)" "y = wire A (en_raw e)" by auto
    then show "y \<in> ?D \<union> set (held_lines A (applyAck a ?c))"
    proof cases
      case 2
      with gone [of e] show ?thesis unfolding un by (cases "acks_envelope a e") auto
    qed simp
  qed
  have "sent_ok A C (applyAck a ?c) xs" if "sent_ok A C ?c xs" for C xs using that by (simp add: sent_ok_def un)
  with inv c rd ck a show ?thesis unfolding sys_inv_def Let_def by simp
qed

lemma client_inv_new: "client_inv A D (NewClient (ae_cfg A))"
  using NewClient_ok defaults_positive(1) [of "ae_cfg A"]
  by (simp add: client_inv_def no_drops_def NewClient_def client_ok_def less_imp_le)

lemma sys_inv_crash:
  assumes inv: "sys_inv A s" and ok: "agent_ok (mc_record M) A" and a: "a \<in> set ([] # sy_acks s)"
    and d: "d = advance_all (ae_bolt A) (take n a) (sy_ckpt s)"
  shows "sys_inv A (s\<lparr>sy_client := NewClient (ae_cfg A), sy_live := False, sy_ckpt := d,
      sy_read := (\<lambda>k. Checkpoint_Get (ae_bolt A) k d)\<rparr>)"
proof -
  from ckpt_advance [OF inv ok a set_take_subset [of n a] refl] inv client_inv_new show ?thesis
    unfolding sys_inv_def Let_def d by (simp add: le_supI1)
qed

lemma sys_inv_tail:
  assumes inv: "sys_inv A s"
  shows "sys_inv A (s\<lparr>sy_read := (sy_read s)(k := Checkpoint_Get (ae_bolt A) k (sy_ckpt s))\<rparr>)"
  using inv unfolding sys_inv_def Let_def by (simp add: le_supI1)

lemma sys_inv_restart:
  assumes inv: "sys_inv A s" and one: "mc_seals M = 1"
    and re: "mc_restart M (uploading (sy_mgr s)) (mg_world (sy_mgr s)) (w1, sp)"
  shows "sys_inv A (s\<lparr>sy_conns := [], sy_live := False, sy_mgr := \<lparr>mg_spool = sp, mg_hub = Some (NewHub 4096),
      mg_world = w1, mg_flight = [], mg_accepted = {}\<rparr>\<rparr>)" (is "sys_inv A (s\<lparr>sy_conns := [], sy_live := False, sy_mgr := ?w\<rparr>)")
proof -
  note p = sys_inv_parts [OF inv]
  have lines: "mgr_lines (ae_lines A) ?w" by (rule mgr_lines_restart [OF p(1) re one])
  have D: "log_line ` durable (mg_world (sy_mgr s)) \<subseteq> log_line ` durable w1"
    using mgr_step_inv [OF mgr_step.restart [OF re] p(1) one] by auto
  with inv lines client_inv_mono [OF p(2) D] show ?thesis unfolding sys_inv_def Let_def by simp blast
qed

lemma sys_inv_step:
  assumes "sys_step M A s s'" and inv: "sys_inv A s" and one: "mc_seals M = 1" and ok: "agent_ok (mc_record M) A"
  shows "sys_inv A s'"
  using assms(1)
proof cases
  case (enqueue r c)
  with sys_inv_enqueue [OF inv ok enqueue(2,4,5)] show ?thesis by simp
next
  case (manager w)
  note p = sys_inv_parts [OF inv]
  have "sys_inv A (s\<lparr>sy_mgr := w\<rparr>)"
  proof (rule sys_inv_mgr [OF inv])
    show "mgr_lines (ae_lines A) w" using mgr_lines_background [OF manager(2) p(1) one] manager(3) by blast
    show "durable (mg_world (sy_mgr s)) \<subseteq> durable (mg_world w)" using mgr_step_inv [OF manager(2) p(1) one] by blast
    then show "lines_covered (ae_lines A) (sy_mgr s) \<subseteq> lines_covered (ae_lines A) w" by (rule covered_mono) (use manager(3) in auto)
  qed
  with manager(1) show ?thesis by simp
qed (use inv one ok in \<open>simp_all add: agent_ok_def sys_inv_reconnect sys_inv_send sys_inv_send_fails sys_inv_lose
  sys_inv_recv sys_inv_ack sys_inv_deliver sys_inv_crash sys_inv_tail sys_inv_restart\<close>)

lemma sys_inv_start:
  assumes wok: "wok w0" and re: "mc_restart M [] w0 (w1, sp)" and L: "lines_ok (ae_lines A)"
    and new: "\<And>k v. (k, v) \<in> tops w0 \<Longrightarrow> k \<notin> line_key ` ae_lines A"
    and d0: "\<And>k. Checkpoint_Get (ae_bolt A) k d0 = 0"
  shows "sys_inv A \<lparr>sy_client = NewClient (ae_cfg A), sy_conns = [], sy_live = False, sy_acks = [],
      sy_mgr = \<lparr>mg_spool = sp, mg_hub = Some (NewHub 4096), mg_world = w1, mg_flight = [], mg_accepted = {}\<rparr>,
      sy_ckpt = d0, sy_read = (\<lambda>k. Checkpoint_Get (ae_bolt A) k d0)\<rparr>" (is "sys_inv A ?s")
proof -
  have nil: "\<forall>b \<in> set []. batch_ok M b" by simp
  note re' = restart_ok [OF wok nil re] restart_tops [OF wok nil re] restart_received [OF wok nil re]
  have foreign: "k \<notin> line_key ` ae_lines A" if "(k, v) \<in> tops w1" for k v using that re'(2) new by auto
  have none: "within (ae_lines A) k v = {} \<and> line_at (ae_lines A) k v"
    if "(k, v) \<in> tops w1 \<or> sp_received sp k = Some v" for k v
  proof -
    have "(k, v) \<in> tops w1" using that re'(3) by blast
    from foreign [OF this] show ?thesis by (simp add: within_foreign line_at_def)
  qed
  have "lines_kept (ae_lines A) (sy_mgr ?s)" "ends_known (ae_lines A) (sy_mgr ?s)"
    using none re'(1) unfolding lines_kept_def ends_known_def in_flight_def by auto
  then have "mgr_lines (ae_lines A) (sy_mgr ?s)"
    using mgr_inv_start [OF wok nil re] mgr_wf_start [OF wok nil re] by (simp add: mgr_lines_def)
  moreover have "within (ae_lines A) k 0 = {}" for k using L by (auto simp: within_def lines_ok_def)
  ultimately show ?thesis using client_inv_new by (simp add: sys_inv_def Let_def d0)
qed

lemma sys_reachable_inv:
  assumes "sys_reachable M A w0 d0 s" and "wok w0" and "mc_seals M = 1" and "agent_ok (mc_record M) A"
    and "\<And>k v. (k, v) \<in> tops w0 \<Longrightarrow> k \<notin> line_key ` ae_lines A" and "\<And>k. Checkpoint_Get (ae_bolt A) k d0 = 0"
  shows "sys_inv A s"
  using assms
proof (induction rule: sys_reachable.induct)
  case (start w1 sp)
  then show ?case by (intro sys_inv_start) (auto simp: agent_ok_def)
next
  case (step s s')
  from sys_inv_step [OF step.hyps(2) step.IH [OF step.prems] step.prems(2,3)] show ?case .
qed

lemma ckpt_ends:
  assumes "sys_reachable M A w0 d0 s" and "wok w0" and "mc_seals M = 1" and "agent_ok (mc_record M) A"
    and "\<And>k v. (k, v) \<in> tops w0 \<Longrightarrow> k \<notin> line_key ` ae_lines A" and "\<And>k. Checkpoint_Get (ae_bolt A) k d0 = 0"
  shows "Checkpoint_Get (ae_bolt A) k (sy_ckpt s) = 0 \<or> ends_line (ae_lines A) k (Checkpoint_Get (ae_bolt A) k (sy_ckpt s))"
proof -
  have "sys_inv A s" by (rule sys_reachable_inv [OF assms(1-4)]; fact assms)
  from sys_inv_parts(6) [OF this, of k] show ?thesis by blast
qed

lemma lines_delivered:
  assumes "sys_reachable M A w0 d0 s" and "wok w0" and "mc_seals M = 1" and "agent_ok (mc_record M) A"
    and "\<And>k v. (k, v) \<in> tops w0 \<Longrightarrow> k \<notin> line_key ` ae_lines A" and "\<And>k. Checkpoint_Get (ae_bolt A) k d0 = 0"
    and y: "y \<in> ae_lines A"
  shows "line_end y \<le> Checkpoint_Get (ae_bolt A) (line_key y) (sy_ckpt s) \<Longrightarrow> y \<in> log_line ` durable (mg_world (sy_mgr s))"
    and "line_end y \<le> sy_read s (line_key y) \<Longrightarrow> y \<in> log_line ` durable (mg_world (sy_mgr s)) \<or>
      (\<exists>e \<in> set (cl_unacked (sy_client s)). \<exists>r. ae_unmarshal A (en_raw e) = Inr r \<and> log_line r = y)"
proof -
  have "sys_inv A s" by (rule sys_reachable_inv [OF assms(1-4)]; fact assms)
  note p = sys_inv_parts [OF this]
  show "y \<in> log_line ` durable (mg_world (sy_mgr s))" if "line_end y \<le> Checkpoint_Get (ae_bolt A) (line_key y) (sy_ckpt s)"
    using that y p(6) [where k = "line_key y"] by (auto simp: within_def)
  assume "line_end y \<le> sy_read s (line_key y)"
  with y p(5) [where k = "line_key y"] consider "y \<in> log_line ` durable (mg_world (sy_mgr s))"
    | e where "e \<in> set (cl_unacked (sy_client s))" "y = wire A (en_raw e)" by (auto simp: within_def)
  then show "y \<in> log_line ` durable (mg_world (sy_mgr s)) \<or>
      (\<exists>e \<in> set (cl_unacked (sy_client s)). \<exists>r. ae_unmarshal A (en_raw e) = Inr r \<and> log_line r = y)"
  proof cases
    case 2
    then have "raw_ok A (en_raw e)" using p(2) by (auto simp: client_inv_def list_all_iff envelope_ok_def)
    then obtain r where r: "ae_unmarshal A (en_raw e) = Inr r" by (auto simp: raw_ok_def)
    with 2(2) have "log_line r = y" by (simp add: wire_def)
    with 2(1) r show ?thesis by blast
  qed simp
qed

end


section \<open>A small system\<close>

text \<open>
  The agent's codec writes every label and the message, and refuses a time that no four-digit
  year holds.
\<close>

definition sample_marshal :: "log_record \<Rightarrow> go_error + string" where
  "sample_marshal r =
     (if rec_Timestamp r < - 62167219200000000000 \<or> rec_Timestamp r \<ge> 253402300800000000000
      then Inl (OtherError ''year outside of range [0,9999]'')
      else Inr ((if rec_Offset r = 10 then ''{'' else ''['') @ concat (map (\<lambda>(k, v). k @ v) (rec_Labels r)) @ rec_Message r @ ''}''))"

definition sample_agent :: "log_record set \<Rightarrow> mem agent_env" where
  "sample_agent R = \<lparr>ae_bolt = sample_bolt, ae_marshal = sample_marshal,
     ae_unmarshal = (\<lambda>raw. Inr (if take 1 raw = ''{'' then sample_record else later_record)),
     ae_cfg = sample_client_cfg, ae_records = R\<rparr>"

text \<open>Records of the two sample lines that fit.\<close>

definition sample_fits :: "log_record set \<Rightarrow> bool" where
  "sample_fits R \<longleftrightarrow> log_line ` R = {log_line sample_record, log_line later_record} \<and>
     (\<forall>r \<in> R. \<exists>raw. sample_marshal r = Inr raw \<and> length raw \<le> 10)"

lemma sample_offsets [simp]: "rec_Offset sample_record = 10" "rec_Offset later_record = 20" "rec_key later_record = rec_key sample_record"
  "rec_Message later_record = rec_Message sample_record"
  by (simp_all add: sample_record_def later_record_def)

lemma sample_fitsE:
  assumes "sample_fits R" and "r \<in> R"
  obtains raw where "sample_marshal r = Inr raw" "length raw \<le> 10" "log_line r \<in> {log_line sample_record, log_line later_record}"
    "take 1 raw = ''{'' \<longleftrightarrow> rec_Offset r = 10"
proof -
  from assms obtain raw where "sample_marshal r = Inr raw" "length raw \<le> 10" by (auto simp: sample_fits_def)
  moreover from assms have "log_line r \<in> {log_line sample_record, log_line later_record}" unfolding sample_fits_def by blast
  moreover from \<open>sample_marshal r = Inr raw\<close> have "take 1 raw = ''{'' \<longleftrightarrow> rec_Offset r = 10"
    by (auto simp: sample_marshal_def split: if_splits)
  ultimately show thesis by (rule that)
qed

lemma sample_agent_lines: "sample_fits R \<Longrightarrow> ae_lines (sample_agent R) = {log_line sample_record, log_line later_record}"
  by (simp add: ae_lines_def sample_agent_def sample_fits_def)

lemma sample_agent_ok:
  assumes "sample_fits R"
  shows "agent_ok (storable sample_good (\<lambda>x. False)) (sample_agent R)"
proof -
  have "\<exists>raw r'. ae_marshal (sample_agent R) r = Inr raw \<and> int (length raw) \<le> 10 \<and>
      ae_unmarshal (sample_agent R) raw = Inr r' \<and> log_line r' = log_line r \<and> storable sample_good (\<lambda>x. False) r'"
    if "r \<in> R" for r
  proof -
    from sample_fitsE [OF assms that] obtain raw where "sample_marshal r = Inr raw" "length raw \<le> 10"
      "log_line r \<in> {log_line sample_record, log_line later_record}" "take 1 raw = ''{'' \<longleftrightarrow> rec_Offset r = 10" .
    then show ?thesis using sample_storable
      by (intro exI [of _ raw] exI [of _ "if rec_Offset r = 10 then sample_record else later_record"])
        (auto simp: sample_agent_def log_line_def)
  qed
  moreover have "lines_ok {log_line sample_record, log_line later_record}" by (simp add: lines_ok_def log_line_def)
  ultimately show ?thesis using sample_bolt_ok sample_agent_lines [OF assms]
    by (simp add: agent_ok_def sample_agent_def sample_client_cfg_def ClientConfig_defaults_def)
qed

lemma sample_records_fit: "sample_fits {sample_record, later_record}"
  by (simp add: sample_fits_def sample_marshal_def) (simp add: later_record_def sample_record_def empty_record_def)

lemma sample_ckpt_empty: "Checkpoint_Get sample_bolt k [] = 0"
  by (simp add: Checkpoint_Get_def sample_bolt_def)

text \<open>The agent's part of a run: the record goes into the window, out on a connection and into the manager.\<close>

lemma sample_run_arrives:
  fixes s :: "('w, mem) system"
  assumes reach: "sys_reachable M (sample_agent R) w0 d0 s" and s: "sy_client s = NewClient sample_client_cfg" "sy_conns s = []"
      "sy_read s = (\<lambda>k. 0)" "sy_acks s = []"
    and m: "mg_hub (sy_mgr s) = Some (NewHub 4096)" "mg_accepted (sy_mgr s) = {}" "sp_received (mg_spool (sy_mgr s)) = Map.empty"
    and R: "sample_fits R" "q \<in> R" "log_line q = log_line sample_record"
  shows "\<exists>s'. sys_reachable M (sample_agent R) w0 d0 s' \<and> sy_conns s' = [\<lparr>cn_seen = [rec_key sample_record], cn_queue = []\<rparr>] \<and>
    sy_ckpt s' = sy_ckpt s \<and> sy_acks s' = [] \<and>
    sy_mgr s' = (sy_mgr s)\<lparr>mg_spool := accept_new 0 sample_record (mg_spool (sy_mgr s)), mg_accepted := {sample_record}\<rparr>"
proof -
  have q: "rec_key q = rec_key sample_record" "rec_Offset q = 10" using R(3) by (simp_all add: log_line_def)
  from sample_fitsE [OF R(1,2)] obtain raw where raw: "sample_marshal q = Inr raw" "length raw \<le> 10"
    "take 1 raw = ''{'' \<longleftrightarrow> rec_Offset q = 10" .
  let ?k = "rec_key sample_record" and ?A = "sample_agent R"
  let ?e = "envelope_of q raw"
  let ?c1 = "(NewClient sample_client_cfg)\<lparr>cl_unacked := [?e], cl_heldByte := int (length raw)\<rparr>"
  let ?c2 = "?c1\<lparr>cl_unacked := [?e\<lparr>en_sent := True\<rparr>]\<rparr>"
  let ?w = "(sy_mgr s)\<lparr>mg_spool := accept_new 0 sample_record (mg_spool (sy_mgr s)), mg_accepted := {sample_record}\<rparr>"
  let ?s1 = "s\<lparr>sy_client := ?c1, sy_read := (sy_read s)(?k := 10)\<rparr>"
  let ?s2 = "?s1\<lparr>sy_client := ?c1, sy_conns := [\<lparr>cn_seen = [], cn_queue = []\<rparr>], sy_live := True\<rparr>"
  let ?s3 = "?s2\<lparr>sy_client := ?c2, sy_conns := [\<lparr>cn_seen = [], cn_queue = [raw]\<rparr>]\<rparr>"
  let ?s4 = "?s3\<lparr>sy_conns := [\<lparr>cn_seen = [?k], cn_queue = []\<rparr>], sy_mgr := ?w\<rparr>"
  note step = sys_reachable.step
  have A: "ae_records ?A = R" "ae_marshal ?A q = Inr raw" "ae_unmarshal ?A raw = Inr sample_record"
    using raw q by (simp_all add: sample_agent_def)
  have new: "NewClient sample_client_cfg = \<lparr>cl_cfg = \<lparr>cc_MaxHeldBytes = 10, cc_HardMaxBytes = 20, cc_BatchBytes = 4,
      cc_BatchWait = 200000000, cc_Backoff = 1000000000\<rparr>, cl_unacked = [], cl_heldByte = 0, cl_dropped = 0,
      cl_closed = False, cl_commits = []\<rparr>"
    by (simp add: NewClient_def sample_client_cfg_def ClientConfig_defaults_def)
  have "Enqueue (ae_marshal ?A) q (sy_client s) = Enqueued ?c1"
    using raw(2) by (simp add: A s new Enqueue_def envelope_of_def)
  from sys_step.enqueue [where M = M, OF _ _ _ this] have "sys_step M ?A s ?s1"
    using R(2) q by (auto simp: A s sample_agent_lines [OF R(1)])
  note r1 = step [OF reach this]
  have "sys_step M ?A ?s1 ?s2" using sys_step.reconnect [of M ?A ?s1]
    by (simp add: s reset_window_def envelope_of_def new)
  note r2 = step [OF r1 this]
  have "collect_batch (cc_BatchBytes (cl_cfg (sy_client ?s2))) 0 (cl_unacked (sy_client ?s2)) = ([raw], [?e\<lparr>en_sent := True\<rparr>])"
    by (simp add: new envelope_of_def Let_def)
  from sys_step.send [where M = M and A = ?A and cs = "[]" and x = "\<lparr>cn_seen = [], cn_queue = []\<rparr>", OF _ _ this]
  have "sys_step M ?A ?s2 ?s3" by simp
  note r3 = step [OF r2 this]
  have "mgr_recv bare_runtime (ae_unmarshal ?A) ([], 0, raw) (cn_seen \<lparr>cn_seen = [], cn_queue = [raw]\<rparr>) (sy_mgr ?s3) = Some ([?k], ?w)"
    using m by (simp add: mgr_recv_def recv_record_def Accept_def duplicate_def A)
  from sys_step.recv [where M = M and A = ?A and cs = "[]" and x = "\<lparr>cn_seen = [], cn_queue = [raw]\<rparr>" and q = "[]" and s = ?s3,
      OF _ _ this]
  have "sys_step M ?A ?s3 ?s4" by simp
  note r4 = step [OF r3 this]
  then show ?thesis using s(4) by (intro exI [of _ ?s4]) simp
qed

text \<open>The manager's part: a seal, the acknowledgement and its commit.\<close>

lemma sample_run_committed:
  fixes s :: "('w, mem) system"
  assumes reach: "sys_reachable M (sample_agent R) w0 d0 s"
    and s: "sy_conns s = [\<lparr>cn_seen = [rec_key sample_record], cn_queue = []\<rparr>]" "sy_ckpt s = []"
    and w: "mg_flight (sy_mgr s) = []" "sp_buf (mg_spool (sy_mgr s)) = [sample_record]" "sp_committed (mg_spool (sy_mgr s)) = Map.empty"
    and M: "mc_seals M = 1" "mc_sort M = sort_key rec_Timestamp"
    and up: "mc_allowed M u [sample_record] (mg_world (sy_mgr s))" "mc_upload M u [sample_record] (mg_world (sy_mgr s)) = (None, st')"
  shows "\<exists>s'. sys_reachable M (sample_agent R) w0 d0 s' \<and> Checkpoint_Get sample_bolt (rec_key sample_record) (sy_ckpt s') = 10"
proof -
  let ?k = "rec_key sample_record" and ?A = "sample_agent R" and ?w = "sy_mgr s"
  let ?w1 = "?w\<lparr>mg_spool := (mg_spool ?w)\<lparr>sp_buf := [], sp_bufBytes := 0\<rparr>, mg_flight := [([sample_record], None)]\<rparr>"
  let ?w2 = "?w1\<lparr>mg_world := st', mg_flight := [([sample_record], Some True)]\<rparr>"
  let ?w3 = "?w2\<lparr>mg_spool := seal_commit (max_offsets [sample_record]) (mg_spool ?w1), mg_flight := []\<rparr>"
  let ?s3 = "s\<lparr>sy_mgr := ?w3\<rparr>"
  let ?a = "[(?k, 10)]"
  let ?s4 = "?s3\<lparr>sy_acks := ?a # sy_acks s\<rparr>"
  let ?s5 = "?s4\<lparr>sy_client := applyAck ?a (sy_client s), sy_ckpt := advance_all sample_bolt ?a []\<rparr>"
  note step = sys_reachable.step
  have "mgr_step M ?w ?w1" using take_step [of ?w M sample_record] w M by simp
  from sys_step.manager [of M s ?w1 ?A, OF this] have "sys_step M ?A s (s\<lparr>sy_mgr := ?w1\<rparr>)" by simp
  note r1 = step [OF reach this]
  have "mgr_step M ?w1 ?w2" using upload_step [of ?w1 "[]" "[sample_record]" "[]", OF _ _ up] by simp
  from sys_step.manager [of M "s\<lparr>sy_mgr := ?w1\<rparr>" ?w2 ?A] this
  have "sys_step M ?A (s\<lparr>sy_mgr := ?w1\<rparr>) (s\<lparr>sy_mgr := ?w2\<rparr>)" by simp
  note r2 = step [OF r1 this]
  have "mgr_step M ?w2 ?w3" using commit_step [of ?w2 "[]" "[sample_record]" "[]"] by simp
  from sys_step.manager [of M "s\<lparr>sy_mgr := ?w2\<rparr>" ?w3 ?A] this
  have "sys_step M ?A (s\<lparr>sy_mgr := ?w2\<rparr>) ?s3" by simp
  note r3 = step [OF r2 this]
  have "Committed (mg_spool ?w3) = [?k \<mapsto> 10]"
    using sample_commit [of sample_record "mg_spool ?w1"] w(3) by (simp add: Committed_def sample_record_def)
  then have a: "Stream_ack [?k] (mg_spool ?w3) = Some ?a" by (simp add: Stream_ack_def buildAck_def)
  from sys_step.ack [of _ ?s3 "[?k]" ?a M ?A] a have "sys_step M ?A ?s3 ?s4" by (simp add: s)
  note r4 = step [OF r3 this]
  from sys_step.deliver [of ?a ?s4 M ?A] have "sys_step M ?A ?s4 ?s5" by (simp add: s sample_agent_def)
  note r5 = step [OF r4 this]
  have entries: "\<forall>c \<in> set [(?k, 10)]. in_int64 (snd c) \<and> 0 \<le> snd c" by (simp add: in_int64_def)
  have "10 \<le> Checkpoint_Get sample_bolt ?k (advance_all sample_bolt [(?k, 10)] [])"
    by (rule advance_all_reaches [OF sample_bolt_ok entries]) (simp_all add: sample_bolt_def)
  with advance_all_bounds [OF sample_bolt_ok entries, of ?k "[]"] sample_ckpt_empty [of ?k]
  have "Checkpoint_Get sample_bolt ?k (sy_ckpt ?s5) = 10" by auto
  with r5 show ?thesis by blast
qed


lemma sample_delivered:
  assumes "sample_fits R"
  shows "\<exists>meta s. sys_reachable (sample_machine meta 1) (sample_agent R) (sample_store []) [] s \<and>
    Checkpoint_Get sample_bolt (rec_key sample_record) (sy_ckpt s) = 10"
proof -
  obtain meta body where ws: "write_segment sample_codec mem_writer 0 [sample_record] = Inr (meta, body)"
    "length body < 2 ^ 31" using sample_write by blast
  let ?M = "sample_machine meta 1"
  obtain st sp where st: "mc_restart ?M [] (sample_store []) (st, sp)" "st_blobs st = ([], [])"
    and sp: "sp_buf sp = []" "sp_received sp = Map.empty" "sp_committed sp = Map.empty" using sample_start by blast
  let ?w = "\<lparr>mg_spool = sp, mg_hub = Some (NewHub 4096), mg_world = st, mg_flight = [], mg_accepted = {}\<rparr>"
  let ?s0 = "\<lparr>sy_client = NewClient sample_client_cfg, sy_conns = [], sy_live = False, sy_acks = [], sy_mgr = ?w,
      sy_ckpt = [], sy_read = (\<lambda>k. 0)\<rparr>"
  have "sys_reachable ?M (sample_agent R) (sample_store []) [] ?s0"
    using sys_reachable.start [OF st(1), of "sample_agent R" "[]"] by (simp add: sample_agent_def sample_ckpt_empty)
  moreover from assms obtain q where "q \<in> R" "log_line q = log_line sample_record" unfolding sample_fits_def by (metis imageE insertI1)
  ultimately obtain s1 where
    s1: "sys_reachable ?M (sample_agent R) (sample_store []) [] s1" "sy_conns s1 = [\<lparr>cn_seen = [rec_key sample_record], cn_queue = []\<rparr>]"
      "sy_ckpt s1 = []" "sy_mgr s1 = ?w\<lparr>mg_spool := accept_new 0 sample_record sp, mg_accepted := {sample_record}\<rparr>"
    using sample_run_arrives [of ?M R "sample_store []" "[]" ?s0 q] sp assms by auto
  obtain st' where up: "mc_upload ?M (sample_io False, ''/w/A'') [sample_record] st = (None, st')"
    using sample_upload(4) [OF ws st(2)] by blast
  have "mc_seals ?M = 1" "mc_sort ?M = sort_key rec_Timestamp" by (simp_all add: sample_machine_def manager_machine_def)
  from sample_run_committed [OF s1(1-3) _ _ _ this, of "(sample_io False, ''/w/A'')" st'] up sample_upload(3) [OF ws st(2)]
  obtain s where s: "sys_reachable ?M (sample_agent R) (sample_store []) [] s" "Checkpoint_Get sample_bolt (rec_key sample_record) (sy_ckpt s) = 10"
    using sp by (auto simp: s1(4) accept_new_def)
  then show ?thesis by blast
qed

lemma sample_sources_new:
  "(k, v) \<in> sealed_tops (s3_env (sample_env m) sample_s3) (sample_bucket (st_blobs (sample_store []))) \<Longrightarrow> k \<notin> ks"
  by (simp add: sealed_tops_def sealed_in_def sample_store_def)


section \<open>Properties\<close>

text \<open>
  C1: no line is lost between the file and the bucket, as long as one seal runs at a time.  Take any
  run of an agent and a manager with the production store and at most one seal in flight, with
  broken connections, handlers of old sessions that still run, lost and repeated
  acknowledgements, agents and managers killed at any point, failed uploads and restarts.  Then
  every line of the agent's files up to the checkpoint of its source is in a sealed segment
  of the bucket, and every line up to where its tail has read is there or in the client's window,
  from where it is sent again.  The sources are new to the store, and the records that the tails
  hand over can be encoded, fit between the caps of the client and keep their line on the wire.
\<close>

theorem checkpointed_lines_are_durable:
  fixes M
  assumes "s3_wok srt E K bucket key_of staged gr gn good st"
    and "M = manager_machine srt cfg 1 (s3_env E K) bucket good (storable gr gn)"
    and "agent_ok (storable gr gn) A"
    and "\<And>k v. (k, v) \<in> sealed_tops (s3_env E K) (bucket (st_blobs st)) \<Longrightarrow> k \<notin> line_key ` ae_lines A"
    and "\<And>k. Checkpoint_Get (ae_bolt A) k d0 = 0"
    and "sys_reachable M A st d0 s" and "y \<in> ae_lines A"
  shows "(line_end y \<le> Checkpoint_Get (ae_bolt A) (line_key y) (sy_ckpt s) \<longrightarrow>
      y \<in> log_line ` durable_records (s3_env E K) (bucket (st_blobs (mg_world (sy_mgr s))))) \<and>
    (line_end y \<le> sy_read s (line_key y) \<longrightarrow>
      y \<in> log_line ` durable_records (s3_env E K) (bucket (st_blobs (mg_world (sy_mgr s)))) \<or>
      (\<exists>e r. e \<in> set (cl_unacked (sy_client s)) \<and> ae_unmarshal A (en_raw e) = Inr r \<and> log_line r = y))"
proof -
  have M: "mc_seals M = 1" "mc_record M = storable gr gn" by (simp_all add: assms(2) manager_machine_def)
  note d = s3_watermarks.lines_delivered [OF assms(6) [unfolded assms(2)] assms(1) M(1) [unfolded assms(2)], folded assms(2)]
  show ?thesis using d [unfolded M(2), OF assms(3) _ assms(5,7)] assms(4) by blast
qed

theorem checkpointed_lines_are_durable_witness:
  "\<exists>meta s. sys_reachable (sample_machine meta 1) (sample_agent {sample_record, later_record}) (sample_store []) [] s \<and>
    Checkpoint_Get sample_bolt (rec_key sample_record) (sy_ckpt s) = 10 \<and>
    log_line sample_record \<in> log_line ` durable_records (sample_env (sample_keyed meta)) (sample_bucket (st_blobs (mg_world (sy_mgr s))))"
proof -
  obtain meta s where s: "sys_reachable (sample_machine meta 1) (sample_agent {sample_record, later_record}) (sample_store []) [] s"
    "Checkpoint_Get sample_bolt (rec_key sample_record) (sy_ckpt s) = 10" using sample_delivered [OF sample_records_fit] by blast
  let ?A = "sample_agent {sample_record, later_record}"
  have A: "ae_bolt ?A = sample_bolt" "log_line sample_record \<in> ae_lines ?A" by (simp_all add: sample_agent_def ae_lines_def)
  from checkpointed_lines_are_durable [OF sample_wok sample_machine_alt sample_agent_ok [OF sample_records_fit] sample_sources_new _ s(1) A(2)] s(2)
  have "log_line sample_record \<in> log_line ` durable_records (sample_env (sample_keyed meta)) (sample_bucket (st_blobs (mg_world (sy_mgr s))))"
    unfolding A(1) by (simp add: sample_ckpt_empty)
  with s show ?thesis by blast
qed

end
