(* ===== verification/Pipeline.thy ===== *)
theory Pipeline
  imports Tailer Delivery
begin

text \<open>
  The tails of \<open>internal/tailer/tailer.go\<close> in front of the system of \<open>Delivery\<close>: the lines are those
  of the container logs, and a tail that starts at the checkpoint reads every line that is not
  durable.
\<close>


section \<open>The lines of a set of files\<close>

text \<open>A file is the pod and source it belongs to and its contents.\<close>

definition file_lines :: "runtime \<Rightarrow> (PodInfo \<times> source \<times> string) list \<Rightarrow> line set" where
  "file_lines rt files = (\<Union>(pod, src, f) \<in> set files. log_line ` set (file_records rt pod src f))"

text \<open>
  The records that the tails of these files hand to the client: those of the file, each with the
  metadata of its pod in some state of the enricher, or as it is where there is no enricher.
\<close>

definition sent_records :: "runtime \<Rightarrow> Enricher option set \<Rightarrow> (PodInfo \<times> source \<times> string) list \<Rightarrow> log_record set" where
  "sent_records rt enrs files =
     (\<Union>(pod, src, f) \<in> set files. \<Union>enr \<in> enrs. enriched enr (pi_UID pod) ` set (file_records rt pod src f))"

lemma sent_records_lines:
  assumes "enrs \<noteq> {}"
  shows "log_line ` sent_records rt enrs files = file_lines rt files"
proof -
  have "log_line (enriched enr uid r) = log_line r" for enr uid r by (simp add: log_line_def)
  then have "log_line ` (\<Union>enr \<in> enrs. enriched enr uid ` R) = log_line ` R" for uid R
    using assms by (auto simp: image_iff)
  then show ?thesis by (auto simp: sent_records_def file_lines_def image_UN split_beta)
qed

lemma file_record:
  assumes "r \<in> set (file_records rt pod src f)"
  shows "rec_Source r = src" and "0 < rec_Offset r" and "rec_Offset r \<le> int (length f)"
proof -
  obtain rs ft' where f: "feed rt (complete_lines f) (new_tail [] pod src 0) = (rs, ft')"
    by (cases "feed rt (complete_lines f) (new_tail [] pod src 0)")
  with assms have r: "r \<in> set rs" by (simp add: file_records_def)
  from feed_offsets [OF f] r lines_size_le [of f]
  show "rec_Source r = src" "0 < rec_Offset r" "rec_Offset r \<le> int (length f)" by force+
qed

lemma file_record_unique:
  assumes "r \<in> set (file_records rt pod src f)" and "q \<in> set (file_records rt pod src f)" and "rec_Offset r = rec_Offset q"
  shows "r = q"
proof -
  obtain rs ft' where f: "feed rt (complete_lines f) (new_tail [] pod src 0) = (rs, ft')"
    by (cases "feed rt (complete_lines f) (new_tail [] pod src 0)")
  from feed_offsets [OF f] have "sorted_wrt (<) (map rec_Offset rs)" by (simp add: sorted_wrt_map)
  then have "distinct (map rec_Offset rs)" by (simp add: strict_sorted_iff)
  with assms f show ?thesis by (auto simp: file_records_def distinct_map dest: inj_onD)
qed

abbreviation file_key :: "PodInfo \<times> source \<times> string \<Rightarrow> string" where
  "file_key x \<equiv> Key (fst (snd x))"

lemma file_line_of:
  assumes "distinct (map file_key files)" and "(pod, src, f) \<in> set files" and "y \<in> file_lines rt files" and "line_key y = Key src"
  obtains r where "r \<in> set (file_records rt pod src f)" and "y = log_line r"
proof -
  from assms(3) obtain pod' src' f' r where x: "(pod', src', f') \<in> set files" "r \<in> set (file_records rt pod' src' f')" "y = log_line r"
    by (auto simp: file_lines_def)
  then have "file_key (pod', src', f') = file_key (pod, src, f)" using assms(4) file_record(1) [OF x(2)] by simp
  with assms(1,2) x(1) have "(pod', src', f') = (pod, src, f)" by (metis distinct_map inj_onD)
  with x that show thesis by simp
qed

lemma file_lines_ok:
  assumes "distinct (map file_key files)" and "\<forall>(pod, src, f) \<in> set files. length f < 2 ^ 63"
  shows "lines_ok (file_lines rt files)"
proof -
  have "y = z" if yz: "y \<in> file_lines rt files" "z \<in> file_lines rt files" "line_key y = line_key z" "line_end y = line_end z" for y z
  proof -
    from yz(1) obtain pod src f r where x: "(pod, src, f) \<in> set files" "r \<in> set (file_records rt pod src f)" "y = log_line r"
      by (auto simp: file_lines_def)
    have "line_key z = Key src" using yz(3) x(3) file_record(1) [OF x(2)] by simp
    from file_line_of [OF assms(1) x(1) yz(2) this] obtain q where q: "q \<in> set (file_records rt pod src f)" "z = log_line q" .
    with x yz(4) file_record_unique [OF x(2) q(1)] show ?thesis by simp
  qed
  moreover have "0 < line_end y \<and> line_end y < 2 ^ 63" if y: "y \<in> file_lines rt files" for y
  proof -
    from y obtain pod src f r where x: "(pod, src, f) \<in> set files" "r \<in> set (file_records rt pod src f)" "y = log_line r"
      by (auto simp: file_lines_def)
    have "length f < 2 ^ 63" using assms(2) x(1) by auto
    with file_record(2,3) [OF x(2)] x(3) show ?thesis by simp
  qed
  ultimately show ?thesis unfolding lines_ok_def by blast
qed


section \<open>Files that have grown\<close>

lemma complete_lines_shorter:
  "complete_lines g = ls @ ms \<Longrightarrow> prefix f g \<Longrightarrow> lines_size ls \<le> length f \<Longrightarrow> \<exists>ks. complete_lines f = ls @ ks"
proof (induction ls arbitrary: f g)
  case (Cons l ls)
  then have "NL \<in> set g" by (cases "NL \<in> set g") (simp_all add: complete_lines_none)
  from complete_lines_step [OF this] Cons.prems(1) obtain t where g: "g = l @ NL # t" "NL \<notin> set l" "complete_lines t = ls @ ms"
    by auto
  have "length (l @ [NL]) \<le> length f" using Cons.prems(3) by simp
  moreover have "prefix (l @ [NL]) g" unfolding g by simp
  ultimately have "prefix (l @ [NL]) f" using Cons.prems(2) prefix_length_prefix by blast
  then obtain u where f: "f = l @ NL # u" by (auto simp: prefix_def)
  have "NL \<in> set f" using f by simp
  from complete_lines_step [OF this] obtain k t' where k: "f = k @ NL # t'" "NL \<notin> set k" "complete_lines f = k # complete_lines t'" by blast
  have first: "takeWhile (\<lambda>c. c \<noteq> NL) (xs @ NL # ys) = xs" if "NL \<notin> set xs" for xs ys
    using that by (induction xs) auto
  have "k = l" using first [OF k(2), of t'] first [OF g(2), of u] f k(1) by simp
  with f k(1) have "k = l \<and> t' = u" by simp
  moreover have "prefix u t" using Cons.prems(2) f g(1) by simp
  moreover have "lines_size ls \<le> length u" using Cons.prems(3) f by simp
  ultimately show ?case using Cons.IH [OF g(3)] k(3) by auto
qed simp

lemma record_end_shorter:
  assumes "record_end off (file_records rt pod src g)" and "prefix f g" and "off \<le> int (length f)"
  shows "record_end off (file_records rt pod src f)"
proof (cases "off = 0")
  case False
  with assms(1) obtain r where r: "r \<in> set (file_records rt pod src g)" "off = rec_Offset r" by (auto simp: record_end_def)
  obtain rs ft' where g: "feed rt (complete_lines g) (new_tail [] pod src 0) = (rs, ft')"
    by (cases "feed rt (complete_lines g) (new_tail [] pod src 0)")
  then have "r \<in> set rs" using r(1) by (simp add: file_records_def)
  from feed_split [OF g this] obtain ls1 ls2 rs1 ft1 where sp: "complete_lines g = ls1 @ ls2"
    "feed rt ls1 (new_tail [] pod src 0) = (rs1 @ [r], ft1)" "rec_Offset r = ft_offset ft1" by blast
  have "off = int (lines_size ls1)" using feed_keeps [OF sp(2)] r(2) sp(3) by simp
  with assms(3) have "lines_size ls1 \<le> length f" by simp
  from complete_lines_shorter [OF sp(1) assms(2) this] obtain ks where "complete_lines f = ls1 @ ks" by blast
  then have "r \<in> set (file_records rt pod src f)" using sp(2) by (simp add: file_records_def feed_append split: prod.split)
  with r(2) show ?thesis by (simp add: record_end_def)
qed (simp add: record_end_def)


section \<open>Properties\<close>

text \<open>
  C2: every line of a container log is in the bucket or read again.  In any run of the agent and
  the manager, let a scan start a tail of a file at the checkpoint as it is then, and let the file
  be no shorter than that offset.  Then the checkpoint is the end of a record, and every record of
  the file is in a sealed segment or among those the tail hands to the client.  One seal runs
  at a time; what is asked of the codec and the caps is asked of the records that the tails send.
\<close>

theorem lines_durable_or_read_again:
  fixes M
  assumes "s3_wok srt E K bucket key_of staged gr gn good st"
    and "M = manager_machine srt cfg 1 (s3_env E K) bucket good (storable gr gn)"
    and "agent_ok (storable gr gn) A" and "ae_records A = sent_records rt enrs files" and "enrs \<noteq> {}" and "distinct (map file_key files)"
    and "\<And>k v. (k, v) \<in> sealed_tops (s3_env E K) (bucket (st_blobs st)) \<Longrightarrow> k \<notin> line_key ` ae_lines A"
    and "\<And>k. Checkpoint_Get (ae_bolt A) k d0 = 0" and "sys_reachable M A st d0 s"
    and "cp = (\<lambda>k. Checkpoint_Get (ae_bolt A) k (sy_ckpt s))" and "discover_path cp pr t = Some ft"
    and "(ft_pod ft, ft_src ft, pl_last p) \<in> set files" and "ft_offset ft \<le> int (length (pl_file (hd (qs @ [p]))))"
    and "ti_open io = None" and "ti_seek io" and "ti_ingest io"
    and "case ti_await io of None \<Rightarrow> True | Some (rdy, now, ws) \<Rightarrow> awaitMetadata (tl_cfg t) rdy now ws = Some True"
    and "ti_polls io = qs @ [p]" and "list_all (\<lambda>q. calm q \<and> \<not> rotatedOrGone (pl_stat q) ft) qs"
    and "calm p" and "rotatedOrGone (pl_stat p) ft"
    and "sorted_wrt prefix (map pl_file qs @ [pl_file p, pl_last p])"
  shows "record_end (ft_offset ft) (file_records rt (ft_pod ft) (ft_src ft) (pl_last p)) \<and>
    set (file_records rt (ft_pod ft) (ft_src ft) (pl_last p)) \<subseteq>
      {r. log_line r \<in> log_line ` durable_records (s3_env E K) (bucket (st_blobs (mg_world (sy_mgr s))))} \<union>
      set (fst (tail_run rt (tl_cfg t) io ft))"
proof -
  let ?k = "Key (ft_src ft)" and ?rs = "file_records rt (ft_pod ft) (ft_src ft) (pl_last p)"
  have M: "mc_seals M = 1" "mc_record M = storable gr gn" by (simp_all add: assms(2) manager_machine_def)
  have off: "ft_offset ft = Checkpoint_Get (ae_bolt A) ?k (sy_ckpt s)"
    using arg_cong [OF conjunct1 [OF discover_path_new [OF assms(11)]], of ft_offset] by (simp add: assms(10))
  have lines: "ae_lines A = file_lines rt files"
    using sent_records_lines [OF assms(5)] by (simp add: ae_lines_def assms(4))
  note d = s3_watermarks.lines_delivered [OF assms(9) [unfolded assms(2)] assms(1) M(1) [unfolded assms(2)], folded assms(2),
      unfolded M(2), OF assms(3) _ assms(8)]
  have line: "log_line r \<in> ae_lines A" "line_key (log_line r) = ?k" if "r \<in> set ?rs" for r
    using that lines assms(12) file_record(1) [OF that] by (auto simp: file_lines_def)
  have "record_end (ft_offset ft) ?rs"
  proof (cases "ft_offset ft = 0")
    case False
    have "ends_line (ae_lines A) ?k (ft_offset ft)"
      using s3_watermarks.ckpt_ends [OF assms(9) [unfolded assms(2)] assms(1) M(1) [unfolded assms(2)], folded assms(2),
        unfolded M(2), OF assms(3) _ assms(8), of ?k] assms(7) False off by auto
    then obtain y where y: "y \<in> ae_lines A" "line_key y = ?k" "line_end y = ft_offset ft" by (auto simp: ends_line_def)
    from file_line_of [OF assms(6,12) y(1) [unfolded lines] y(2)] obtain r where "r \<in> set ?rs" "y = log_line r" .
    with y(3) have "ft_offset ft \<in> rec_Offset ` set ?rs" by force
    then show ?thesis by (simp add: record_end_def)
  qed (simp add: record_end_def)
  moreover have "prefix (pl_file (hd (qs @ [p]))) (pl_last p)"
    using assms(22) by (cases qs) auto
  ultimately have start: "record_end (ft_offset ft) (file_records rt (ft_pod ft) (ft_src ft) (pl_file (hd (qs @ [p]))))"
    using record_end_shorter assms(13) by blast
  have cpk: "cp ?k = ft_offset ft" by (simp add: off assms(10))
  have out: "fst (tail_run rt (tl_cfg t) io ft) = filter (\<lambda>r. ft_offset ft < rec_Offset r) ?rs"
    by (rule tail_run_records [OF assms(11) cpk [symmetric] assms(14-22) start])
  have "log_line r \<in> log_line ` durable_records (s3_env E K) (bucket (st_blobs (mg_world (sy_mgr s))))"
    if r: "r \<in> set ?rs" "\<not> ft_offset ft < rec_Offset r" for r
    using d(1) [OF _ line(1) [OF r(1)]] assms(7) r(2) line(2) [OF r(1)] off by auto
  with \<open>record_end (ft_offset ft) ?rs\<close> out show ?thesis by auto
qed

text \<open>A file of two lines, of which the first is durable.\<close>

definition sample_file :: string where
  "sample_file = ''T st F hi'' @ [NL] @ ''T st F hi'' @ [NL]"

definition sample_pod :: PodInfo where
  "sample_pod = \<lparr>pi_Namespace = ''d'', pi_Pod = ''p'', pi_UID = ''u'', pi_Container = ''c''\<rparr>"

lemma sample_file_records:
  obtains x y where "file_records cri_runtime sample_pod sample_source sample_file = [x, y]"
    "log_line x = log_line sample_record" "log_line y = log_line later_record"
    "rec_Message x = ''hi''" "rec_Message y = ''hi''" "rec_Labels x = []" "rec_Labels y = []" "rec_Timestamp x = 7" "rec_Timestamp y = 7"
proof -
  have "map (\<lambda>r. (rec_Source r, rec_Offset r, rec_Message r, rec_Labels r, rec_Timestamp r))
      (file_records cri_runtime sample_pod sample_source sample_file) =
      [(sample_source, 10, ''hi'', [], 7), (sample_source, 20, ''hi'', [], 7)]" by code_simp
  then show thesis
    by (auto simp: map_eq_Cons_conv log_line_def sample_record_def later_record_def intro!: that)
qed

lemma sample_file_lines: "file_lines cri_runtime [(sample_pod, sample_source, sample_file)] = {log_line sample_record, log_line later_record}"
  by (rule sample_file_records) (simp add: file_lines_def)

text \<open>The tails start before the pod's metadata is known and go on with its label.\<close>

definition sample_enrichers :: "Enricher option set" where
  "sample_enrichers = {Some (Enricher_New []), Some (upsert (Some \<lparr>po_UID = ''u'', po_Labels = [(''a'', ''b'')], po_Annotations = [],
     po_NodeName = ''n'', po_Containers = [], po_ContainerStatuses = []\<rparr>) (Enricher_New []))}"

abbreviation sample_sent :: "log_record set" where
  "sample_sent \<equiv> sent_records cri_runtime sample_enrichers [(sample_pod, sample_source, sample_file)]"

lemma sample_sent_fit: "sample_fits sample_sent"
proof -
  have lines: "log_line ` sample_sent = {log_line sample_record, log_line later_record}"
    using sent_records_lines [of sample_enrichers] sample_file_lines by (simp add: sample_enrichers_def)
  obtain x y where r: "file_records cri_runtime sample_pod sample_source sample_file = [x, y]"
    "rec_Message x = ''hi''" "rec_Message y = ''hi''" "rec_Labels x = []" "rec_Labels y = []" "rec_Timestamp x = 7" "rec_Timestamp y = 7"
    by (rule sample_file_records)
  have "\<exists>raw. sample_marshal (enriched enr ''u'' r) = Inr raw \<and> length raw \<le> 10"
    if "enr \<in> sample_enrichers" "r \<in> {x, y}" for enr r
    using that r by (auto simp: sample_enrichers_def enriched_def Enricher_New_def upsert_def Enrich_def images_of_def
        sample_marshal_def Let_def split: option.split)
  then have "\<exists>raw. sample_marshal q = Inr raw \<and> length raw \<le> 10" if "q \<in> sample_sent" for q
    using that r(1) by (auto simp: sent_records_def sample_pod_def)
  with lines show ?thesis by (simp add: sample_fits_def)
qed

lemma sample_discover_at:
  "discover_path cp sample_probe sample_tailer = Some (new_tail (pb_path sample_probe) sample_pod sample_source (cp (Key sample_source)))"
  by (simp add: discover_path_def sample_probe_def sample_tailer_def Tailer_New_def TailConfig_defaults_def sample_pod_def
      parsePath_def sourceFromStat_def statBirthNano_def new_tail_def sample_source_def eval_nat_numeral Let_def)

theorem lines_durable_or_read_again_witness:
  "\<exists>meta s. sys_reachable (sample_machine meta 1) (sample_agent sample_sent) (sample_store []) [] s \<and>
    Checkpoint_Get sample_bolt (Key sample_source) (sy_ckpt s) = 10 \<and>
    set (file_records cri_runtime sample_pod sample_source sample_file) \<subseteq>
      {r. log_line r \<in> log_line ` durable_records (sample_env (sample_keyed meta)) (sample_bucket (st_blobs (mg_world (sy_mgr s))))} \<union>
      set (fst (tail_run cri_runtime (tl_cfg sample_tailer) \<lparr>ti_open = None, ti_seek = True, ti_await = None, ti_ingest = True,
        ti_polls = [sample_poll True sample_file sample_file]\<rparr> (new_tail (pb_path sample_probe) sample_pod sample_source 10)))"
proof -
  have key: "rec_key sample_record = Key sample_source" by (simp add: sample_record_def)
  obtain meta s where s: "sys_reachable (sample_machine meta 1) (sample_agent sample_sent) (sample_store []) [] s"
    "Checkpoint_Get sample_bolt (Key sample_source) (sy_ckpt s) = 10" using sample_delivered [OF sample_sent_fit] unfolding key by blast
  have bolt: "ae_bolt (sample_agent sample_sent) = sample_bolt" by (simp add: sample_agent_def)
  let ?cp = "\<lambda>k. Checkpoint_Get (ae_bolt (sample_agent sample_sent)) k (sy_ckpt s)"
  let ?ft = "new_tail (pb_path sample_probe) sample_pod sample_source 10"
  have ft: "discover_path ?cp sample_probe sample_tailer = Some ?ft"
    using sample_discover_at [of ?cp] s(2) by (simp add: bolt)
  have len: "length sample_file = 20" by (simp add: sample_file_def)
  have poll: "calm (sample_poll True sample_file sample_file)" "rotatedOrGone (pl_stat (sample_poll True sample_file sample_file)) ?ft"
    by (simp_all add: sample_poll_def calm_def rotatedOrGone_def)
  let ?io = "\<lparr>ti_open = None, ti_seek = True, ti_await = None, ti_ingest = True, ti_polls = [sample_poll True sample_file sample_file]\<rparr>"
  have sel: "ft_pod ?ft = sample_pod" "ft_src ?ft = sample_source" "ft_offset ?ft = 10"
    "pl_last (sample_poll True sample_file sample_file) = sample_file" "pl_file (sample_poll True sample_file sample_file) = sample_file"
    by (simp_all add: sample_poll_def)
  have new: "Checkpoint_Get (ae_bolt (sample_agent sample_sent)) k [] = 0" for k by (simp add: bolt sample_ckpt_empty)
  have records: "ae_records (sample_agent sample_sent) = sample_sent" and some: "sample_enrichers \<noteq> {}"
    by (simp_all add: sample_agent_def sample_enrichers_def)
  note all = lines_durable_or_read_again [OF sample_wok sample_machine_alt sample_agent_ok [OF sample_sent_fit] records some _
      sample_sources_new new s(1) refl ft, where p = "sample_poll True sample_file sample_file" and qs = "[]" and io = ?io]
  from all poll have "set (file_records cri_runtime sample_pod sample_source sample_file) \<subseteq>
      {r. log_line r \<in> log_line ` durable_records (sample_env (sample_keyed meta)) (sample_bucket (st_blobs (mg_world (sy_mgr s))))} \<union>
      set (fst (tail_run cri_runtime (tl_cfg sample_tailer) ?io ?ft))"
    unfolding sel by (simp add: sel len)
  with s show ?thesis by blast
qed

end
