(* ===== verification/Commands.thy ===== *)
theory Commands
  imports Settings Pipeline
begin

text \<open>
  The two \<open>main\<close> functions, \<open>cmd/agent/main.go\<close> and \<open>cmd/manager/main.go\<close>: the start of each program
  up to the point where its goroutines run, and the end of the agent after a signal.  The command
  line is a function on the settings, which package \<open>flag\<close> applies to the defaults.
\<close>


section \<open>The agent's start\<close>

record agent_flags =
  af_managerAddr :: string
  af_logRoot :: string
  af_checkpoint :: string
  af_nodeName :: string
  af_maxHeld :: int
  af_enrichK8s :: bool
  af_excludeNS :: string
  af_ownNS :: string
  af_excludeAnno :: string
  af_metaWait :: int

definition agent_defaults :: "(string \<Rightarrow> int option) \<Rightarrow> (string \<rightharpoonup> string) \<Rightarrow> agent_flags" where
  "agent_defaults pd e = \<lparr>
     af_managerAddr = env_or e ''SL_MANAGER_ADDR'' ''simplelog-manager:9000'',
     af_logRoot = env_or e ''SL_LOG_ROOT'' ''/var/log/pods'',
     af_checkpoint = env_or e ''SL_CHECKPOINT'' ''/var/lib/simplelog/checkpoint.db'',
     af_nodeName = env_or e ''NODE_NAME'' [],
     af_maxHeld = envInt64 e ''SL_MAX_HELD_BYTES'' 67108864,
     af_enrichK8s = (getenv e ''SL_ENRICH'' \<noteq> ''false''),
     af_excludeNS = env_or e ''SL_EXCLUDE_NAMESPACES'' [],
     af_ownNS = env_or e ''POD_NAMESPACE'' [],
     af_excludeAnno = env_or e ''SL_EXCLUDE_ANNOTATION'' ''simplelog.io/ingest'',
     af_metaWait = envDuration pd e ''SL_METADATA_WAIT'' 30000000000\<rparr>"

record 'd agent =
  ag_ckpt :: 'd
  ag_client :: client
  ag_enr :: "Enricher option"
  ag_tailer :: Tailer

text \<open>
  \<open>file\<close> gives the contents of the checkpoint file, \<open>newInCluster\<close> is \<open>enrich.NewInCluster\<close>.  A start that
  ends in \<open>log.Fatal\<close> is an error.
\<close>

definition agent_start ::
  "'d bolt \<Rightarrow> (string \<Rightarrow> string option) \<Rightarrow> (string \<Rightarrow> string \<Rightarrow> go_error + Enricher) \<Rightarrow> agent_flags \<Rightarrow> go_error + 'd agent" where
  "agent_start D file newInCluster f =
     (if af_nodeName f = [] then Inl (OtherError ''NODE_NAME (or -node) is required'')
      else
        rbind (OpenCheckpoint D (file (af_checkpoint f))) (\<lambda>d.
        rbind (if af_enrichK8s f then rbind (newInCluster (af_nodeName f) (af_excludeAnno f)) (\<lambda>x. Inr (Some x)) else Inr None) (\<lambda>enr.
        Inr \<lparr>ag_ckpt = d, ag_client = agent_client (af_maxHeld f), ag_enr = enr,
          ag_tailer = agent_tailer (af_logRoot f) (af_nodeName f) (af_excludeNS f) (af_ownNS f) (af_metaWait f)\<rparr>)))"


section \<open>The manager's start\<close>

record manager_flags =
  mf_ingestAddr :: string
  mf_httpAddr :: string
  mf_baseDir :: string
  mf_managerID :: string
  mf_segBytes :: int
  mf_segAge :: int
  mf_cacheBytes :: int
  mf_s3Bucket :: string
  mf_s3Domain :: string
  mf_s3Region :: string
  mf_s3Proto :: string
  mf_s3Path :: bool

definition manager_defaults :: "(string \<Rightarrow> int option) \<Rightarrow> (string \<rightharpoonup> string) \<Rightarrow> manager_flags" where
  "manager_defaults pd e = \<lparr>
     mf_ingestAddr = env_or e ''SL_INGEST_ADDR'' '':9000'',
     mf_httpAddr = env_or e ''SL_HTTP_ADDR'' '':8080'',
     mf_baseDir = env_or e ''SL_BASE_DIR'' ''/data'',
     mf_managerID = env_or e ''SL_MANAGER_ID'' ''mgr1'',
     mf_segBytes = envInt64 e ''SL_SEG_BYTES'' 67108864,
     mf_segAge = envDuration pd e ''SL_SEG_AGE'' 300000000000,
     mf_cacheBytes = envInt64 e ''SL_CACHE_BYTES'' 2147483648,
     mf_s3Bucket = env_or e ''SL_S3_BUCKET'' [],
     mf_s3Domain = env_or e ''SL_S3_DOMAIN'' ''s3.amazonaws.com'',
     mf_s3Region = env_or e ''SL_S3_REGION'' ''us-east-1'',
     mf_s3Proto = env_or e ''SL_S3_PROTOCOL'' ''https'',
     mf_s3Path = (getenv e ''SL_S3_PATH_STYLE'' = ''true'')\<rparr>"

definition manager_s3_config :: "(string \<rightharpoonup> string) \<Rightarrow> manager_flags \<Rightarrow> S3Config" where
  "manager_s3_config e f = \<lparr>s3c_AccessKeyID = getenv e ''SL_S3_ACCESS_KEY'', s3c_SecretAccessKey = getenv e ''SL_S3_SECRET_KEY'',
     s3c_Region = mf_s3Region f, s3c_Bucket = mf_s3Bucket f, s3c_Domain = mf_s3Domain f, s3c_Protocol = mf_s3Proto f,
     s3c_UsePathBuckets = mf_s3Path f\<rparr>"

definition manager_spool_config :: "manager_flags \<Rightarrow> SpoolConfig" where
  "manager_spool_config f = \<lparr>sc_WorkDir = mf_baseDir f @ ''/work'', sc_MaxSegBytes = mf_segBytes f, sc_MaxSegAge = mf_segAge f\<rparr>"

text \<open>The settings of the store within its surroundings.\<close>

definition manager_env :: "manager_flags \<Rightarrow> ('c, 'd) env \<Rightarrow> ('c, 'd) env" where
  "manager_env f E = E\<lparr>env_ManagerID := mf_managerID f, env_BaseDir := mf_baseDir f, env_CacheMaxByte := mf_cacheBytes f\<rparr>"

text \<open>
  The start of \<open>main\<close> on a bucket, a catalog file and a file system; \<open>listen\<close> is the error of
  \<open>net.Listen\<close>.
\<close>

definition manager_start ::
  "(S3Config \<Rightarrow> go_error + ('c, 'u) s3_client) \<Rightarrow> (string \<Rightarrow> go_error option) \<Rightarrow> (string \<rightharpoonup> string) \<Rightarrow> ('c, 'd) env \<Rightarrow>
    manager_flags \<Rightarrow> 'c \<Rightarrow> string option \<Rightarrow> fs \<Rightarrow> string \<Rightarrow> go_error + ('c, 'd) store \<times> spool \<times> hub" where
  "manager_start newClient listen e E0 f s0 catfile F tmp =
     (if mf_s3Bucket f = [] then Inl (OtherError ''SL_S3_BUCKET (or -s3-bucket) is required'')
      else
        rbind (NewS3Blobs newClient (manager_s3_config e f)) (\<lambda>B.
          (let E = (manager_env f E0)\<lparr>env_B := B\<rparr> in
           rbind (Store_Open E s0 catfile F) (\<lambda>st0.
           (case Recover E tmp st0 of
              (Some err, st) \<Rightarrow> Inl err
            | (None, st) \<Rightarrow>
                rbind (Manager_New (manager_spool_config f) E st) (\<lambda>(sp, hub).
                (case listen (mf_ingestAddr f) of Some err \<Rightarrow> Inl err | None \<Rightarrow> Inr (st, sp, hub))))))))"


section \<open>The agent's end\<close>

text \<open>
  After a signal, \<open>client.Run\<close> returns, so no acknowledgement arrives any more.  A tail looks at the
  context before each line, so it ends unless it is already sending one; a tail that is sending
  ends when \<open>Enqueue\<close> returns.  \<open>Tailer.Run\<close> waits for all tails, and \<open>Close\<close> is deferred until it
  has returned.
\<close>

datatype tail_state = Idle | Sending log_record | Ended

record agent_proc =
  ap_client :: client
  ap_tails :: "tail_state list"
  ap_returned :: bool

inductive shutdown_step :: "(log_record \<Rightarrow> go_error + string) \<Rightarrow> agent_proc \<Rightarrow> agent_proc \<Rightarrow> bool" for marshal where
  sees_cancel: "ap_tails p = xs @ Idle # ys \<Longrightarrow> shutdown_step marshal p (p\<lparr>ap_tails := xs @ Ended # ys\<rparr>)"
| enqueued: "ap_tails p = xs @ Sending r # ys \<Longrightarrow> Enqueue marshal r (ap_client p) = Enqueued c \<Longrightarrow>
    shutdown_step marshal p (p\<lparr>ap_client := c, ap_tails := xs @ Ended # ys\<rparr>)"
| failed: "ap_tails p = xs @ Sending r # ys \<Longrightarrow> Enqueue marshal r (ap_client p) = Failed e \<Longrightarrow>
    shutdown_step marshal p (p\<lparr>ap_tails := xs @ Ended # ys\<rparr>)"
| returns: "list_all (\<lambda>t. t = Ended) (ap_tails p) \<Longrightarrow> shutdown_step marshal p (p\<lparr>ap_returned := True\<rparr>)"
| closes: "ap_returned p \<Longrightarrow> shutdown_step marshal p (p\<lparr>ap_client := Client_Close (ap_client p)\<rparr>)"

abbreviation shutdown_steps :: "(log_record \<Rightarrow> go_error + string) \<Rightarrow> agent_proc \<Rightarrow> agent_proc \<Rightarrow> bool" where
  "shutdown_steps marshal \<equiv> (shutdown_step marshal)\<^sup>*\<^sup>*"

text \<open>The bytes of the records that the tails are sending.\<close>

definition encoded_bytes :: "(log_record \<Rightarrow> go_error + string) \<Rightarrow> log_record \<Rightarrow> int" where
  "encoded_bytes marshal r = (case marshal r of Inl _ \<Rightarrow> 0 | Inr raw \<Rightarrow> int (length raw))"

fun sending :: "tail_state list \<Rightarrow> log_record list" where
  "sending [] = []"
| "sending (Sending r # ts) = r # sending ts"
| "sending (_ # ts) = sending ts"

definition sending_bytes :: "(log_record \<Rightarrow> go_error + string) \<Rightarrow> agent_proc \<Rightarrow> int" where
  "sending_bytes marshal p = sum_list (map (encoded_bytes marshal) (sending (ap_tails p)))"

text \<open>A record that fits is never larger than the distance of the two caps.\<close>

definition record_fits :: "(log_record \<Rightarrow> go_error + string) \<Rightarrow> ClientConfig \<Rightarrow> log_record \<Rightarrow> bool" where
  "record_fits marshal cfg r \<longleftrightarrow> encoded_bytes marshal r \<le> cc_HardMaxBytes cfg - cc_MaxHeldBytes cfg"

text \<open>The client is open and within the soft cap, and everything that is being sent fits.\<close>

definition ending :: "(log_record \<Rightarrow> go_error + string) \<Rightarrow> agent_proc \<Rightarrow> bool" where
  "ending marshal p \<longleftrightarrow> \<not> ap_returned p \<and> \<not> cl_closed (ap_client p) \<and>
     cl_heldByte (ap_client p) \<le> cc_MaxHeldBytes (cl_cfg (ap_client p)) \<and>
     list_all (record_fits marshal (cl_cfg (ap_client p))) (sending (ap_tails p))"

definition room :: "(log_record \<Rightarrow> go_error + string) \<Rightarrow> agent_proc \<Rightarrow> bool" where
  "room marshal p \<longleftrightarrow> cl_heldByte (ap_client p) + sending_bytes marshal p \<le> cc_MaxHeldBytes (cl_cfg (ap_client p))"

lemma sending_append [simp]: "sending (xs @ ys) = sending xs @ sending ys"
  by (induction xs rule: sending.induct) simp_all

lemma sending_ended: "list_all (\<lambda>t. t = Ended) ts \<Longrightarrow> sending ts = []"
  by (induction ts) auto

lemma encoded_bytes_nonneg [simp]: "0 \<le> encoded_bytes marshal r"
  by (simp add: encoded_bytes_def split: sum.split)

lemma sum_encoded_nonneg [simp]: "0 \<le> sum_list (map (encoded_bytes marshal) rs)"
  by (induction rs) simp_all

text \<open>An open client takes a record within the soft cap, waits with one that fits and is over it.\<close>

lemma Enqueue_open:
  assumes "\<not> cl_closed c" and "cl_heldByte c \<le> cc_MaxHeldBytes (cl_cfg c)" and "record_fits marshal (cl_cfg c) r"
  shows "Enqueue marshal r c = (case marshal r of Inl e \<Rightarrow> Failed e | Inr raw \<Rightarrow>
    if cl_heldByte c + int (length raw) \<le> cc_MaxHeldBytes (cl_cfg c) then Enqueued (append_envelope r raw c) else Waits)"
  using assms
  by (auto simp: Enqueue_def Let_def append_envelope_def envelope_of_def record_fits_def encoded_bytes_def split: sum.splits)

lemma sending_Enqueue:
  assumes "ending marshal p" and "ap_tails p = xs @ Sending r # ys"
  shows "Enqueue marshal r (ap_client p) = (case marshal r of Inl e \<Rightarrow> Failed e | Inr raw \<Rightarrow>
    if cl_heldByte (ap_client p) + int (length raw) \<le> cc_MaxHeldBytes (cl_cfg (ap_client p))
    then Enqueued (append_envelope r raw (ap_client p)) else Waits)"
  using assms by (intro Enqueue_open) (simp_all add: ending_def)

text \<open>Until \<open>Tailer.Run\<close> returns, the room does not change; without it, it does not return.\<close>

lemma shutdown_step_room:
  assumes "shutdown_step marshal p q" and "ending marshal p"
  shows "ap_returned q \<longrightarrow> room marshal p" and "\<not> ap_returned q \<longrightarrow> ending marshal q \<and> (room marshal q \<longleftrightarrow> room marshal p)"
proof -
  note defs = ending_def room_def sending_bytes_def encoded_bytes_def append_envelope_def
  have "(ap_returned q \<longrightarrow> room marshal p) \<and> (\<not> ap_returned q \<longrightarrow> ending marshal q \<and> (room marshal q \<longleftrightarrow> room marshal p))"
    using assms
  proof (induction rule: shutdown_step.induct)
    case (enqueued p xs r ys c)
    with sending_Enqueue [of marshal p xs r ys] show ?case by (auto simp: defs split: sum.splits if_splits)
  next
    case (failed p xs r ys e)
    with sending_Enqueue [of marshal p xs r ys] show ?case by (auto simp: defs split: sum.splits if_splits)
  qed (auto simp: defs sending_ended)
  then show "ap_returned q \<longrightarrow> room marshal p" and "\<not> ap_returned q \<longrightarrow> ending marshal q \<and> (room marshal q \<longleftrightarrow> room marshal p)"
    by simp_all
qed

lemma returned_had_room:
  assumes "shutdown_steps marshal p q" and "ending marshal p" and "ap_returned q"
  shows "room marshal p"
  using assms
proof (induction rule: converse_rtranclp_induct)
  case base
  then show ?case by (simp add: ending_def)
next
  case (step p p1)
  then show ?case using shutdown_step_room [OF step(1,4)] by blast
qed

text \<open>With room, every tail can end.\<close>

lemma tail_can_end:
  assumes "ending marshal p" and "room marshal p" and "ap_tails p = xs @ t # ys" and "t \<noteq> Ended"
  shows "\<exists>q. shutdown_step marshal p q \<and> ap_tails q = xs @ Ended # ys \<and> \<not> ap_returned q"
proof (cases t)
  case Idle
  with assms sees_cancel [of p xs ys marshal] show ?thesis by (auto simp: ending_def)
next
  case (Sending r)
  let ?c = "ap_client p"
  have "0 \<le> sum_list (map (encoded_bytes marshal) (sending xs))" "0 \<le> sum_list (map (encoded_bytes marshal) (sending ys))"
    by simp_all
  with assms(2,3) Sending have le: "cl_heldByte ?c + encoded_bytes marshal r \<le> cc_MaxHeldBytes (cl_cfg ?c)"
    unfolding room_def sending_bytes_def by (simp del: sum_encoded_nonneg)
  from assms(3) Sending have ts: "ap_tails p = xs @ Sending r # ys" by simp
  note enq = sending_Enqueue [OF assms(1) ts]
  show ?thesis
  proof (cases "marshal r")
    case (Inl e)
    with enq have "Enqueue marshal r ?c = Failed e" by simp
    from failed [OF ts this] assms(1) show ?thesis by (intro exI [of _ "p\<lparr>ap_tails := xs @ Ended # ys\<rparr>"]) (simp add: ending_def)
  next
    case (Inr raw)
    with enq le have "Enqueue marshal r ?c = Enqueued (append_envelope r raw ?c)" by (simp add: encoded_bytes_def)
    from enqueued [OF ts this] assms(1) show ?thesis
      by (intro exI [of _ "p\<lparr>ap_client := append_envelope r raw ?c, ap_tails := xs @ Ended # ys\<rparr>"]) (simp add: ending_def)
  qed
qed (use assms(4) in simp)

lemma room_can_return:
  assumes "ending marshal p" and "room marshal p"
  shows "\<exists>q. shutdown_steps marshal p q \<and> ap_returned q"
  using assms
proof (induction "length (filter (\<lambda>t. t \<noteq> Ended) (ap_tails p))" arbitrary: p rule: less_induct)
  case less
  show ?case
  proof (cases "list_all (\<lambda>t. t = Ended) (ap_tails p)")
    case True
    from returns [OF this, of marshal] show ?thesis by (intro exI [of _ "p\<lparr>ap_returned := True\<rparr>"]) auto
  next
    case False
    then obtain xs t ys where t: "ap_tails p = xs @ t # ys" "t \<noteq> Ended" by (auto simp: list_all_iff dest: split_list)
    from tail_can_end [OF less.prems t] obtain q where q: "shutdown_step marshal p q" "ap_tails q = xs @ Ended # ys" "\<not> ap_returned q"
      by blast
    from less.hyps [of q] shutdown_step_room(2) [OF q(1) less.prems(1)] q t less.prems
    obtain q' where "shutdown_steps marshal q q'" "ap_returned q'" by auto
    with q(1) show ?thesis by (meson converse_rtranclp_into_rtranclp)
  qed
qed

text \<open>The client of a run before \<open>Close\<close>.\<close>

fun event_records :: "client_event list \<Rightarrow> log_record list" where
  "event_records [] = []"
| "event_records (OnEnqueue r # evs) = r # event_records evs"
| "event_records (_ # evs) = event_records evs"

lemma event_records_mem: "OnEnqueue r \<in> set evs \<Longrightarrow> r \<in> set (event_records evs)"
  by (induction evs rule: event_records.induct) auto

lemma client_step_closed: "ev \<noteq> OnClose \<Longrightarrow> cl_closed (client_step marshal ev c) = cl_closed c"
proof (cases ev)
  case (OnEnqueue r)
  have "cl_closed c' = cl_closed c" if "Enqueue marshal r c = Enqueued c'" for c'
    using that by (elim EnqueueE) (simp_all add: append_envelope_def dropOldestLocked_def split: list.split)
  with OnEnqueue show ?thesis by (simp split: enqueue_result.split)
next
  case (OnFlush n)
  obtain bs err c' where f: "flush n c = (bs, err, c')" by (cases "flush n c")
  from flush_sends [OF f] f OnFlush show ?thesis by auto
qed (simp_all add: reset_window_def applyAck_def Let_def)

lemma client_run_closed: "OnClose \<notin> set evs \<Longrightarrow> cl_closed (client_run marshal evs c) = cl_closed c"
proof (induction evs arbitrary: c)
  case (Cons ev evs)
  then have "ev \<noteq> OnClose" "OnClose \<notin> set evs" by auto
  from client_step_closed [OF this(1), of marshal c] Cons.IH [OF this(2)] show ?case by simp
qed simp

lemma ending_client:
  assumes "c = client_run marshal evs (NewClient cfg)" and "OnClose \<notin> set evs"
    and "list_all (record_fits marshal (ClientConfig_defaults cfg)) (event_records evs)"
  shows "cl_cfg c = ClientConfig_defaults cfg" and "\<not> cl_closed c" and "cl_heldByte c \<le> cc_MaxHeldBytes (ClientConfig_defaults cfg)"
proof -
  have new: "no_drops [] (NewClient cfg)" "cl_cfg (NewClient cfg) = ClientConfig_defaults cfg" "\<not> cl_closed (NewClient cfg)"
    using NewClient_ok defaults_positive(1) [of cfg] by (simp_all add: no_drops_def NewClient_def less_imp_le)
  have cfg: "cl_cfg (client_run marshal evs d) = cl_cfg d" for d by (induction evs arbitrary: d) simp_all
  have "int (length raw) \<le> cc_HardMaxBytes (cl_cfg (NewClient cfg)) - cc_MaxHeldBytes (cl_cfg (NewClient cfg))"
    if "OnEnqueue r \<in> set evs" "marshal r = Inr raw" for r raw
    using assms(3) event_records_mem [OF that(1)] that(2) new(2) by (auto simp: list_all_iff record_fits_def encoded_bytes_def)
  from no_drops_run [OF new(1) this] cfg new client_run_closed [OF assms(2)] assms(1)
  show "cl_cfg c = ClientConfig_defaults cfg" "\<not> cl_closed c" "cl_heldByte c \<le> cc_MaxHeldBytes (ClientConfig_defaults cfg)"
    by (simp_all add: no_drops_def)
qed


section \<open>Properties\<close>

text \<open>
  C14: a start of the manager is a restart of its machine.  When \<open>main\<close> starts on the bucket of any
  state of a manager, with the catalog file that is there or without one, and gets as far as
  serving, it is in the state that a restart step of the machine leads to, with the hub, the
  store and the spool of the settings; so what holds of every run of the machine holds of a
  manager that is killed and started again.
\<close>

theorem manager_start_restarts:
  assumes "M = manager_machine srt (manager_spool_config f) n (s3_env (manager_env f E) K) bucket good records"
    and "newClient (manager_s3_config e f) = Inr K" and "catalog_file (env_D E) (st_cat (mg_world w)) catfile"
    and "manager_start newClient listen e E f (st_blobs (mg_world w)) catfile F tmp = Inr (st, sp, hub)"
  shows "mgr_step M w \<lparr>mg_spool = sp, mg_hub = Some hub, mg_world = st, mg_flight = [], mg_accepted = {}\<rparr> \<and>
    mf_s3Bucket f \<noteq> [] \<and> listen (mf_ingestAddr f) = None"
proof -
  let ?E = "s3_env (manager_env f E) K"
  from assms(2,4) obtain st0 where o: "Store_Open ?E (st_blobs (mg_world w)) catfile F = Inr st0"
    and rec: "(case Recover ?E tmp st0 of (Some err, st) \<Rightarrow> Inl err
      | (None, st) \<Rightarrow> rbind (Manager_New (manager_spool_config f) ?E st) (\<lambda>(sp, hub).
          (case listen (mf_ingestAddr f) of Some err \<Rightarrow> Inl err | None \<Rightarrow> Inr (st, sp, hub)))) = Inr (st, sp, hub)"
    and bucket: "mf_s3Bucket f \<noteq> []"
    by (auto simp: manager_start_def NewS3Blobs_def Let_def split: if_splits)
  obtain err st1 where "Recover ?E tmp st0 = (err, st1)" by (cases "Recover ?E tmp st0")
  with rec have r: "Recover ?E tmp st0 = (None, st)" "NewSpool (manager_spool_config f) ?E st = Inr sp"
    and hub: "hub = NewHub 4096" and listen: "listen (mf_ingestAddr f) = None"
    by (auto simp: Manager_New_def split: option.splits)
  have "env_D ?E = env_D E" by (simp add: manager_env_def)
  with o r assms(3) have "manager_restart (manager_spool_config f) ?E (st_cat (mg_world w)) (st_blobs (mg_world w)) (st, sp)"
    unfolding manager_restart_def by auto
  then have "mc_restart M (uploading w) (mg_world w) (st, sp)" by (auto simp: assms(1) manager_machine_def)
  from mgr_step.restart [OF this] hub bucket listen show ?thesis by simp
qed

definition sample_vars :: "string \<rightharpoonup> string" where
  "sample_vars = [''SL_S3_BUCKET'' \<mapsto> ''logs'']"

definition sample_flags :: manager_flags where
  "sample_flags = manager_defaults (\<lambda>_. None) sample_vars"

lemma sample_manager_start:
  "\<exists>st sp. manager_start (\<lambda>_. Inr sample_s3) (\<lambda>_. None) sample_vars (sample_env m) sample_flags ([], []) None Map.empty [] =
     Inr (st, sp, NewHub 4096)"
proof -
  let ?E = "s3_env (manager_env sample_flags (sample_env m)) sample_s3"
  have fields: "env_D ?E = sample_bolt" "env_os ?E = sample_os" "env_B ?E = S3Blobs sample_s3"
    by (simp_all add: manager_env_def)
  have "\<exists>st. Store_Open ?E ([], []) None Map.empty = Inr st \<and> st_blobs st = ([], []) \<and> st_cat st = []"
    by (simp add: Store_Open_def openCatalog_def fields sample_bolt_def sample_os_def newDiskCache_def Let_def)
  then obtain st where o: "Store_Open ?E ([], []) None Map.empty = Inr st" "st_blobs st = ([], [])" "st_cat st = []" by blast
  have r: "Recover ?E [] st = (None, st)"
    using o by (simp add: Recover_def loadLatestSnapshot_def fields S3Blobs_def S3_List_def sample_s3_def)
  have "SourceWatermarks ?E st = Inr Map.empty"
    by (simp add: SourceWatermarks_def cat_all_def cat_overlapping_def fields o sample_bolt_def)
  then obtain sp where "NewSpool (manager_spool_config sample_flags) ?E st = Inr sp"
    by (simp add: NewSpool_def Let_def fields sample_os_def)
  moreover have "mf_s3Bucket sample_flags \<noteq> []"
    by (simp add: sample_flags_def sample_vars_def manager_defaults_def env_or_def getenv_def)
  ultimately show ?thesis using o r by (simp add: manager_start_def NewS3Blobs_def Manager_New_def)
qed

theorem manager_start_restarts_witness:
  "\<exists>m w st sp. manager_start (\<lambda>_. Inr sample_s3) (\<lambda>_. None) sample_vars (sample_env m) sample_flags ([], []) None Map.empty [] =
      Inr (st, sp, NewHub 4096) \<and> mg_world w = sample_store [] \<and>
    mgr_step (manager_machine (sort_key rec_Timestamp) (manager_spool_config sample_flags) 1
        (s3_env (manager_env sample_flags (sample_env m)) sample_s3) sample_bucket (\<lambda>_. True) (\<lambda>_. True)) w
      \<lparr>mg_spool = sp, mg_hub = Some (NewHub 4096), mg_world = st, mg_flight = [], mg_accepted = {}\<rparr>"
proof -
  obtain m :: segment_meta where True by simp
  obtain st sp where s: "manager_start (\<lambda>_. Inr sample_s3) (\<lambda>_. None) sample_vars (sample_env m) sample_flags ([], []) None Map.empty [] =
      Inr (st, sp, NewHub 4096)" using sample_manager_start by blast
  let ?w = "\<lparr>mg_spool = sp, mg_hub = None, mg_world = sample_store [], mg_flight = [], mg_accepted = {}\<rparr>"
  have "catalog_file (env_D (sample_env m)) (st_cat (mg_world ?w)) None" by (simp add: catalog_file_def)
  from manager_start_restarts [OF refl _ this, of "\<lambda>_. Inr sample_s3" sample_vars sample_flags sample_s3 "\<lambda>_. None" Map.empty "[]" st sp
      "NewHub 4096" "sort_key rec_Timestamp" 1 sample_bucket "\<lambda>_. True" "\<lambda>_. True"] s
  show ?thesis by (intro exI [of _ m] exI [of _ ?w] exI [of _ st] exI [of _ sp]) simp
qed

text \<open>
  C37: the end of the agent.  After a signal the client's \<open>Run\<close> has stopped and no acknowledgement
  comes; \<open>Tailer.Run\<close> waits for every tail, and \<open>Close\<close>, which would release a waiting
  \<open>Enqueue\<close>, is deferred until after it.  So for a client of any run whose records fit between
  the caps, \<open>Tailer.Run\<close> can return if and only if the bytes held and those of all records that
  tails are sending are within the soft cap; otherwise no schedule ends the process.
\<close>

theorem shutdown_waits_for_room:
  assumes "ap_client p = client_run marshal evs (NewClient cfg)" and "OnClose \<notin> set evs" and "\<not> ap_returned p"
    and "list_all (record_fits marshal (ClientConfig_defaults cfg)) (event_records evs @ sending (ap_tails p))"
  shows "(\<exists>q. shutdown_steps marshal p q \<and> ap_returned q) \<longleftrightarrow>
    cl_heldByte (ap_client p) + sending_bytes marshal p \<le> cc_MaxHeldBytes (ClientConfig_defaults cfg)"
proof -
  have fits: "list_all (record_fits marshal (ClientConfig_defaults cfg)) (event_records evs)"
    "list_all (record_fits marshal (ClientConfig_defaults cfg)) (sending (ap_tails p))"
    using assms(4) by simp_all
  note c = ending_client [OF assms(1,2) fits(1)]
  from c fits(2) assms(3) have "ending marshal p" by (simp add: ending_def)
  with returned_had_room room_can_return have "(\<exists>q. shutdown_steps marshal p q \<and> ap_returned q) \<longleftrightarrow> room marshal p" by blast
  with c(1) show ?thesis by (simp add: room_def)
qed

definition sample_agent_end :: "client_event list \<Rightarrow> agent_proc" where
  "sample_agent_end evs = \<lparr>ap_client = client_run (\<lambda>r. Inr ''{.....}'') evs (NewClient sample_client_cfg),
     ap_tails = [Idle, Sending later_record], ap_returned = False\<rparr>"

lemma sample_agent_end_bytes:
  "cl_heldByte (ap_client (sample_agent_end [OnEnqueue sample_record])) = 7"
  "cl_heldByte (ap_client (sample_agent_end [OnEnqueue sample_record, OnAck [(rec_key sample_record, 10)]])) = 0"
  "sending_bytes (\<lambda>r. Inr ''{.....}'') (sample_agent_end evs) = 7"
  by (simp_all add: sample_agent_end_def sample_client_defs Let_def sending_bytes_def encoded_bytes_def)

theorem shutdown_waits_for_room_witness:
  "\<not> (\<exists>q. shutdown_steps (\<lambda>r. Inr ''{.....}'') (sample_agent_end [OnEnqueue sample_record]) q \<and> ap_returned q) \<and>
   (\<exists>q. shutdown_steps (\<lambda>r. Inr ''{.....}'') (sample_agent_end [OnEnqueue sample_record, OnAck [(rec_key sample_record, 10)]]) q \<and>
     ap_returned q)"
proof -
  let ?m = "\<lambda>r :: log_record. Inr ''{.....}'' :: go_error + string"
  have cap: "cc_MaxHeldBytes (ClientConfig_defaults sample_client_cfg) = 10"
    by (simp add: sample_client_cfg_def ClientConfig_defaults_def)
  have fits: "record_fits ?m (ClientConfig_defaults sample_client_cfg) r" for r
    by (simp add: record_fits_def encoded_bytes_def sample_client_cfg_def ClientConfig_defaults_def)
  have iff: "(\<exists>q. shutdown_steps ?m (sample_agent_end evs) q \<and> ap_returned q) \<longleftrightarrow>
      cl_heldByte (ap_client (sample_agent_end evs)) + sending_bytes ?m (sample_agent_end evs) \<le> 10" if "OnClose \<notin> set evs" for evs
    by (rule shutdown_waits_for_room [of _ ?m evs sample_client_cfg, unfolded cap])
      (use that fits in \<open>simp_all add: sample_agent_end_def list_all_iff\<close>)
  show ?thesis
    using iff [of "[OnEnqueue sample_record]"] iff [of "[OnEnqueue sample_record, OnAck [(rec_key sample_record, 10)]]"]
    by (simp add: sample_agent_end_bytes)
qed

end
