(* ===== verification/Spec2Isabelle.thy ===== *)
theory Spec2Isabelle
  imports Commands
begin

text \<open>
  simplelog is a log store for Kubernetes.  An agent on every node tails the container logs and
  streams records to one manager; the manager collects them in an open segment, seals it to an
  object store, acknowledges what is sealed, and answers queries over the sealed segments and the
  open one.  This development models that program function by function and proves what makes it
  correct; the theories are in the order in which data flows back from the query language to the
  whole system.

  \<^bold>\<open>Conventions.\<close>  A Go string is a list of bytes, an \<open>int64\<close> an \<open>int\<close> with the wrap-around written
  out where it can occur (\<open>wrap64\<close>, \<open>in_int64\<close>), device and inode numbers are \<open>64 word\<close>, a
  \<open>time.Time\<close> its nanoseconds.  An error is a value of \<open>go_error\<close>; a fallible call returns \<open>go_error
  + 'a\<close>, a call that may panic an option.  State is passed explicitly.  Maps that the code ranges
  over are association lists, the others partial functions.  Code outside the repository is a
  parameter with its documented behaviour as a named hypothesis: \<open>encoding/json\<close>, zstd, \<open>regexp\<close> and
  Unicode tables (\<open>runtime\<close>, \<open>codec\<close>, \<open>codec_ok\<close>), bbolt (\<open>bolt\<close>, \<open>bolt_ok\<close>), the S3 client
  (\<open>s3_client\<close>, \<open>s3_ok\<close>), \<open>sort.Slice\<close> (\<open>sort_slice_ok\<close>), the clock, ULIDs and the outcome of
  file-system calls.  \<open>StoreSamples\<close> and the witnesses instantiate all of them.

  \<^bold>\<open>Shared.\<close>  \<open>Prelude\<close> (errors, bytes, big-endian integers, decimal text), \<open>GoStrings\<close> (UTF-8,
  \<open>strings\<close>, floating-point comparison), \<open>LogModel\<close> (\<open>internal/model/model.go\<close>: sources and their
  \<open>Key\<close>, records, segment metadata; the key identifies the source).

  \<^bold>\<open>Query language and executor\<close>, \<open>internal/query\<close>.  \<open>QueryLexer\<close>, \<open>QueryEval\<close> (values and the AST's
  \<open>Match\<close>) and \<open>QueryParser\<close> follow \<open>lexer.go\<close>, \<open>value.go\<close>, \<open>ast.go\<close> and \<open>parser.go\<close>.  The parser is
  defined on a bound that \<open>Parse\<close> computes from the length of the text and that is proved to be
  enough; it accepts exactly the grammar of the package comment, and a parsed query evaluates on
  every record.  \<open>QueryPrune\<close> (\<open>prune.go\<close>): a skipped segment has no match.  \<open>QueryIter\<close> (\<open>iter.go\<close>)
  has the cursors as interpretations of the locale \<open>record_cursor\<close>; \<open>QueryExec\<close> (\<open>planner.go\<close>) is \<open>Run\<close>
  over the contract \<open>segment_source\<close>.  \<open>QueryHub\<close> (\<open>hub.go\<close>) is the live tail over an explicit heap of
  channels: no panic, and no gaps for a subscriber that is still registered.

  \<^bold>\<open>Segments\<close>, \<open>internal/segment\<close>.  \<open>SegmentFile\<close> is the byte-exact format with its writer and reader,
  \<open>SegmentProofs\<close> the invariant of the writer and the round trip.

  \<^bold>\<open>Store\<close>, \<open>internal/store\<close>.  \<open>DiskCache\<close> (\<open>cache.go\<close>), \<open>BlobStore\<close> (\<open>blobs.go\<close>, \<open>s3.go\<close>; both are
  interpretations of the locale \<open>object_store\<close>), \<open>Catalog\<close> (\<open>catalog.go\<close>; \<open>segment_catalog\<close>),
  \<open>SegStore\<close> (\<open>store.go\<close>).  \<open>StoreProofs\<close> proves durability in the locale \<open>durable_store\<close>, from these
  two contracts only, and interprets it on the store over S3 and over memory; \<open>StoreQuery\<close> makes the
  store a \<open>segment_source\<close> by a sublocale; \<open>Durability\<close> states what the manager relies on.  Nothing is
  assumed of the error texts of S3, so what \<open>Recover\<close> lists is all that is sealed but for the
  sidecars whose \<open>Get\<close> read as a missing object (\<open>Recover_skips\<close>).

  \<^bold>\<open>Manager\<close>, \<open>internal/manager\<close>.  \<open>Spool\<close> (\<open>spool.go\<close>) has \<open>Accept\<close> and \<open>Seal\<close>, the latter also split
  where it releases its lock.  \<open>ManagerRun\<close> is the manager as a step relation: records arrive while
  a seal is in one of its three phases, uploads fail, the process is killed in the middle of an
  upload and restarted, on the disk it left or on an empty one.  Its invariant is proved from the contract \<open>batch_store\<close>, which \<open>ManagerStore\<close>
  discharges for the production store.  \<open>AckSafety\<close>: what is acknowledged is durable while one seal
  runs at a time, and need not be with two.  \<open>Manager\<close> has the operations of \<open>manager.go\<close> and the
  outcomes of a seal; \<open>HttpApi\<close> the mux and the handlers of \<open>http.go\<close>.

  \<^bold>\<open>Agent.\<close>  \<open>CriParse\<close> (\<open>internal/tailer/parse.go\<close>), \<open>Checkpoint\<close> (\<open>checkpoint.go\<close>), \<open>Enrich\<close>
  (\<open>internal/enrich/enrich.go\<close>, a fold over the informer's events; locale \<open>record_enricher\<close>), \<open>Tailer\<close> (\<open>tailer.go\<close>: a tail hands over
  exactly the records of its file above its checkpoint, however reads and writes interleave, and a
  source never has two tails), \<open>Ingest\<close> (\<open>internal/ingest\<close>: the client's window and its caps, and the
  server), \<open>Settings\<close> (the commands' settings and \<open>internal/buildinfo\<close>).

  \<^bold>\<open>The whole.\<close>  \<open>Watermarks\<close> adds to the manager's contract what a restarted manager knows of its
  sources.  \<open>Delivery\<close> composes agent, connections and manager into one step relation, \<open>sys_step\<close>, in
  which connections break, handlers of old sessions go on, acknowledgements come late or twice and
  either side is killed at any point; its theorem is that, with one seal at a time, every line up to the
  checkpoint is in the bucket.  \<open>Pipeline\<close> puts the tails in front of it: a tail started at the checkpoint reads every
  line that is not in the bucket.  \<open>Commands\<close> has the two \<open>main\<close> functions: a start of the manager is a
  restart step of its machine, and the agent ends after a signal if and only if its client has room
  for what the tails are sending.  This theory has the theorem about queries: \<open>Run\<close> over the store
  and the open segment returns exactly the matching records.

  \<^bold>\<open>Bounds.\<close>  Loops are structural recursions or have a termination proof; the only bound is the
  parser's, above.  A segment body is assumed shorter than 2 GiB, so that the 32-bit counts of the
  block index do not wrap.  The agent's theorems assume of the records that its tails hand over (and of
  no others) that they can be encoded and fit between the two caps of the client's window; what
  happens to longer ones is a theorem of \<open>Ingest\<close>.

  \<^bold>\<open>Not modelled.\<close>  The wire code generated by protoc and the RPC library (a connection is a queue
  that may lose its end; \<open>ServeIngest\<close> and \<open>NewServer\<close> only register the handler); HTTP, the
  embedded UI and JSON output; the S3 client and the Kubernetes informer, which are parameters
  with their constructors; package \<open>flag\<close>, the delivery of signals and the start of goroutines in
  the two \<open>main\<close> functions; \<open>sidecar.go\<close>, two calls of \<open>encoding/json\<close> that are parameters.
  Interleavings are of operations that hold a lock from start to end; the Go memory model is not
  modelled.
\<close>


section \<open>Queries\<close>

text \<open>The state in which queries over the production store succeed.\<close>

definition s3_ready ::
  "('c, 'd) env \<Rightarrow> ('c, 'u) s3_client \<Rightarrow> ('c \<Rightarrow> string \<rightharpoonup> string) \<Rightarrow> ('u \<Rightarrow> string) \<Rightarrow>
    ('c \<Rightarrow> 'u \<Rightarrow> string option) \<Rightarrow> (segment_meta \<Rightarrow> bool) \<Rightarrow> ('c, 'd) store \<Rightarrow> bool" where
  "s3_ready E K bucket key_of staged good =
     ready (s3_env E K) (\<lambda>c. s3_ok K bucket key_of staged) bucket (cat_ok (env_D E) (env_M E) good) good
       (cat_metas (env_D E) (env_M E))"

lemma s3_ready_run:
  assumes "s3_ready E K bucket key_of staged good st"
    and "wf_node expr" and "rq_Expr req = Some expr" and "ts_sorted False (snap (rq_Start req) (rq_End req))"
  shows "\<exists>st' out. Run rt (store_source (s3_env E K)) (Some snap) req collect st [] =
      (None, st', if rq_Limit req > 0 then take (nat (rq_Limit req)) out else out) \<and>
    ts_sorted (rq_Desc req) out \<and>
    mset out = mset (filter (wanted rt expr req)
      (concat (map (store_content (s3_env E K) bucket st) (catalog_metas E st)) @ snap (rq_Start req) (rq_End req)))"
proof -
  have e: "expr = (case rq_Expr req of None \<Rightarrow> matchAll | Some n \<Rightarrow> n)" using assms(3) by simp
  have o: "snap (rq_Start req) (rq_End req)
      = (case Some snap of None \<Rightarrow> [] | Some snap \<Rightarrow> snap (rq_Start req) (rq_End req))" by simp
  from s3_store.src.run_exact [OF assms(1) [unfolded s3_ready_def] e assms(2) o assms(4)] show ?thesis by blast
qed

lemma wanted_snapshot:
  assumes "sort_slice_ok srt"
  shows "mset (filter (wanted rt expr req) (Spool_Snapshot srt sp (rq_Start req) (rq_End req)))
    = mset (filter (wanted rt expr req) (sp_buf sp))"
proof -
  have "mset (filter (wanted rt expr req) (Spool_Snapshot srt sp (rq_Start req) (rq_End req)))
      = mset (filter (wanted rt expr req) (filter (\<lambda>r. in_window (rq_Start req) (rq_End req) (rec_Timestamp r)) (sp_buf sp)))"
    unfolding mset_filter snapshot_window(2) [OF assms] ..
  also have "filter (wanted rt expr req) (filter (\<lambda>r. in_window (rq_Start req) (rq_End req) (rec_Timestamp r)) (sp_buf sp))
      = filter (wanted rt expr req) (sp_buf sp)"
    unfolding filter_filter by (rule filter_cong [OF refl]) (auto simp: wanted_def)
  finally show ?thesis .
qed

lemma sample_ready:
  assumes ws: "write_segment sample_codec mem_writer 0 [sample_record] = Inr (meta, body)" "length body < 2 ^ 31"
    and seal: "Store_Seal (sample_env (sample_keyed meta)) sample_lp ''A'' meta (sample_store body) = (Inr m, st)"
  shows "s3_ready (sample_env (sample_keyed meta)) sample_s3 sample_bucket (\<lambda>k. k) sample_staged (sample_meta_good meta) st"
    and "map (store_content (sample_env (sample_keyed meta)) sample_bucket st)
      (catalog_metas (sample_env (sample_keyed meta)) st) = [[sample_record]]"
proof -
  let ?E = "sample_env (sample_keyed meta)" and ?st = "sample_store body"
  have E: "s3_env ?E sample_s3 = ?E" by (rule sample_env_B)
  note w = write_segment_body [OF sample_codec_ok mem_writer_ok ws, simplified]
  have inv: "s3_inv ?E sample_s3 sample_bucket (\<lambda>k. k) sample_staged (sample_meta_good meta) ?st"
    using sample_store_inv by (simp add: s3_inv_def)
  have cat: "catalog_metas ?E ?st = []" by (simp add: cat_metas_def sample_bolt_def)
  have cache: "st_cache ?st = \<lparr>dc_dir = ''/d/cache'', dc_maxByte = 2147483648, dc_ll = [], dc_curByt = 0\<rparr>"
    by (simp add: sample_store_def)
  have rdy: "s3_ready ?E sample_s3 sample_bucket (\<lambda>k. k) sample_staged (sample_meta_good meta) ?st"
    using inv sample_s3_serves [of ?E] cat
    by (simp add: s3_ready_def ready_def s3_inv_def cache_sync_def bodies_ok_def files_serve_def sample_os_def
        cache cache_ok_def)
  have k: "plain_id ''A''" "fresh_id (s3_env ?E sample_s3) (sample_bucket (st_blobs ?st)) ''A''"
    "sample_meta_good meta (keyed (s3_env ?E sample_s3) ''A'' meta)"
    "Store_Seal (s3_env ?E sample_s3) sample_lp ''A'' meta ?st = (Inr m, st)"
    using sample_plain sample_fresh seal by (simp_all add: same_meta_def)
  have path: "st_fs ?st (pathFor (st_cache ?st) ''A'') = None"
    by (simp add: sample_store_def pathFor_def sample_lp_def)
  have body: "segment_body sample_codec meta body" "seg_records sample_codec body = [sample_record]"
    "sm_SizeBytes meta = int (length body)" using w sample_storable by (simp_all add: ts_sorted_def)
  have len: "int (length body) \<le> dc_maxByte (st_cache ?st)" using ws(2) by (simp add: cache)
  note fin = s3_store.Store_Seal_ready [OF rdy [unfolded s3_ready_def] k sample_store_sel(1) _ len _ disjI1 [OF path]]
  show "s3_ready ?E sample_s3 sample_bucket (\<lambda>k. k) sample_staged (sample_meta_good meta) st"
    using fin(1) body by (simp add: s3_ready_def)
  have content: "store_content ?E sample_bucket st m = [sample_record]"
    using fin(2) body by (simp add: store_content_def)
  have "set (catalog_metas ?E st) = {m}"
    using s3_store.Store_Seal_inv [OF inv [unfolded s3_inv_def] k] cat by simp
  moreover have "cat_ok sample_bolt (sample_meta_codec (sample_keyed meta)) (sample_meta_good meta) (st_cat st)"
    using fin(1) body by (simp add: ready_def store_inv_def)
  from cat_metas_distinct [OF this] have "distinct (catalog_metas ?E st)" by (simp add: distinct_map)
  ultimately have "catalog_metas ?E st = [m]"
    by (cases "catalog_metas ?E st") (auto simp: subset_singleton_iff)
  then show "map (store_content ?E sample_bucket st) (catalog_metas ?E st) = [[sample_record]]"
    using content by simp
qed


section \<open>Properties\<close>

text \<open>
  C4: a query returns exactly the matching records.  For a parsed query over a store whose calls
  succeed, \<open>Run\<close> ends without an error; it emits the records of the cataloged segments and of the
  open buffer that lie in the window and match the query, each as often as it is stored, in the
  requested order of time, up to the limit.
\<close>

theorem query_returns_exactly_the_matches:
  assumes "s3_ready E K bucket key_of staged good st" and "sort_slice_ok srt"
    and "Parse rt q = Inr expr" and "rq_Expr req = Some expr"
  shows "\<exists>st' out. Run rt (store_source (s3_env E K)) (Some (Spool_Snapshot srt sp)) req collect st [] =
      (None, st', if rq_Limit req > 0 then take (nat (rq_Limit req)) out else out) \<and>
    ts_sorted (rq_Desc req) out \<and>
    mset out = mset (filter
      (\<lambda>r. in_window (rq_Start req) (rq_End req) (rec_Timestamp r) \<and> Match rt expr r = Some True)
      (concat (map (store_content (s3_env E K) bucket st) (catalog_metas E st)) @ sp_buf sp))"
proof -
  have W: "wanted rt expr req =
      (\<lambda>r. in_window (rq_Start req) (rq_End req) (rec_Timestamp r) \<and> Match rt expr r = Some True)"
    by (simp add: wanted_def selects_def fun_eq_iff)
  note run = s3_ready_run [OF assms(1) Parse_wf [OF assms(3)] assms(4), of "Spool_Snapshot srt sp" rt,
      OF snapshot_window(1) [OF assms(2)], unfolded filter_append mset_append wanted_snapshot [OF assms(2)], unfolded W]
  show ?thesis unfolding filter_append mset_append by (rule run)
qed

theorem query_returns_exactly_the_matches_witness:
  "\<exists>meta st st'. Run bare_runtime (store_source (sample_env (sample_keyed meta)))
      (Some (Spool_Snapshot (sort_key rec_Timestamp) \<lparr>sp_cfg = sample_cfg, sp_buf = [later_record], sp_bufBytes = 0,
         sp_openSince = 0, sp_received = Map.empty, sp_committed = Map.empty\<rparr>))
      \<lparr>rq_Expr = Some matchAll, rq_Start = zero_time, rq_End = zero_time, rq_Limit = 0, rq_Desc = False\<rparr> collect st []
    = (None, st', [sample_record, later_record])"
proof -
  obtain meta body where ws: "write_segment sample_codec mem_writer 0 [sample_record] = Inr (meta, body)"
    "length body < 2 ^ 31" using sample_write by blast
  let ?E = "sample_env (sample_keyed meta)"
  obtain m st where seal: "Store_Seal ?E sample_lp ''A'' meta (sample_store body) = (Inr m, st)"
    using sample_seal [OF sample_store_sel(1)] by blast
  let ?sp = "\<lparr>sp_cfg = sample_cfg, sp_buf = [later_record], sp_bufBytes = 0,
         sp_openSince = 0, sp_received = Map.empty, sp_committed = Map.empty\<rparr>"
  let ?req = "\<lparr>rq_Expr = Some matchAll, rq_Start = zero_time, rq_End = zero_time, rq_Limit = 0, rq_Desc = False\<rparr>"
  have p: "Parse bare_runtime [] = Inr matchAll" by code_simp
  have all: "Match bare_runtime matchAll r = Some True" for r by simp
  have w: "in_window zero_time zero_time t" for t by (simp add: in_window_def is_zero_def)
  obtain st' out where r: "Run bare_runtime (store_source ?E) (Some (Spool_Snapshot (sort_key rec_Timestamp) ?sp)) ?req collect st []
      = (None, st', out)" "ts_sorted False out" "mset out = {#sample_record, later_record#}"
    using query_returns_exactly_the_matches [OF sample_ready(1) [OF ws seal] sort_key_slice_ok p, of ?req ?sp]
      sample_ready(2) [OF ws seal] by (auto simp: all w)
  have "length out = 2" using r(3) by (metis size_mset size_add_mset size_empty Suc_1 One_nat_def)
  then obtain x y where out: "out = [x, y]" by (auto simp: length_Suc_conv eval_nat_numeral)
  have "set_mset (mset out) = {sample_record, later_record}" unfolding r(3) by simp
  then have "{x, y} = {sample_record, later_record}" by (simp add: out)
  then have "out = [sample_record, later_record]"
    using r(2) unfolding out
    by (auto simp: doubleton_eq_iff ts_sorted_def sorts_before_def later_record_def sample_record_def)
  with r show ?thesis by blast
qed

end
